(* ===== verification/Prelude.thy ===== *)
theory Prelude
  imports Main "HOL-Library.Word" "HOL-Library.AList"
begin

section \<open>Shared types, Go arithmetic and library lemmas\<close>

text \<open>
  What every component of the development uses: Go's \<open>int64\<close> wrap-around, Go byte
  slices with their \<open>nil\<close> value, \<open>strconv.FormatInt\<close> and \<open>strconv.ParseInt\<close>,
  and the lemmas on association lists, which stand for Go maps. A Go map is an association
  list with distinct keys: lookup is \<^const>\<open>map_of\<close>, assignment \<^const>\<open>AList.update\<close>,
  \<open>delete\<close> is \<^const>\<open>AList.delete\<close> and \<open>len\<close> is \<^const>\<open>length\<close>.
\<close>

named_theorems codec_simps \<open>rewriting of encoders and decoders\<close>
named_theorems inv_intros \<open>preservation of the components' invariants\<close>

subsection \<open>Machine integers\<close>

type_synonym u8 = "8 word"
type_synonym u32 = "32 word"
type_synonym u64 = "64 word"

text \<open>Go's \<open>int64\<close> is an \<^typ>\<open>int\<close> in the range below; \<open>wrap64\<close> is what an
  \<open>int64\<close> operation stores.\<close>

definition int64 :: "int \<Rightarrow> bool" where
  "int64 x \<longleftrightarrow> - (2 ^ 63) \<le> x \<and> x < 2 ^ 63"

definition wrap64 :: "int \<Rightarrow> int" where
  "wrap64 x = (x + 2 ^ 63) mod 2 ^ 64 - 2 ^ 63"

definition maxInt64 :: int where
  "maxInt64 = 2 ^ 63 - 1"

lemma int64_wrap64 [simp]: "int64 (wrap64 x)"
proof -
  have "0 \<le> (x + 2 ^ 63) mod 2 ^ 64" and "(x + 2 ^ 63) mod 2 ^ 64 < 2 ^ 64"
    by (rule pos_mod_sign, simp) (rule pos_mod_bound, simp)
  then show ?thesis by (simp add: int64_def wrap64_def)
qed

lemma wrap64_id [simp]: "int64 x \<Longrightarrow> wrap64 x = x"
  by (simp add: int64_def wrap64_def)

lemma wrap64_eq_mod: "wrap64 x mod 2 ^ 64 = x mod 2 ^ 64"
  by (simp add: wrap64_def mod_diff_left_eq)

text \<open>Go integer division and remainder truncate towards zero.\<close>

definition go_div :: "int \<Rightarrow> int \<Rightarrow> int" where
  "go_div a b = sgn a * sgn b * (\<bar>a\<bar> div \<bar>b\<bar>)"

lemma go_div_nonneg: "0 \<le> a \<Longrightarrow> 0 < b \<Longrightarrow> go_div a b = a div b"
  by (cases "a = 0") (auto simp: go_div_def)

subsection \<open>Byte slices\<close>

text \<open>
  A Go string is a \<^typ>\<open>string\<close> (a list of bytes). A \<open>[]byte\<close> is a \<^typ>\<open>string option\<close>:
  \<^const>\<open>None\<close> is the \<open>nil\<close> slice, which is not the empty slice \<open>Some []\<close>. Both have length
  zero, and \<open>append([]byte(nil), b...)\<close> of a slice of length zero is \<open>nil\<close>.
\<close>

type_synonym bytes = "string option"

definition str_of :: "bytes \<Rightarrow> string" where
  "str_of b = (case b of None \<Rightarrow> [] | Some s \<Rightarrow> s)"

definition clone_bytes :: "bytes \<Rightarrow> bytes" where
  "clone_bytes b = (if str_of b = [] then None else Some (str_of b))"

lemma str_of_simps [simp]: "str_of None = []" "str_of (Some s) = s"
  by (simp_all add: str_of_def)

lemma str_of_clone [simp]: "str_of (clone_bytes b) = str_of b"
  by (simp add: clone_bytes_def)

lemma clone_clone [simp]: "clone_bytes (clone_bytes b) = clone_bytes b"
  by (simp add: clone_bytes_def)

lemma clone_Some [simp]: "s \<noteq> [] \<Longrightarrow> clone_bytes (Some s) = Some s"
  by (simp add: clone_bytes_def)

lemma clone_empty [simp]: "clone_bytes (Some []) = None" "clone_bytes None = None"
  by (simp_all add: clone_bytes_def)

subsection \<open>Decimal integers: \<open>strconv.FormatInt\<close>, \<open>strconv.ParseInt\<close>, \<open>strconv.Atoi\<close>\<close>

definition digit_char :: "nat \<Rightarrow> char" where
  "digit_char d = char_of (48 + d)"

fun format_nat :: "nat \<Rightarrow> string" where
  "format_nat n = (if n < 10 then [digit_char n] else format_nat (n div 10) @ [digit_char (n mod 10)])"

declare format_nat.simps [simp del]

definition format_int :: "int \<Rightarrow> string" where
  "format_int n = (if n < 0 then CHR ''-'' # format_nat (nat (- n)) else format_nat (nat n))"

lemma format_int_nonempty: "format_int n \<noteq> []"
proof -
  have "format_nat i \<noteq> []" for i by (subst format_nat.simps) auto
  then show ?thesis by (auto simp: format_int_def)
qed

definition digit_val :: "char \<Rightarrow> nat option" where
  "digit_val c = (let n = of_char c in if 48 \<le> n \<and> n \<le> 57 then Some (n - 48) else None)"

fun parse_digits :: "nat \<Rightarrow> string \<Rightarrow> nat option" where
  "parse_digits acc [] = Some acc"
| "parse_digits acc (c # cs) =
     (case digit_val c of None \<Rightarrow> None | Some d \<Rightarrow> parse_digits (acc * 10 + d) cs)"

text \<open>\<open>ParseUint(s, 10, 64)\<close> before its range check: the empty string is a syntax error.\<close>

definition parse_uint :: "string \<Rightarrow> nat option" where
  "parse_uint s = (if s = [] then None else parse_digits 0 s)"

text \<open>\<open>ParseInt(s, 10, 64)\<close>, and \<open>Atoi\<close> on a 64-bit platform: one optional sign, decimal
  digits, and a range error outside \<open>int64\<close>. \<^const>\<open>None\<close> is any error.\<close>

definition parse_int :: "string \<Rightarrow> int option" where
  "parse_int s =
     (case s of
        [] \<Rightarrow> None
      | c # cs \<Rightarrow>
          (let neg = (c = CHR ''-'');
               rest = (if c = CHR ''-'' \<or> c = CHR ''+'' then cs else s)
           in case parse_uint rest of
                None \<Rightarrow> None
              | Some u \<Rightarrow>
                  if neg then (if u \<le> 2 ^ 63 then Some (- int u) else None)
                  else (if u < 2 ^ 63 then Some (int u) else None)))"

lemma digit_val_digit_char [simp]: "d < 10 \<Longrightarrow> digit_val (digit_char d) = Some d"
  by (simp add: digit_val_def digit_char_def Let_def)

lemma digit_char_neq: "d < 10 \<Longrightarrow> digit_char d \<noteq> CHR ''-''" "d < 10 \<Longrightarrow> digit_char d \<noteq> CHR ''+''"
proof -
  have "digit_val (CHR ''-'') = None" and "digit_val (CHR ''+'') = None"
    by (simp_all add: digit_val_def)
  then show "d < 10 \<Longrightarrow> digit_char d \<noteq> CHR ''-''" "d < 10 \<Longrightarrow> digit_char d \<noteq> CHR ''+''"
    using digit_val_digit_char [of d] by (metis option.distinct(1))+
qed

lemma parse_digits_append:
  "parse_digits acc (xs @ ys) =
     (case parse_digits acc xs of None \<Rightarrow> None | Some a \<Rightarrow> parse_digits a ys)"
  by (induction acc xs rule: parse_digits.induct) (auto split: option.split)

lemma format_nat_nonempty [simp]: "format_nat n \<noteq> []"
  by (subst format_nat.simps) simp

lemma parse_format_nat [simp]: "parse_digits 0 (format_nat n) = Some n"
proof (induction n rule: format_nat.induct)
  case (1 n)
  then show ?case
    by (cases "n < 10") (simp_all add: format_nat.simps [of n] parse_digits_append)
qed

lemma hd_format_nat: "\<exists>d < 10. hd (format_nat n) = digit_char d"
proof (induction n rule: format_nat.induct)
  case (1 n)
  then show ?case
    by (cases "n < 10") (auto simp: format_nat.simps [of n])
qed

lemma set_format_nat: "c \<in> set (format_nat n) \<Longrightarrow> \<exists>d < 10. c = digit_char d"
proof (induction n rule: format_nat.induct)
  case (1 n)
  have "\<exists>d < 10. digit_char (n mod 10) = digit_char d"
    by (rule exI [of _ "n mod 10"]) simp
  with "1" show ?case
    by (cases "n < 10") (auto simp: format_nat.simps [of n])
qed

lemma format_nat_sign: "format_nat n = c # cs \<Longrightarrow> c \<noteq> CHR ''-'' \<and> c \<noteq> CHR ''+''"
  using hd_format_nat [of n] digit_char_neq by auto

lemma parse_format_int [simp]: "int64 n \<Longrightarrow> parse_int (format_int n) = Some n"
proof (cases "n < 0")
  case True
  assume "int64 n"
  with True show ?thesis
    by (simp add: format_int_def parse_int_def parse_uint_def int64_def Let_def)
next
  case False
  assume "int64 n"
  obtain c cs where c: "format_nat (nat n) = c # cs"
    by (cases "format_nat (nat n)") auto
  with format_nat_sign have sign: "c \<noteq> CHR ''-''" "c \<noteq> CHR ''+''"
    by blast+
  have "parse_digits 0 (c # cs) = Some (nat n)"
    using c by (metis parse_format_nat)
  with False c sign \<open>int64 n\<close> show ?thesis
    by (simp add: format_int_def parse_int_def parse_uint_def int64_def Let_def nat_less_iff)
qed

lemma parse_int_int64: "parse_int s = Some n \<Longrightarrow> int64 n"
  by (auto simp: parse_int_def int64_def Let_def of_nat_less_iff of_nat_le_iff
      split: list.splits option.splits if_splits)

subsection \<open>Letter case: \<open>strings.ToLower\<close>, \<open>strings.ToUpper\<close>\<close>

text \<open>On a string of ASCII bytes both map letters byte by byte. On any other string they apply the
  Unicode case tables of package \<open>unicode\<close>, which are a parameter \<open>uni\<close> here.\<close>

definition is_ascii :: "string \<Rightarrow> bool" where
  "is_ascii s = list_all (\<lambda>c. (of_char c :: nat) < 128) s"

definition ascii_lower :: "char \<Rightarrow> char" where
  "ascii_lower c = (let n = of_char c :: nat in if 65 \<le> n \<and> n \<le> 90 then char_of (n + 32) else c)"

definition ascii_upper :: "char \<Rightarrow> char" where
  "ascii_upper c = (let n = of_char c :: nat in if 97 \<le> n \<and> n \<le> 122 then char_of (n - 32) else c)"

definition to_lower :: "(string \<Rightarrow> string) \<Rightarrow> string \<Rightarrow> string" where
  "to_lower uni s = (if is_ascii s then map ascii_lower s else uni s)"

definition to_upper :: "(string \<Rightarrow> string) \<Rightarrow> string \<Rightarrow> string" where
  "to_upper uni s = (if is_ascii s then map ascii_upper s else uni s)"

text \<open>The ASCII characters that \<open>strings.Fields\<close> and \<open>strings.TrimSpace\<close> take for spaces.\<close>

definition is_space :: "char \<Rightarrow> bool" where
  "is_space c \<longleftrightarrow> c \<in> {CHR 0x09, CHR 0x0A, CHR 0x0B, CHR 0x0C, CHR 0x0D, CHR 0x20}"

subsection \<open>Association lists as Go maps\<close>

abbreviation mkeys :: "('k \<times> 'v) list \<Rightarrow> 'k set" where
  "mkeys m \<equiv> fst ` set m"

abbreviation wf_map :: "('k \<times> 'v) list \<Rightarrow> bool" where
  "wf_map m \<equiv> distinct (map fst m)"

declare map_of_eq_Some_iff [simp del] Some_eq_map_of_iff [simp del]

lemma map_of_update [simp]: "map_of (AList.update k v m) = (map_of m)(k \<mapsto> v)"
  by (rule update_conv')

lemma map_of_delete [simp]: "map_of (AList.delete k m) = (map_of m)(k := None)"
  by (rule delete_conv')

lemma wf_map_update [simp]: "wf_map m \<Longrightarrow> wf_map (AList.update k v m)"
  by (rule distinct_update)

lemma wf_map_delete [simp]: "wf_map m \<Longrightarrow> wf_map (AList.delete k m)"
  by (simp add: delete_keys distinct_removeAll)

lemma mkeys_update [simp]: "mkeys (AList.update k v m) = insert k (mkeys m)"
  by (simp add: dom_update)

lemma mkeys_delete [simp]: "mkeys (AList.delete k m) = mkeys m - {k}"
  by (auto simp: AList.delete_eq)

lemma mkeys_iff: "k \<in> mkeys m \<longleftrightarrow> (\<exists>v. map_of m k = Some v)"
  by (metis domD domI dom_map_of_conv_image_fst)

lemma map_of_None_iff: "map_of m k = None \<longleftrightarrow> k \<notin> mkeys m"
  by (simp add: map_of_eq_None_iff)

lemma mkeys_Some: "map_of m k = Some v \<Longrightarrow> k \<in> mkeys m"
  by (auto simp: mkeys_iff)

lemma card_mkeys: "wf_map m \<Longrightarrow> card (mkeys m) = length m"
  by (metis distinct_card length_map list.set_map)

lemma wf_map_in_set: "wf_map m \<Longrightarrow> (k, v) \<in> set m \<longleftrightarrow> map_of m k = Some v"
  by (simp add: map_of_eq_Some_iff)

lemma length_update_in [simp]: "k \<in> mkeys m \<Longrightarrow> length (AList.update k v m) = length m"
  by (induction m) auto

lemma length_update_notin [simp]: "k \<notin> mkeys m \<Longrightarrow> length (AList.update k v m) = Suc (length m)"
  by (induction m) auto

lemma length_delete_notin [simp]: "k \<notin> mkeys m \<Longrightarrow> length (AList.delete k m) = length m"
  by (simp add: delete_id)

lemma length_delete_in: "wf_map m \<Longrightarrow> k \<in> mkeys m \<Longrightarrow> Suc (length (AList.delete k m)) = length m"
  by (metis List.finite_set card.remove card_mkeys finite_imageI mkeys_delete wf_map_delete)

text \<open>A total over the entries of a map: what assignment and deletion do to it.\<close>

definition msum :: "('k \<Rightarrow> 'v \<Rightarrow> int) \<Rightarrow> ('k \<times> 'v) list \<Rightarrow> int" where
  "msum f m = sum_list (map (\<lambda>(k, v). f k v) m)"

lemma msum_simps [simp]: "msum f [] = 0" "msum f ((k, v) # m) = f k v + msum f m"
  by (simp_all add: msum_def)

lemma msum_update_notin [simp]: "k \<notin> mkeys m \<Longrightarrow> msum f (AList.update k v m) = msum f m + f k v"
  by (induction m) auto

lemma msum_update_in: "map_of m k = Some w \<Longrightarrow> msum f (AList.update k v m) = msum f m - f k w + f k v"
  by (induction m) (auto split: if_splits)

lemma msum_delete_in: "wf_map m \<Longrightarrow> map_of m k = Some w \<Longrightarrow> msum f (AList.delete k m) = msum f m - f k w"
proof (induction m)
  case (Cons p m)
  then show ?case
    by (cases p) (auto simp: delete_id split: if_splits)
qed simp

lemma msum_nonneg: "(\<And>k v. 0 \<le> f k v) \<Longrightarrow> 0 \<le> msum f m"
  by (induction m) auto

lemma msum_ge: "(\<And>k v. 0 \<le> f k v) \<Longrightarrow> map_of m k = Some v \<Longrightarrow> f k v \<le> msum f m"
proof (induction m)
  case (Cons p m)
  obtain a b where p: "p = (a, b)" by (cases p)
  have pos: "0 \<le> f a b" "0 \<le> msum f m"
    using Cons.prems(1) by (simp_all add: msum_nonneg)
  show ?case
  proof (cases "k = a")
    case True
    with Cons.prems p pos show ?thesis by simp
  next
    case False
    with Cons p have "f k v \<le> msum f m" by simp
    with pos p show ?thesis by simp
  qed
qed simp

end
