(* ===== verification/Policy_Spec.thy ===== *)
theory Policy_Spec
  imports Prelude
begin

section \<open>The contract of an eviction policy\<close>

text \<open>
  The interface \<open>eviction.Policy\<close> (internal/eviction/policy.go) as two locales. The shard adds
  a key when it stores it, removes it when it drops it, and asks for a victim when it is over
  capacity. What it relies on is \<open>policy_contract\<close>: the policy accounts for a set of
  keys, and a victim is one of them. It holds of all six policies, the one that never evicts
  included. A \<open>tracking_policy\<close> also knows its keys, so that it refuses a victim only when it
  holds none; it holds of the five policies that evict.
\<close>

text \<open>Asking for victims up to \<open>n\<close> times, until the policy refuses.\<close>

fun drain :: "('p \<Rightarrow> 'p \<times> 'k option) \<Rightarrow> nat \<Rightarrow> 'p \<Rightarrow> 'k list" where
  "drain ev 0 p = []"
| "drain ev (Suc n) p =
     (case ev p of (p', None) \<Rightarrow> [] | (p', Some k) \<Rightarrow> k # drain ev n p')"

locale policy_contract =
  fixes add :: "string \<Rightarrow> 'p \<Rightarrow> 'p"
    and access :: "string \<Rightarrow> 'p \<Rightarrow> 'p"
    and rem :: "string \<Rightarrow> 'p \<Rightarrow> 'p"
    and evict :: "'p \<Rightarrow> 'p \<times> string option"
    and tracks :: "'p \<Rightarrow> string set \<Rightarrow> bool"
  assumes tracks_finite: "tracks p S \<Longrightarrow> finite S"
    and tracks_add: "tracks p S \<Longrightarrow> k \<notin> S \<Longrightarrow> tracks (add k p) (insert k S)"
    and tracks_access: "tracks p S \<Longrightarrow> tracks (access k p) S"
    and tracks_rem: "tracks p S \<Longrightarrow> k \<in> S \<Longrightarrow> tracks (rem k p) (S - {k})"
    and evict_Some: "tracks p S \<Longrightarrow> evict p = (p', Some k) \<Longrightarrow> k \<in> S \<and> tracks p' (S - {k})"
    and evict_None: "tracks p S \<Longrightarrow> evict p = (p', None) \<Longrightarrow> tracks p' S"
begin

text \<open>What \<open>flush\<close> relies on: removing every key, in any order, leaves nothing tracked.\<close>

lemma tracks_rem_all:
  "tracks p S \<Longrightarrow> distinct ks \<Longrightarrow> set ks \<subseteq> S \<Longrightarrow> tracks (fold rem ks p) (S - set ks)"
proof (induction ks arbitrary: p S)
  case (Cons k ks)
  then have "tracks (rem k p) (S - {k})" by (simp add: tracks_rem)
  then have "tracks (fold rem ks (rem k p)) (S - {k} - set ks)"
    using Cons.prems by (intro Cons.IH) auto
  moreover have "S - {k} - set ks = S - set (k # ks)" by auto
  ultimately show ?case by simp
qed simp

text \<open>What the protected key of \<open>enforceLimitsLocked\<close> relies on: a victim can be put back.\<close>

lemma tracks_put_back:
  "tracks p S \<Longrightarrow> evict p = (p', Some k) \<Longrightarrow> tracks (add k p') S"
  using evict_Some [of p S p' k] tracks_add [of p' "S - {k}" k] by (auto simp: insert_absorb)

lemma drain_sound:
  "tracks p S \<Longrightarrow> distinct (drain evict n p) \<and> set (drain evict n p) \<subseteq> S"
proof (induction n arbitrary: p S)
  case (Suc n)
  show ?case
  proof (cases "evict p")
    case (Pair p' v)
    show ?thesis
    proof (cases v)
      case (Some k)
      with Pair Suc.prems have "k \<in> S" "tracks p' (S - {k})"
        using evict_Some by blast+
      with Suc.IH [of p' "S - {k}"] Pair Some show ?thesis by auto
    qed (simp add: Pair)
  qed
qed simp

end

locale tracking_policy =
  fixes add :: "string \<Rightarrow> 'p \<Rightarrow> 'p"
    and access :: "string \<Rightarrow> 'p \<Rightarrow> 'p"
    and rem :: "string \<Rightarrow> 'p \<Rightarrow> 'p"
    and evict :: "'p \<Rightarrow> 'p \<times> string option"
    and keys :: "'p \<Rightarrow> string set"
    and inv :: "'p \<Rightarrow> bool"
    and size_of :: "'p \<Rightarrow> nat"
  assumes keys_finite: "inv p \<Longrightarrow> finite (keys p)"
    and keys_add: "inv p \<Longrightarrow> inv (add k p) \<and> keys (add k p) = insert k (keys p)"
    and keys_access: "inv p \<Longrightarrow> inv (access k p) \<and> keys (access k p) = keys p"
    and keys_rem: "inv p \<Longrightarrow> inv (rem k p) \<and> keys (rem k p) = keys p - {k}"
    and keys_evict: "inv p \<Longrightarrow> evict p = (p', Some k) \<Longrightarrow> inv p' \<and> k \<in> keys p \<and> keys p' = keys p - {k}"
    and keys_evict_None: "inv p \<Longrightarrow> evict p = (p', None) \<Longrightarrow> inv p' \<and> keys p = {} \<and> keys p' = {}"
    and size_keys: "inv p \<Longrightarrow> size_of p = card (keys p)"

sublocale tracking_policy \<subseteq> policy_contract add access rem evict "\<lambda>p S. inv p \<and> keys p = S"
proof unfold_locales
  fix p S p' k
  assume p: "inv p \<and> keys p = S"
  show "finite S" using p keys_finite by auto
  show "inv (add k p) \<and> keys (add k p) = insert k S" using p keys_add by simp
  show "inv (access k p) \<and> keys (access k p) = S" using p keys_access by simp
  show "inv (rem k p) \<and> keys (rem k p) = S - {k}" using p keys_rem by simp
  show "k \<in> S \<and> inv p' \<and> keys p' = S - {k}" if "evict p = (p', Some k)"
    using p keys_evict [OF _ that] by simp
  show "inv p' \<and> keys p' = S" if "evict p = (p', None)"
    using p keys_evict_None [OF _ that] by simp
qed

context tracking_policy
begin

text \<open>A victim exists exactly when a key is tracked.\<close>

lemma evict_nonempty: "inv p \<Longrightarrow> snd (evict p) = None \<longleftrightarrow> keys p = {}"
proof (cases "evict p")
  case (Pair p' v)
  assume "inv p"
  with Pair show ?thesis
    using keys_evict [of p p' "the v"] keys_evict_None [of p p'] by (cases v) auto
qed

text \<open>Evicting as often as the policy has keys yields each of them once.\<close>

lemma drain_complete:
  "inv p \<Longrightarrow> size_of p \<le> n \<Longrightarrow> set (drain evict n p) = keys p \<and> distinct (drain evict n p)"
proof (induction n arbitrary: p)
  case 0
  then show ?case using size_keys keys_finite by simp
next
  case (Suc n)
  show ?case
  proof (cases "evict p")
    case (Pair p' v)
    show ?thesis
    proof (cases v)
      case None
      with Pair Suc.prems keys_evict_None show ?thesis by simp
    next
      case (Some k)
      with Pair Suc.prems(1) have p': "inv p'" "k \<in> keys p" "keys p' = keys p - {k}"
        using keys_evict by blast+
      then have "size_of p' \<le> n"
        using Suc.prems size_keys keys_finite [OF Suc.prems(1)] by simp
      with p' Suc.IH Pair Some show ?thesis by auto
    qed
  qed
qed

end

end
