(* ===== verification/GoList.thy ===== *)
theory GoList
  imports Prelude
begin

section \<open>Go's \<open>container/list\<close> and lists indexed by a map\<close>

text \<open>
  A \<open>list.List\<close> is a sequence of elements. An element is an allocated cell: the eviction
  policies keep pointers to elements in a map and hand them back to \<open>Remove\<close> and
  \<open>MoveToFront\<close>. The pointer is a number drawn from the list's counter \<open>next_el\<close>, so that
  two elements with the same value are still two elements.

  The second part is the pattern shared by the LRU and FIFO policies: a list of keys together
  with a map from each key to its element.
\<close>

record 'a golist =
  elems :: "(nat \<times> 'a) list"
  next_el :: nat

definition gl_New :: "'a golist" where
  "gl_New = \<lparr>elems = [], next_el = 0\<rparr>"

definition gl_PushFront :: "'a \<Rightarrow> 'a golist \<Rightarrow> 'a golist \<times> nat" where
  "gl_PushFront x l = (l\<lparr>elems := (next_el l, x) # elems l, next_el := Suc (next_el l)\<rparr>, next_el l)"

definition gl_PushBack :: "'a \<Rightarrow> 'a golist \<Rightarrow> 'a golist \<times> nat" where
  "gl_PushBack x l = (l\<lparr>elems := elems l @ [(next_el l, x)], next_el := Suc (next_el l)\<rparr>, next_el l)"

definition gl_Remove :: "nat \<Rightarrow> 'a golist \<Rightarrow> 'a golist" where
  "gl_Remove e l = l\<lparr>elems := filter (\<lambda>(e', _). e' \<noteq> e) (elems l)\<rparr>"

text \<open>\<open>Remove\<close> and \<open>MoveToFront\<close> do nothing for an element that is not in the list.\<close>

definition gl_MoveToFront :: "nat \<Rightarrow> 'a golist \<Rightarrow> 'a golist" where
  "gl_MoveToFront e l =
     (case map_of (elems l) e of
        None \<Rightarrow> l
      | Some x \<Rightarrow> l\<lparr>elems := (e, x) # filter (\<lambda>(e', _). e' \<noteq> e) (elems l)\<rparr>)"

definition gl_Front :: "'a golist \<Rightarrow> (nat \<times> 'a) option" where
  "gl_Front l = (case elems l of [] \<Rightarrow> None | x # _ \<Rightarrow> Some x)"

definition gl_Back :: "'a golist \<Rightarrow> (nat \<times> 'a) option" where
  "gl_Back l = (if elems l = [] then None else Some (last (elems l)))"

definition gl_Len :: "'a golist \<Rightarrow> nat" where
  "gl_Len l = length (elems l)"

lemmas gl_defs = gl_New_def gl_PushFront_def gl_PushBack_def gl_Remove_def gl_MoveToFront_def
  gl_Front_def gl_Back_def gl_Len_def

text \<open>The values of a list in order, and the invariant that its cells are distinct and
  allocated.\<close>

definition gl_vals :: "'a golist \<Rightarrow> 'a list" where
  "gl_vals l = map snd (elems l)"

definition gl_inv :: "'a golist \<Rightarrow> bool" where
  "gl_inv l \<longleftrightarrow> wf_map (elems l) \<and> (\<forall>(e, _) \<in> set (elems l). e < next_el l)"

lemma gl_inv_New [simp]: "gl_inv gl_New"
  by (simp add: gl_inv_def gl_defs)

lemma gl_inv_PushFront [simp]: "gl_inv l \<Longrightarrow> gl_inv (fst (gl_PushFront x l))"
  by (force simp: gl_inv_def gl_defs)

lemma gl_inv_PushBack [simp]: "gl_inv l \<Longrightarrow> gl_inv (fst (gl_PushBack x l))"
  by (force simp: gl_inv_def gl_defs)

lemma gl_inv_Remove [simp]: "gl_inv l \<Longrightarrow> gl_inv (gl_Remove e l)"
  by (auto simp: gl_inv_def gl_defs intro: distinct_map_filter)

lemma gl_inv_MoveToFront [simp]: "gl_inv l \<Longrightarrow> gl_inv (gl_MoveToFront e l)"
  by (auto simp: gl_inv_def gl_defs intro: distinct_map_filter dest!: map_of_SomeD split: option.split)

lemma gl_elems_Remove: "set (elems (gl_Remove e l)) = {(e', x) \<in> set (elems l). e' \<noteq> e}"
  by (auto simp: gl_defs)

lemma gl_inv_unique: "gl_inv l \<Longrightarrow> (e, x) \<in> set (elems l) \<Longrightarrow> (e, y) \<in> set (elems l) \<Longrightarrow> x = y"
  by (auto simp: gl_inv_def dest: eq_key_imp_eq_value)

subsection \<open>A list of keys indexed by a map\<close>

text \<open>
  \<open>linked l m\<close>: the map \<open>m\<close> sends each key to its one element of the list \<open>l\<close>, and the list
  holds no other element. This is the relation that the fields \<open>ll\<close> and \<open>nodes\<close> of the LRU and
  FIFO policies keep.
\<close>

definition linked :: "'k golist \<Rightarrow> ('k \<times> nat) list \<Rightarrow> bool" where
  "linked l m \<longleftrightarrow> gl_inv l \<and> wf_map m \<and>
     (\<forall>k e. map_of m k = Some e \<longleftrightarrow> (e, k) \<in> set (elems l))"

lemma linked_empty [simp]: "linked gl_New []"
  by (simp add: linked_def gl_defs gl_inv_def)

lemma linked_keys: "linked l m \<Longrightarrow> mkeys m = set (gl_vals l)"
proof -
  assume l: "linked l m"
  have a: "k \<in> mkeys m \<longleftrightarrow> (\<exists>e. (e, k) \<in> set (elems l))" for k
    using l unfolding linked_def mkeys_iff by blast
  have b: "k \<in> set (gl_vals l) \<longleftrightarrow> (\<exists>e. (e, k) \<in> set (elems l))" for k
    by (force simp: gl_vals_def)
  show ?thesis by (rule set_eqI) (simp only: a b)
qed

lemma linked_distinct_vals: "linked l m \<Longrightarrow> distinct (gl_vals l)"
proof -
  assume l: "linked l m"
  then have "inj_on snd (set (elems l))"
    unfolding inj_on_def linked_def by (metis option.inject prod.collapse)
  moreover have "distinct (elems l)"
    using l by (auto simp: linked_def gl_inv_def distinct_map)
  ultimately show ?thesis
    by (simp add: gl_vals_def distinct_map)
qed

lemma linked_fresh: "linked l m \<Longrightarrow> (next_el l, k) \<notin> set (elems l)"
  by (auto simp: linked_def gl_inv_def)

lemma linked_PushFront:
  assumes "linked l m" and "map_of m k = None"
  shows "linked (fst (gl_PushFront k l)) (AList.update k (snd (gl_PushFront k l)) m)"
proof -
  have "\<forall>e. (e, k) \<notin> set (elems l)"
    using assms unfolding linked_def by (metis option.distinct(1))
  then show ?thesis
    using assms linked_fresh [OF assms(1)] gl_inv_PushFront [of l k]
    by (auto simp: linked_def gl_defs)
qed

lemma linked_PushBack:
  assumes "linked l m" and "map_of m k = None"
  shows "linked (fst (gl_PushBack k l)) (AList.update k (snd (gl_PushBack k l)) m)"
proof -
  have "\<forall>e. (e, k) \<notin> set (elems l)"
    using assms unfolding linked_def by (metis option.distinct(1))
  then show ?thesis
    using assms linked_fresh [OF assms(1)] gl_inv_PushBack [of l k]
    by (auto simp: linked_def gl_defs)
qed

lemma linked_Remove:
  assumes "linked l m" and "map_of m k = Some e"
  shows "linked (gl_Remove e l) (AList.delete k m)"
    and "gl_vals (gl_Remove e l) = removeAll k (gl_vals l)"
proof -
  have ek: "\<And>e' k'. (e', k') \<in> set (elems l) \<Longrightarrow> e' = e \<longleftrightarrow> k' = k"
  proof -
    fix e' k' assume e': "(e', k') \<in> set (elems l)"
    then have "map_of m k' = Some e'" "(e, k) \<in> set (elems l)" "gl_inv l"
      using assms by (simp_all add: linked_def)
    with e' assms(2) show "e' = e \<longleftrightarrow> k' = k"
      by (auto dest: gl_inv_unique)
  qed
  show "linked (gl_Remove e l) (AList.delete k m)"
    using assms(1) gl_inv_Remove [of l e] ek by (auto simp: linked_def gl_elems_Remove)
  have "filter (\<lambda>(e', _). e' \<noteq> e) (elems l) = filter (\<lambda>p. k \<noteq> snd p) (elems l)"
  proof (rule filter_cong [OF refl])
    fix p assume "p \<in> set (elems l)"
    then show "(case p of (e', _) \<Rightarrow> e' \<noteq> e) = (k \<noteq> snd p)"
      using ek [of "fst p" "snd p"] by (auto simp: case_prod_beta)
  qed
  then show "gl_vals (gl_Remove e l) = removeAll k (gl_vals l)"
    by (simp add: gl_vals_def gl_Remove_def removeAll_filter_not_eq filter_map comp_def)
qed

lemma linked_MoveToFront:
  assumes "linked l m" and "map_of m k = Some e"
  shows "linked (gl_MoveToFront e l) m"
    and "gl_vals (gl_MoveToFront e l) = k # removeAll k (gl_vals l)"
proof -
  have mem: "(e, k) \<in> set (elems l)" and inv: "gl_inv l"
    using assms by (auto simp: linked_def)
  then have look: "map_of (elems l) e = Some k"
    by (simp add: gl_inv_def)
  then have set: "set (elems (gl_MoveToFront e l)) = set (elems l)"
    using mem inv by (auto simp: gl_MoveToFront_def dest: gl_inv_unique)
  show "linked (gl_MoveToFront e l) m"
    using assms(1) inv set by (simp add: linked_def)
  show "gl_vals (gl_MoveToFront e l) = k # removeAll k (gl_vals l)"
    using linked_Remove(2) [OF assms] look by (simp add: gl_vals_def gl_MoveToFront_def gl_Remove_def)
qed

lemma linked_back:
  assumes "linked l m" and "gl_Back l = Some (e, k)"
  shows "map_of m k = Some e" and "gl_vals l = removeAll k (gl_vals l) @ [k]"
proof -
  have "(e, k) \<in> set (elems l)"
    using assms(2) by (auto simp: gl_Back_def split: if_splits) (metis last_in_set)
  then show "map_of m k = Some e"
    using assms(1) by (simp add: linked_def)
  have ne: "gl_vals l \<noteq> []" and last: "last (gl_vals l) = k"
    using assms(2) by (auto simp: gl_Back_def gl_vals_def last_map split: if_splits)
  then obtain xs where xs: "gl_vals l = xs @ [k]"
    by (metis append_butlast_last_id)
  moreover have "k \<notin> set xs"
    using linked_distinct_vals [OF assms(1)] xs by simp
  ultimately show "gl_vals l = removeAll k (gl_vals l) @ [k]"
    by simp
qed

lemma linked_front:
  assumes "linked l m" and "gl_Front l = Some (e, k)"
  shows "map_of m k = Some e" and "gl_vals l = k # removeAll k (gl_vals l)"
proof -
  have "(e, k) \<in> set (elems l)"
    using assms(2) by (auto simp: gl_Front_def split: list.splits)
  then show "map_of m k = Some e"
    using assms(1) by (simp add: linked_def)
  obtain xs where xs: "gl_vals l = k # xs"
    using assms(2) by (auto simp: gl_Front_def gl_vals_def split: list.splits)
  moreover have "k \<notin> set xs"
    using linked_distinct_vals [OF assms(1)] xs by simp
  ultimately show "gl_vals l = k # removeAll k (gl_vals l)"
    by simp
qed

lemma gl_vals_PushFront [simp]: "gl_vals (fst (gl_PushFront k l)) = k # gl_vals l"
  by (simp add: gl_vals_def gl_PushFront_def)

lemma gl_vals_PushBack [simp]: "gl_vals (fst (gl_PushBack k l)) = gl_vals l @ [k]"
  by (simp add: gl_vals_def gl_PushBack_def)

lemma gl_ends_None: "gl_Back l = None \<longleftrightarrow> gl_vals l = []" "gl_Front l = None \<longleftrightarrow> gl_vals l = []"
  by (auto simp: gl_Back_def gl_Front_def gl_vals_def split: list.splits)

lemma gl_Len_vals: "gl_Len l = length (gl_vals l)"
  by (simp add: gl_Len_def gl_vals_def)

end
