(* ===== verification/Evict_Lists.thy ===== *)
theory Evict_Lists
  imports Policy_Spec GoList
begin

section \<open>The LRU, FIFO and no-eviction policies\<close>

text \<open>
  internal/eviction/lru.go, fifo.go and the \<open>noEviction\<close> type of policy.go. LRU and FIFO keep a
  list of keys and a map from a key to its list element; \<open>lru_order\<close> and \<open>fifo_order\<close> read the
  order of eviction off the list. The functional refinement lemmas say that each
  operation is the obvious one on that order.
\<close>

subsection \<open>LRU\<close>

record lru =
  lru_ll :: "string golist"
  lru_nodes :: "(string \<times> nat) list"

definition NewLRU :: lru where
  "NewLRU = \<lparr>lru_ll = gl_New, lru_nodes = []\<rparr>"

definition lru_Add :: "string \<Rightarrow> lru \<Rightarrow> lru" where
  "lru_Add key p =
     (case map_of (lru_nodes p) key of
        Some el \<Rightarrow> p\<lparr>lru_ll := gl_MoveToFront el (lru_ll p)\<rparr>
      | None \<Rightarrow>
          (let (ll, el) = gl_PushFront key (lru_ll p)
           in p\<lparr>lru_ll := ll, lru_nodes := AList.update key el (lru_nodes p)\<rparr>))"

definition lru_Access :: "string \<Rightarrow> lru \<Rightarrow> lru" where
  "lru_Access key p =
     (case map_of (lru_nodes p) key of
        Some el \<Rightarrow> p\<lparr>lru_ll := gl_MoveToFront el (lru_ll p)\<rparr>
      | None \<Rightarrow> p)"

definition lru_Remove :: "string \<Rightarrow> lru \<Rightarrow> lru" where
  "lru_Remove key p =
     (case map_of (lru_nodes p) key of
        Some el \<Rightarrow> p\<lparr>lru_ll := gl_Remove el (lru_ll p), lru_nodes := AList.delete key (lru_nodes p)\<rparr>
      | None \<Rightarrow> p)"

definition lru_Evict :: "lru \<Rightarrow> lru \<times> string option" where
  "lru_Evict p =
     (case gl_Back (lru_ll p) of
        None \<Rightarrow> (p, None)
      | Some (el, key) \<Rightarrow>
          (p\<lparr>lru_ll := gl_Remove el (lru_ll p), lru_nodes := AList.delete key (lru_nodes p)\<rparr>, Some key))"

definition lru_Len :: "lru \<Rightarrow> nat" where
  "lru_Len p = gl_Len (lru_ll p)"

subsection \<open>FIFO\<close>

record fifo =
  fifo_ll :: "string golist"
  fifo_nodes :: "(string \<times> nat) list"

definition NewFIFO :: fifo where
  "NewFIFO = \<lparr>fifo_ll = gl_New, fifo_nodes = []\<rparr>"

definition fifo_Add :: "string \<Rightarrow> fifo \<Rightarrow> fifo" where
  "fifo_Add key p =
     (case map_of (fifo_nodes p) key of
        Some _ \<Rightarrow> p
      | None \<Rightarrow>
          (let (ll, el) = gl_PushBack key (fifo_ll p)
           in p\<lparr>fifo_ll := ll, fifo_nodes := AList.update key el (fifo_nodes p)\<rparr>))"

definition fifo_Access :: "string \<Rightarrow> fifo \<Rightarrow> fifo" where
  "fifo_Access key p = p"

definition fifo_Remove :: "string \<Rightarrow> fifo \<Rightarrow> fifo" where
  "fifo_Remove key p =
     (case map_of (fifo_nodes p) key of
        Some el \<Rightarrow> p\<lparr>fifo_ll := gl_Remove el (fifo_ll p), fifo_nodes := AList.delete key (fifo_nodes p)\<rparr>
      | None \<Rightarrow> p)"

definition fifo_Evict :: "fifo \<Rightarrow> fifo \<times> string option" where
  "fifo_Evict p =
     (case gl_Front (fifo_ll p) of
        None \<Rightarrow> (p, None)
      | Some (el, key) \<Rightarrow>
          (p\<lparr>fifo_ll := gl_Remove el (fifo_ll p), fifo_nodes := AList.delete key (fifo_nodes p)\<rparr>, Some key))"

definition fifo_Len :: "fifo \<Rightarrow> nat" where
  "fifo_Len p = gl_Len (fifo_ll p)"

subsection \<open>No eviction\<close>

record noEviction =
  ne_n :: nat

definition NewNoEviction :: noEviction where
  "NewNoEviction = \<lparr>ne_n = 0\<rparr>"

definition ne_Add :: "string \<Rightarrow> noEviction \<Rightarrow> noEviction" where
  "ne_Add key p = p\<lparr>ne_n := Suc (ne_n p)\<rparr>"

definition ne_Access :: "string \<Rightarrow> noEviction \<Rightarrow> noEviction" where
  "ne_Access key p = p"

definition ne_Remove :: "string \<Rightarrow> noEviction \<Rightarrow> noEviction" where
  "ne_Remove key p = (if ne_n p > 0 then p\<lparr>ne_n := ne_n p - 1\<rparr> else p)"

definition ne_Evict :: "noEviction \<Rightarrow> noEviction \<times> string option" where
  "ne_Evict p = (p, None)"

definition ne_Len :: "noEviction \<Rightarrow> nat" where
  "ne_Len p = ne_n p"

subsection \<open>Invariants and orders\<close>

definition lru_inv :: "lru \<Rightarrow> bool" where
  "lru_inv p \<longleftrightarrow> linked (lru_ll p) (lru_nodes p)"

definition lru_order :: "lru \<Rightarrow> string list" where
  "lru_order p = gl_vals (lru_ll p)"

definition fifo_inv :: "fifo \<Rightarrow> bool" where
  "fifo_inv p \<longleftrightarrow> linked (fifo_ll p) (fifo_nodes p)"

definition fifo_order :: "fifo \<Rightarrow> string list" where
  "fifo_order p = gl_vals (fifo_ll p)"

definition ne_tracks :: "noEviction \<Rightarrow> string set \<Rightarrow> bool" where
  "ne_tracks p S \<longleftrightarrow> finite S \<and> ne_n p = card S"

lemmas ne_defs = ne_Add_def ne_Access_def ne_Remove_def ne_Evict_def ne_Len_def ne_tracks_def

subsection \<open>LRU is the recency list\<close>

lemma lru_inv_New: "lru_inv NewLRU" "lru_order NewLRU = []"
  by (simp_all add: lru_inv_def lru_order_def NewLRU_def) (simp add: gl_vals_def gl_New_def)

lemma lru_distinct: "lru_inv p \<Longrightarrow> distinct (lru_order p)"
  by (simp add: lru_inv_def lru_order_def linked_distinct_vals)

lemma lru_known: "lru_inv p \<Longrightarrow> map_of (lru_nodes p) k = None \<longleftrightarrow> k \<notin> set (lru_order p)"
  by (simp add: lru_inv_def lru_order_def map_of_None_iff linked_keys)

lemma lru_Add_order:
  assumes "lru_inv p"
  shows "lru_inv (lru_Add k p)" and "lru_order (lru_Add k p) = k # removeAll k (lru_order p)"
proof -
  have "lru_inv (lru_Add k p) \<and> lru_order (lru_Add k p) = k # removeAll k (lru_order p)"
  proof (cases "map_of (lru_nodes p) k")
    case None
    then have "k \<notin> set (lru_order p)" using assms lru_known by blast
    with None assms show ?thesis
      using linked_PushFront [of "lru_ll p" "lru_nodes p" k]
      by (simp add: lru_inv_def lru_order_def lru_Add_def case_prod_beta)
  next
    case (Some el)
    with assms show ?thesis
      using linked_MoveToFront [of "lru_ll p" "lru_nodes p" k el]
      by (simp add: lru_inv_def lru_order_def lru_Add_def)
  qed
  then show "lru_inv (lru_Add k p)" and "lru_order (lru_Add k p) = k # removeAll k (lru_order p)"
    by blast+
qed

lemma lru_Access_order:
  assumes "lru_inv p"
  shows "lru_inv (lru_Access k p)"
    and "lru_order (lru_Access k p) = (if k \<in> set (lru_order p) then k # removeAll k (lru_order p) else lru_order p)"
  using assms linked_MoveToFront [of "lru_ll p" "lru_nodes p" k] lru_known [OF assms, of k]
  by (auto simp: lru_inv_def lru_order_def lru_Access_def split: option.splits)

lemma lru_Remove_order:
  assumes "lru_inv p"
  shows "lru_inv (lru_Remove k p)" and "lru_order (lru_Remove k p) = removeAll k (lru_order p)"
  using assms linked_Remove [of "lru_ll p" "lru_nodes p" k] lru_known [OF assms, of k]
  by (auto simp: lru_inv_def lru_order_def lru_Remove_def split: option.splits)

lemma lru_Evict_None: "lru_Evict p = (p', None) \<longleftrightarrow> lru_order p = [] \<and> p' = p"
  by (auto simp: lru_Evict_def lru_order_def gl_ends_None(1) [symmetric] split: option.splits prod.splits)

lemma lru_Evict_Some:
  assumes "lru_inv p" and "lru_Evict p = (p', Some k)"
  shows "lru_inv p'" and "lru_order p = lru_order p' @ [k]" and "k \<notin> set (lru_order p')"
proof -
  obtain el where el: "gl_Back (lru_ll p) = Some (el, k)"
    and p': "p' = p\<lparr>lru_ll := gl_Remove el (lru_ll p), lru_nodes := AList.delete k (lru_nodes p)\<rparr>"
    using assms(2) by (auto simp: lru_Evict_def split: option.splits)
  have "map_of (lru_nodes p) k = Some el" and ord: "lru_order p = removeAll k (lru_order p) @ [k]"
    using linked_back [OF _ el] assms(1) by (auto simp: lru_inv_def lru_order_def)
  then have "lru_inv p'" and rest: "lru_order p' = removeAll k (lru_order p)"
    using linked_Remove assms(1) by (auto simp: lru_inv_def lru_order_def p')
  then show "lru_inv p'" and "k \<notin> set (lru_order p')" by auto
  show "lru_order p = lru_order p' @ [k]" using ord rest by simp
qed

interpretation lru: tracking_policy lru_Add lru_Access lru_Remove lru_Evict "\<lambda>p. set (lru_order p)"
  lru_inv lru_Len
proof unfold_locales
  fix p p' k
  assume p: "lru_inv p"
  show "lru_inv (lru_Add k p) \<and> set (lru_order (lru_Add k p)) = insert k (set (lru_order p))"
    using lru_Add_order [OF p] by auto
  show "lru_inv (lru_Access k p) \<and> set (lru_order (lru_Access k p)) = set (lru_order p)"
    using lru_Access_order [OF p] by auto
  show "lru_inv (lru_Remove k p) \<and> set (lru_order (lru_Remove k p)) = set (lru_order p) - {k}"
    using lru_Remove_order [OF p] by auto
  show "lru_Len p = card (set (lru_order p))"
    using lru_distinct [OF p] by (simp add: lru_Len_def gl_Len_vals lru_order_def distinct_card)
  show "lru_inv p' \<and> k \<in> set (lru_order p) \<and> set (lru_order p') = set (lru_order p) - {k}"
    if "lru_Evict p = (p', Some k)"
    using lru_Evict_Some [OF p that] by auto
  show "lru_inv p' \<and> set (lru_order p) = {} \<and> set (lru_order p') = {}"
    if "lru_Evict p = (p', None)"
    using that p by (auto simp: lru_Evict_None)
qed auto

subsection \<open>FIFO is the insertion list\<close>

lemma fifo_inv_New: "fifo_inv NewFIFO" "fifo_order NewFIFO = []"
  by (simp_all add: fifo_inv_def fifo_order_def NewFIFO_def) (simp add: gl_vals_def gl_New_def)

lemma fifo_distinct: "fifo_inv p \<Longrightarrow> distinct (fifo_order p)"
  by (simp add: fifo_inv_def fifo_order_def linked_distinct_vals)

lemma fifo_known: "fifo_inv p \<Longrightarrow> map_of (fifo_nodes p) k = None \<longleftrightarrow> k \<notin> set (fifo_order p)"
  by (simp add: fifo_inv_def fifo_order_def map_of_None_iff linked_keys)

lemma fifo_Add_order:
  assumes "fifo_inv p"
  shows "fifo_inv (fifo_Add k p)"
    and "fifo_order (fifo_Add k p) = (if k \<in> set (fifo_order p) then fifo_order p else fifo_order p @ [k])"
  using assms linked_PushBack [of "fifo_ll p" "fifo_nodes p" k] fifo_known [OF assms, of k]
  by (auto simp: fifo_inv_def fifo_order_def fifo_Add_def case_prod_beta split: option.splits)

lemma fifo_Remove_order:
  assumes "fifo_inv p"
  shows "fifo_inv (fifo_Remove k p)" and "fifo_order (fifo_Remove k p) = removeAll k (fifo_order p)"
  using assms linked_Remove [of "fifo_ll p" "fifo_nodes p" k] fifo_known [OF assms, of k]
  by (auto simp: fifo_inv_def fifo_order_def fifo_Remove_def split: option.splits)

lemma fifo_Evict_None: "fifo_Evict p = (p', None) \<longleftrightarrow> fifo_order p = [] \<and> p' = p"
  by (auto simp: fifo_Evict_def fifo_order_def gl_ends_None(2) [symmetric] split: option.splits prod.splits)

lemma fifo_Evict_Some:
  assumes "fifo_inv p" and "fifo_Evict p = (p', Some k)"
  shows "fifo_inv p'" and "fifo_order p = k # fifo_order p'" and "k \<notin> set (fifo_order p')"
proof -
  obtain el where el: "gl_Front (fifo_ll p) = Some (el, k)"
    and p': "p' = p\<lparr>fifo_ll := gl_Remove el (fifo_ll p), fifo_nodes := AList.delete k (fifo_nodes p)\<rparr>"
    using assms(2) by (auto simp: fifo_Evict_def split: option.splits)
  have "map_of (fifo_nodes p) k = Some el" and ord: "fifo_order p = k # removeAll k (fifo_order p)"
    using linked_front [OF _ el] assms(1) by (auto simp: fifo_inv_def fifo_order_def)
  then have "fifo_inv p'" and rest: "fifo_order p' = removeAll k (fifo_order p)"
    using linked_Remove assms(1) by (auto simp: fifo_inv_def fifo_order_def p')
  then show "fifo_inv p'" and "k \<notin> set (fifo_order p')" by auto
  show "fifo_order p = k # fifo_order p'" using ord rest by simp
qed

interpretation fifo: tracking_policy fifo_Add fifo_Access fifo_Remove fifo_Evict
  "\<lambda>p. set (fifo_order p)" fifo_inv fifo_Len
proof unfold_locales
  fix p p' k
  assume p: "fifo_inv p"
  show "fifo_inv (fifo_Add k p) \<and> set (fifo_order (fifo_Add k p)) = insert k (set (fifo_order p))"
    using fifo_Add_order [OF p] by auto
  show "fifo_inv (fifo_Access k p) \<and> set (fifo_order (fifo_Access k p)) = set (fifo_order p)"
    using p by (simp add: fifo_Access_def)
  show "fifo_inv (fifo_Remove k p) \<and> set (fifo_order (fifo_Remove k p)) = set (fifo_order p) - {k}"
    using fifo_Remove_order [OF p] by auto
  show "fifo_Len p = card (set (fifo_order p))"
    using fifo_distinct [OF p] by (simp add: fifo_Len_def gl_Len_vals fifo_order_def distinct_card)
  show "fifo_inv p' \<and> k \<in> set (fifo_order p) \<and> set (fifo_order p') = set (fifo_order p) - {k}"
    if "fifo_Evict p = (p', Some k)"
    using fifo_Evict_Some [OF p that] by auto
  show "fifo_inv p' \<and> set (fifo_order p) = {} \<and> set (fifo_order p') = {}"
    if "fifo_Evict p = (p', None)"
    using that p by (auto simp: fifo_Evict_None)
qed auto

subsection \<open>The policy that never evicts only counts\<close>

interpretation ne: policy_contract ne_Add ne_Access ne_Remove ne_Evict ne_tracks
  by unfold_locales (auto simp: ne_defs card_gt_0_iff)

end
