(* ===== verification/Evict_LFU.thy ===== *)
theory Evict_LFU
  imports Policy_Spec GoList
begin

section \<open>The LFU policy\<close>

text \<open>
  internal/eviction/lfu.go. A key's node records its frequency and its element in the bucket of
  that frequency. A bucket lists pointers to nodes; a node's key never changes and the map
  \<open>nodes\<close> has one node per key, so the pointer is modelled by the key. Reading through a nil
  bucket would panic in Go; the invariant \<open>lfu_inv\<close> excludes it, and those branches leave the
  policy as it is.
\<close>

record lfuNode =
  ln_key :: string
  ln_freq :: int
  ln_el :: nat

record lfu =
  lfu_nodes :: "(string \<times> lfuNode) list"
  freqBuckets :: "(int \<times> string golist) list"
  minFreq :: int

definition NewLFU :: lfu where
  "NewLFU = \<lparr>lfu_nodes = [], freqBuckets = [], minFreq = 0\<rparr>"

text \<open>\<open>p.bucket(freq).PushBack(n)\<close>: the bucket is created when the map has none.\<close>

definition lfu_bucket :: "int \<Rightarrow> lfu \<Rightarrow> string golist" where
  "lfu_bucket freq p = (case map_of (freqBuckets p) freq of None \<Rightarrow> gl_New | Some b \<Rightarrow> b)"

definition lfu_push :: "int \<Rightarrow> string \<Rightarrow> lfu \<Rightarrow> lfu \<times> nat" where
  "lfu_push freq key p =
     (let (b, el) = gl_PushBack key (lfu_bucket freq p)
      in (p\<lparr>freqBuckets := AList.update freq b (freqBuckets p)\<rparr>, el))"

text \<open>\<open>p.freqBuckets[freq].Remove(el)\<close>, then dropping the bucket when it is empty.\<close>

definition lfu_unlink :: "int \<Rightarrow> nat \<Rightarrow> lfu \<Rightarrow> lfu" where
  "lfu_unlink freq el p =
     (case map_of (freqBuckets p) freq of
        None \<Rightarrow> p
      | Some b \<Rightarrow>
          (let b' = gl_Remove el b
           in if gl_Len b' = 0 then p\<lparr>freqBuckets := AList.delete freq (freqBuckets p)\<rparr>
              else p\<lparr>freqBuckets := AList.update freq b' (freqBuckets p)\<rparr>))"

definition lfu_Access :: "string \<Rightarrow> lfu \<Rightarrow> lfu" where
  "lfu_Access key p =
     (case map_of (lfu_nodes p) key of
        None \<Rightarrow> p
      | Some n \<Rightarrow>
          (let old = ln_freq n;
               p1 = lfu_unlink old (ln_el n) p;
               p2 = (if map_of (freqBuckets p1) old = None \<and> minFreq p1 = old
                     then p1\<lparr>minFreq := old + 1\<rparr> else p1);
               (p3, el) = lfu_push (old + 1) key p2
           in p3\<lparr>lfu_nodes := AList.update key (n\<lparr>ln_freq := old + 1, ln_el := el\<rparr>) (lfu_nodes p3)\<rparr>))"

definition lfu_Add :: "string \<Rightarrow> lfu \<Rightarrow> lfu" where
  "lfu_Add key p =
     (case map_of (lfu_nodes p) key of
        Some _ \<Rightarrow> lfu_Access key p
      | None \<Rightarrow>
          (let (p1, el) = lfu_push 1 key p
           in p1\<lparr>lfu_nodes := AList.update key \<lparr>ln_key = key, ln_freq = 1, ln_el = el\<rparr> (lfu_nodes p1),
                 minFreq := 1\<rparr>))"

definition lfu_Remove :: "string \<Rightarrow> lfu \<Rightarrow> lfu" where
  "lfu_Remove key p =
     (case map_of (lfu_nodes p) key of
        None \<Rightarrow> p
      | Some n \<Rightarrow>
          (let p1 = lfu_unlink (ln_freq n) (ln_el n) p
           in p1\<lparr>lfu_nodes := AList.delete key (lfu_nodes p1)\<rparr>))"

definition recomputeMinFreq :: "lfu \<Rightarrow> lfu" where
  "recomputeMinFreq p =
     (let m = fold (\<lambda>(f, _) m. if m = -1 \<or> f < m then f else m) (freqBuckets p) (-1)
      in p\<lparr>minFreq := (if m = -1 then 0 else m)\<rparr>)"

definition lfu_Evict :: "lfu \<Rightarrow> lfu \<times> string option" where
  "lfu_Evict p =
     (if lfu_nodes p = [] then (p, None)
      else
        (let p1 = (if gl_Len (lfu_bucket (minFreq p) p) = 0 then recomputeMinFreq p else p)
         in case gl_Front (lfu_bucket (minFreq p1) p1) of
              None \<Rightarrow> (p1, None)
            | Some (el, key) \<Rightarrow>
                (let p2 = lfu_unlink (minFreq p1) el p1
                 in (p2\<lparr>lfu_nodes := AList.delete key (lfu_nodes p2)\<rparr>, Some key))))"

definition lfu_Len :: "lfu \<Rightarrow> nat" where
  "lfu_Len p = length (lfu_nodes p)"

subsection \<open>The invariant\<close>

definition in_bucket :: "lfu \<Rightarrow> int \<Rightarrow> nat \<Rightarrow> string \<Rightarrow> bool" where
  "in_bucket p f e k \<longleftrightarrow> (e, k) \<in> set (elems (lfu_bucket f p))"

definition buckets_inv :: "lfu \<Rightarrow> bool" where
  "buckets_inv p \<longleftrightarrow> wf_map (freqBuckets p) \<and>
     (\<forall>f b. map_of (freqBuckets p) f = Some b \<longrightarrow> gl_inv b \<and> elems b \<noteq> [])"

definition lfu_freq :: "lfu \<Rightarrow> string \<Rightarrow> int" where
  "lfu_freq p k = (case map_of (lfu_nodes p) k of None \<Rightarrow> 0 | Some n \<Rightarrow> ln_freq n)"

definition lfu_inv :: "lfu \<Rightarrow> bool" where
  "lfu_inv p \<longleftrightarrow> buckets_inv p \<and> wf_map (lfu_nodes p) \<and>
     (\<forall>f e k. in_bucket p f e k \<longleftrightarrow>
        (\<exists>n. map_of (lfu_nodes p) k = Some n \<and> ln_freq n = f \<and> ln_el n = e)) \<and>
     (\<forall>k n. map_of (lfu_nodes p) k = Some n \<longrightarrow> ln_key n = k \<and> 1 \<le> ln_freq n \<and> minFreq p \<le> ln_freq n)"

lemma lfu_inv_New: "lfu_inv NewLFU"
  by (simp add: lfu_inv_def buckets_inv_def in_bucket_def lfu_bucket_def NewLFU_def gl_New_def)

lemma gl_inv_bucket: "buckets_inv p \<Longrightarrow> gl_inv (lfu_bucket f p)"
  by (auto simp: buckets_inv_def lfu_bucket_def split: option.split)

subsection \<open>What pushing and unlinking do to the buckets\<close>

lemma lfu_push_frame [simp]:
  "lfu_nodes (fst (lfu_push f k p)) = lfu_nodes p" "minFreq (fst (lfu_push f k p)) = minFreq p"
  by (simp_all add: lfu_push_def case_prod_beta)

lemma lfu_unlink_frame [simp]:
  "lfu_nodes (lfu_unlink f e p) = lfu_nodes p" "minFreq (lfu_unlink f e p) = minFreq p"
  by (simp_all add: lfu_unlink_def Let_def split: option.split)

lemma buckets_inv_push: "buckets_inv p \<Longrightarrow> buckets_inv (fst (lfu_push f k p))"
  using gl_inv_bucket [of p f] gl_inv_PushBack [of "lfu_bucket f p" k]
  by (auto simp: buckets_inv_def lfu_push_def case_prod_beta gl_PushBack_def)

lemma in_bucket_push:
  "in_bucket (fst (lfu_push f k p)) f' e' k' \<longleftrightarrow>
     in_bucket p f' e' k' \<or> (f' = f \<and> e' = snd (lfu_push f k p) \<and> k' = k)"
  by (auto simp: in_bucket_def lfu_push_def lfu_bucket_def case_prod_beta gl_PushBack_def split: option.splits)

lemma lfu_push_fresh: "buckets_inv p \<Longrightarrow> \<not> in_bucket p f (snd (lfu_push f k p)) k'"
  using gl_inv_bucket [of p f] by (auto simp: in_bucket_def lfu_push_def gl_PushBack_def gl_inv_def case_prod_beta)

lemma lfu_bucket_unlink:
  "elems (lfu_bucket f' (lfu_unlink f e p)) =
     (if f' = f then filter (\<lambda>(e', _). e' \<noteq> e) (elems (lfu_bucket f p)) else elems (lfu_bucket f' p))"
  by (auto simp: lfu_unlink_def lfu_bucket_def gl_New_def gl_Len_def gl_Remove_def Let_def split: option.split)

lemma buckets_inv_unlink: "buckets_inv p \<Longrightarrow> buckets_inv (lfu_unlink f e p)"
  by (auto simp: buckets_inv_def lfu_unlink_def Let_def gl_Len_def split: option.split)

lemma in_bucket_unlink:
  "in_bucket (lfu_unlink f e p) f' e' k' \<longleftrightarrow> in_bucket p f' e' k' \<and> \<not> (f' = f \<and> e' = e)"
  by (auto simp: in_bucket_def lfu_bucket_unlink)

lemma in_bucket_frame [simp]:
  "in_bucket (p\<lparr>lfu_nodes := ns\<rparr>) = in_bucket p" "in_bucket (p\<lparr>minFreq := m\<rparr>) = in_bucket p"
  "buckets_inv (p\<lparr>lfu_nodes := ns\<rparr>) = buckets_inv p" "buckets_inv (p\<lparr>minFreq := m\<rparr>) = buckets_inv p"
  by (simp_all add: fun_eq_iff in_bucket_def lfu_bucket_def buckets_inv_def)

subsection \<open>Every operation keeps the invariant\<close>

lemma lfu_inv_nodeD:
  assumes "lfu_inv p" and "map_of (lfu_nodes p) k = Some n"
  shows "in_bucket p (ln_freq n) (ln_el n) k" and "1 \<le> ln_freq n" and "minFreq p \<le> ln_freq n"
    and "ln_key n = k"
  using assms by (auto simp: lfu_inv_def)

lemma lfu_inv_bucketD:
  assumes "lfu_inv p" and "in_bucket p f e k"
  obtains n where "map_of (lfu_nodes p) k = Some n" and "ln_freq n = f" and "ln_el n = e"
  using assms by (auto simp: lfu_inv_def)

lemma lfu_invI:
  assumes "buckets_inv p" and "wf_map (lfu_nodes p)"
    and "\<And>f e k. in_bucket p f e k \<longleftrightarrow>
        (\<exists>n. map_of (lfu_nodes p) k = Some n \<and> ln_freq n = f \<and> ln_el n = e)"
    and "\<And>k n. map_of (lfu_nodes p) k = Some n \<Longrightarrow> ln_key n = k \<and> 1 \<le> ln_freq n \<and> minFreq p \<le> ln_freq n"
  shows "lfu_inv p"
  using assms by (auto simp: lfu_inv_def)

text \<open>Unlinking a node's element and forgetting the node.\<close>

lemma lfu_drop_node:
  assumes p: "lfu_inv p" and n: "map_of (lfu_nodes p) k = Some n"
  shows "lfu_inv ((lfu_unlink (ln_freq n) (ln_el n) p)\<lparr>lfu_nodes := AList.delete k (lfu_nodes p)\<rparr>)"
proof (rule lfu_invI)
  let ?q = "(lfu_unlink (ln_freq n) (ln_el n) p)\<lparr>lfu_nodes := AList.delete k (lfu_nodes p)\<rparr>"
  have "gl_inv (lfu_bucket (ln_freq n) p)"
    using p by (simp add: lfu_inv_def gl_inv_bucket)
  then have only: "k' = k" if "in_bucket p (ln_freq n) (ln_el n) k'" for k'
    using that lfu_inv_nodeD(1) [OF p n] unfolding in_bucket_def by (blast dest: gl_inv_unique)
  show "in_bucket ?q f e k' \<longleftrightarrow>
      (\<exists>n'. map_of (lfu_nodes ?q) k' = Some n' \<and> ln_freq n' = f \<and> ln_el n' = e)" for f e k'
    using p n only by (auto simp: in_bucket_unlink lfu_inv_def)
  show "buckets_inv ?q" "wf_map (lfu_nodes ?q)"
    using p by (simp_all add: lfu_inv_def buckets_inv_unlink)
  show "ln_key n' = k' \<and> 1 \<le> ln_freq n' \<and> minFreq ?q \<le> ln_freq n'"
    if "map_of (lfu_nodes ?q) k' = Some n'" for k' n'
    using that p by (auto simp: lfu_inv_def split: if_splits)
qed

text \<open>Pushing an untracked key onto the bucket of a frequency that the recorded minimum does
  not exceed.\<close>

lemma lfu_new_node:
  assumes p: "lfu_inv p" and k: "map_of (lfu_nodes p) k = None"
    and f: "1 \<le> f" and m: "m \<le> f" "\<And>k' n'. map_of (lfu_nodes p) k' = Some n' \<Longrightarrow> m \<le> ln_freq n'"
  shows "lfu_inv ((fst (lfu_push f k p))\<lparr>lfu_nodes :=
           AList.update k \<lparr>ln_key = k, ln_freq = f, ln_el = snd (lfu_push f k p)\<rparr> (lfu_nodes p), minFreq := m\<rparr>)"
    (is "lfu_inv ?q")
proof (rule lfu_invI)
  have b: "buckets_inv p" using p by (simp add: lfu_inv_def)
  have no: "\<not> in_bucket p f' e k" for f' e
    using p k by (auto simp: lfu_inv_def)
  show "buckets_inv ?q" "wf_map (lfu_nodes ?q)"
    using p by (simp_all add: lfu_inv_def buckets_inv_push)
  show "in_bucket ?q f' e k' \<longleftrightarrow>
      (\<exists>n'. map_of (lfu_nodes ?q) k' = Some n' \<and> ln_freq n' = f' \<and> ln_el n' = e)" for f' e k'
    using p k no [of f' e] lfu_push_fresh [OF b, of f k k']
    by (auto simp: in_bucket_push lfu_inv_def)
  show "ln_key n' = k' \<and> 1 \<le> ln_freq n' \<and> minFreq ?q \<le> ln_freq n'"
    if "map_of (lfu_nodes ?q) k' = Some n'" for k' n'
    using that p f m by (auto simp: lfu_inv_def split: if_splits)
qed

lemma lfu_Remove_inv:
  assumes "lfu_inv p"
  shows "lfu_inv (lfu_Remove k p)" and "lfu_nodes (lfu_Remove k p) = AList.delete k (lfu_nodes p)"
  using assms lfu_drop_node [of p k]
  by (auto simp: lfu_Remove_def Let_def map_of_None_iff delete_id split: option.split)

text \<open>An access is a removal followed by a push onto the next bucket, and it never lets the
  recorded minimum pass a frequency that is in use.\<close>

lemma update_after_delete: "wf_map m \<Longrightarrow> map_of (AList.update k v (AList.delete k m)) = map_of (AList.update k v m)"
  by simp

lemma lfu_inv_cong:
  assumes "lfu_inv p" and "freqBuckets q = freqBuckets p" and "minFreq q = minFreq p"
    and "map_of (lfu_nodes q) = map_of (lfu_nodes p)" and "wf_map (lfu_nodes q)"
  shows "lfu_inv q"
  using assms by (simp add: lfu_inv_def buckets_inv_def in_bucket_def lfu_bucket_def)

lemma lfu_bucket_minFreq [simp]: "lfu_bucket f (p\<lparr>minFreq := m\<rparr>) = lfu_bucket f p"
  by (simp add: lfu_bucket_def)

lemma lfu_bucket_nodes [simp]: "lfu_bucket f (p\<lparr>lfu_nodes := m\<rparr>) = lfu_bucket f p"
  by (simp add: lfu_bucket_def)

lemma lfu_Access_inv:
  assumes p: "lfu_inv p" and n: "map_of (lfu_nodes p) k = Some n"
  shows "lfu_inv (lfu_Access k p)"
    and "\<exists>el. lfu_nodes (lfu_Access k p) =
          AList.update k (n\<lparr>ln_freq := ln_freq n + 1, ln_el := el\<rparr>) (lfu_nodes p)"
proof -
  define old where "old = ln_freq n"
  define p1 where "p1 = lfu_unlink old (ln_el n) p"
  define m where "m = (if map_of (freqBuckets p1) old = None \<and> minFreq p1 = old then old + 1 else minFreq p)"
  define q where "q = p1\<lparr>lfu_nodes := AList.delete k (lfu_nodes p)\<rparr>"
  define el where "el = snd (lfu_push (old + 1) k q)"
  have q: "lfu_inv q" using lfu_drop_node [OF p n] by (simp add: q_def p1_def old_def)
  have k: "map_of (lfu_nodes q) k = None" by (simp add: q_def)
  have min: "m \<le> ln_freq n'" if n': "map_of (lfu_nodes q) k' = Some n'" for k' n'
  proof -
    have "in_bucket q (ln_freq n') (ln_el n') k'" and "minFreq q \<le> ln_freq n'"
      using lfu_inv_nodeD [OF q n'] by auto
    moreover have "\<not> in_bucket q old e k'" if "map_of (freqBuckets p1) old = None" for e
      using that by (simp add: q_def in_bucket_def lfu_bucket_def gl_New_def)
    ultimately show ?thesis
      unfolding m_def by (cases "ln_freq n' = old") (auto simp: q_def p1_def)
  qed
  have bounds: "1 \<le> old + 1" "m \<le> old + 1"
    using lfu_inv_nodeD [OF p n] by (auto simp: m_def old_def)
  note inv = lfu_new_node [OF q k bounds min]
  have node: "n\<lparr>ln_freq := old + 1, ln_el := el\<rparr> = \<lparr>ln_key = k, ln_freq = old + 1, ln_el = el\<rparr>"
    using lfu_inv_nodeD(4) [OF p n] by simp
  have acc: "lfu_Access k p = (fst (lfu_push (old + 1) k (p1\<lparr>minFreq := m\<rparr>)))\<lparr>lfu_nodes :=
      AList.update k (n\<lparr>ln_freq := old + 1, ln_el := el\<rparr>) (lfu_nodes p)\<rparr>"
    using n by (simp add: lfu_Access_def Let_def case_prod_beta old_def [symmetric] p1_def [symmetric]
        m_def el_def q_def lfu_push_def) (simp add: p1_def)
  show "lfu_inv (lfu_Access k p)"
    by (rule lfu_inv_cong [OF inv])
      (use p in \<open>simp_all add: acc [unfolded node] el_def q_def lfu_push_def case_prod_beta lfu_inv_def\<close>)
  show "\<exists>el. lfu_nodes (lfu_Access k p) =
          AList.update k (n\<lparr>ln_freq := ln_freq n + 1, ln_el := el\<rparr>) (lfu_nodes p)"
    using acc by (auto simp: old_def)
qed

lemma lfu_Access_absent: "map_of (lfu_nodes p) k = None \<Longrightarrow> lfu_Access k p = p"
  by (simp add: lfu_Access_def)

lemma lfu_Add_inv:
  assumes p: "lfu_inv p" and k: "map_of (lfu_nodes p) k = None"
  shows "lfu_inv (lfu_Add k p)"
    and "\<exists>el. lfu_nodes (lfu_Add k p) = AList.update k \<lparr>ln_key = k, ln_freq = 1, ln_el = el\<rparr> (lfu_nodes p)"
proof -
  have "1 \<le> ln_freq n'" if "map_of (lfu_nodes p) k' = Some n'" for k' n'
    using lfu_inv_nodeD(2) [OF p that] .
  from lfu_new_node [OF p k order.refl order.refl this] show "lfu_inv (lfu_Add k p)"
    using k by (simp add: lfu_Add_def case_prod_beta)
  show "\<exists>el. lfu_nodes (lfu_Add k p) = AList.update k \<lparr>ln_key = k, ln_freq = 1, ln_el = el\<rparr> (lfu_nodes p)"
    using k by (auto simp: lfu_Add_def case_prod_beta)
qed

subsection \<open>Eviction\<close>

lemma fold_min_freq:
  fixes fs :: "(int \<times> 'b) list"
  assumes "\<forall>f \<in> fst ` set fs. 1 \<le> f"
  shows "fold (\<lambda>(f, _) m. if m = -1 \<or> f < m then f else m) fs m =
    (if m = -1 then (if fs = [] then -1 else Min (fst ` set fs)) else Min (insert m (fst ` set fs)))"
  using assms
proof (induction fs arbitrary: m)
  case (Cons x fs)
  obtain f b where x: "x = (f, b)" by (cases x)
  have f: "f \<noteq> -1" using Cons.prems x by auto
  have IH: "fold (\<lambda>(f, _) m. if m = -1 \<or> f < m then f else m) fs m' =
      Min (insert m' (fst ` set fs))" if "m' \<noteq> -1" for m'
    using Cons.IH [of m'] Cons.prems that by simp
  show ?case
  proof (cases "m = -1 \<or> f < m")
    case True
    have "Min (insert m (insert f (fst ` set fs))) = Min (insert f (fst ` set fs))" if "f < m"
    proof -
      have "Min (insert f (fst ` set fs)) \<le> f" by (rule Min_le) simp_all
      with that have "Min (insert f (fst ` set fs)) \<le> m" by linarith
      then show ?thesis by (simp add: Min.insert min_absorb2)
    qed
    with True x f IH [of f] show ?thesis by auto
  next
    case False
    then have "min m (min f y) = min m y" for y :: int by (simp add: min_def)
    then have "Min (insert m (insert f (fst ` set fs))) = Min (insert m (fst ` set fs))"
      using False by (cases "fs = []") (simp_all add: Min.insert)
    with False x IH [of m] show ?thesis by simp
  qed
qed simp

lemma recomputeMinFreq_frame [simp]:
  "lfu_nodes (recomputeMinFreq p) = lfu_nodes p" "freqBuckets (recomputeMinFreq p) = freqBuckets p"
  "lfu_bucket f (recomputeMinFreq p) = lfu_bucket f p"
  by (simp_all add: recomputeMinFreq_def Let_def lfu_bucket_def)

lemma lfu_bucket_keys:
  assumes "lfu_inv p"
  shows "fst ` set (freqBuckets p) = {ln_freq n |n k. map_of (lfu_nodes p) k = Some n}"
proof (intro set_eqI iffI)
  fix f assume "f \<in> fst ` set (freqBuckets p)"
  then obtain b where b: "map_of (freqBuckets p) f = Some b" by (auto simp: mkeys_iff)
  then have "elems b \<noteq> []" using assms by (auto simp: lfu_inv_def buckets_inv_def)
  then obtain e k where "(e, k) \<in> set (elems b)" by (cases "elems b") auto
  then have "in_bucket p f e k" using b by (simp add: in_bucket_def lfu_bucket_def)
  then obtain n where "map_of (lfu_nodes p) k = Some n" "ln_freq n = f" 
    using lfu_inv_bucketD [OF assms] by metis
  then show "f \<in> {ln_freq n |n k. map_of (lfu_nodes p) k = Some n}" by blast
next
  fix f assume "f \<in> {ln_freq n |n k. map_of (lfu_nodes p) k = Some n}"
  then obtain n k where n: "map_of (lfu_nodes p) k = Some n" "f = ln_freq n" by blast
  then have "in_bucket p f (ln_el n) k" using lfu_inv_nodeD(1) [OF assms] by blast
  then show "f \<in> fst ` set (freqBuckets p)"
    by (auto simp: in_bucket_def lfu_bucket_def gl_New_def mkeys_iff split: option.splits)
qed

lemma recomputeMinFreq_min:
  assumes p: "lfu_inv p" and ne: "lfu_nodes p \<noteq> []"
  shows "minFreq (recomputeMinFreq p) \<in> fst ` set (freqBuckets p)"
    and "map_of (lfu_nodes p) k = Some n \<Longrightarrow> minFreq (recomputeMinFreq p) \<le> ln_freq n"
proof -
  let ?F = "fst ` set (freqBuckets p)"
  have F: "?F = {ln_freq n |n k. map_of (lfu_nodes p) k = Some n}" by (rule lfu_bucket_keys [OF p])
  have pos: "\<forall>f \<in> ?F. 1 \<le> f" using lfu_inv_nodeD(2) [OF p] unfolding F by blast
  obtain k0 n0 where "map_of (lfu_nodes p) k0 = Some n0"
    using ne by (metis list.exhaust list.set_intros(1) mkeys_iff image_eqI)
  then have neF: "?F \<noteq> {}" unfolding F by blast
  then have "Min ?F \<in> ?F" by (intro Min_in) auto
  moreover from this pos have "Min ?F \<noteq> -1" by force
  ultimately have min: "minFreq (recomputeMinFreq p) = Min ?F"
    using neF fold_min_freq [OF pos, of "-1"] by (simp add: recomputeMinFreq_def Let_def)
  then show "minFreq (recomputeMinFreq p) \<in> ?F" using \<open>Min ?F \<in> ?F\<close> by simp
  show "minFreq (recomputeMinFreq p) \<le> ln_freq n" if "map_of (lfu_nodes p) k = Some n"
    unfolding min by (rule Min_le, simp) (use that F in blast)
qed

lemma lfu_inv_recompute: "lfu_inv p \<Longrightarrow> lfu_nodes p \<noteq> [] \<Longrightarrow> lfu_inv (recomputeMinFreq p)"
  using recomputeMinFreq_min(2) [of p]
  by (auto simp: lfu_inv_def in_bucket_def buckets_inv_def)

text \<open>On a policy that tracks a key, eviction finds the bucket of the least frequency and takes
  the key at its front.\<close>

lemma lfu_Evict_cases:
  assumes p: "lfu_inv p" and ne: "lfu_nodes p \<noteq> []"
  obtains k n q where "lfu_Evict p = (q, Some k)" and "map_of (lfu_nodes p) k = Some n"
    and "lfu_inv q" and "lfu_nodes q = AList.delete k (lfu_nodes p)"
    and "\<And>k' n'. map_of (lfu_nodes p) k' = Some n' \<Longrightarrow> ln_freq n \<le> ln_freq n'"
    and "gl_vals (lfu_bucket (ln_freq n) p) = k # removeAll k (gl_vals (lfu_bucket (ln_freq n) p))"
proof -
  define p1 where "p1 = (if gl_Len (lfu_bucket (minFreq p) p) = 0 then recomputeMinFreq p else p)"
  have p1: "lfu_inv p1" and nodes: "lfu_nodes p1 = lfu_nodes p"
    and bucket: "lfu_bucket f p1 = lfu_bucket f p" for f
    using p ne lfu_inv_recompute by (auto simp: p1_def)
  have "elems (lfu_bucket (minFreq p1) p1) \<noteq> []"
  proof (cases "gl_Len (lfu_bucket (minFreq p) p) = 0")
    case True
    then have "p1 = recomputeMinFreq p" by (simp add: p1_def)
    with recomputeMinFreq_min(1) [OF p ne] obtain b where "map_of (freqBuckets p) (minFreq p1) = Some b"
      by (auto simp: mkeys_iff)
    moreover from this p have "elems b \<noteq> []" by (auto simp: lfu_inv_def buckets_inv_def)
    ultimately show ?thesis by (simp add: bucket) (simp add: lfu_bucket_def)
  next
    case False
    then show ?thesis by (simp add: p1_def gl_Len_def)
  qed
  then obtain el k rest where b: "elems (lfu_bucket (minFreq p1) p1) = (el, k) # rest"
    by (metis list.exhaust surj_pair)
  then have "in_bucket p1 (minFreq p1) el k" by (simp add: in_bucket_def)
  then obtain n where n: "map_of (lfu_nodes p1) k = Some n" "ln_freq n = minFreq p1" "ln_el n = el"
    using lfu_inv_bucketD [OF p1] by metis
  define q where "q = (lfu_unlink (minFreq p1) el p1)\<lparr>lfu_nodes := AList.delete k (lfu_nodes p1)\<rparr>"
  have ev: "lfu_Evict p = (q, Some k)"
    using ne b by (simp add: lfu_Evict_def p1_def [symmetric] gl_Front_def Let_def q_def)
  have "lfu_inv q" using lfu_drop_node [OF p1 n(1)] n by (simp add: q_def)
  moreover have "lfu_nodes q = AList.delete k (lfu_nodes p)" by (simp add: q_def nodes)
  moreover have "ln_freq n \<le> ln_freq n'" if "map_of (lfu_nodes p) k' = Some n'" for k' n'
    using lfu_inv_nodeD(3) [OF p1] that n nodes by simp
  moreover have "k \<notin> set (map snd rest)"
  proof
    assume "k \<in> set (map snd rest)"
    then obtain e where e: "(e, k) \<in> set rest" by auto
    then have "in_bucket p1 (minFreq p1) e k" using b by (simp add: in_bucket_def)
    then have "e = el" using lfu_inv_bucketD [OF p1] n by (metis option.inject)
    moreover have "gl_inv (lfu_bucket (minFreq p1) p1)" using p1 by (simp add: lfu_inv_def gl_inv_bucket)
    ultimately show False using e b by (force simp: gl_inv_def)
  qed
  then have "gl_vals (lfu_bucket (ln_freq n) p) = k # removeAll k (gl_vals (lfu_bucket (ln_freq n) p))"
    using b n bucket by (simp add: gl_vals_def)
  ultimately show ?thesis using that ev n nodes by simp
qed

lemma lfu_Evict_empty: "lfu_nodes p = [] \<Longrightarrow> lfu_Evict p = (p, None)"
  by (simp add: lfu_Evict_def)

lemma lfu_Evict_Some:
  assumes "lfu_inv p" and "lfu_Evict p = (p', Some k)"
  shows "lfu_inv p'" and "k \<in> mkeys (lfu_nodes p)" and "lfu_nodes p' = AList.delete k (lfu_nodes p)"
    and "k' \<in> mkeys (lfu_nodes p) \<Longrightarrow> lfu_freq p k \<le> lfu_freq p k'"
    and "\<exists>rest. gl_vals (lfu_bucket (lfu_freq p k) p) = k # rest"
proof -
  have "lfu_nodes p \<noteq> []" using assms(2) by (auto simp: lfu_Evict_def)
  with assms(1) show "lfu_inv p'" "k \<in> mkeys (lfu_nodes p)"
      "lfu_nodes p' = AList.delete k (lfu_nodes p)"
      "k' \<in> mkeys (lfu_nodes p) \<Longrightarrow> lfu_freq p k \<le> lfu_freq p k'"
      "\<exists>rest. gl_vals (lfu_bucket (lfu_freq p k) p) = k # rest"
    by (rule lfu_Evict_cases; use assms(2) in \<open>auto simp: lfu_freq_def mkeys_iff\<close>)+
qed

interpretation lfu: tracking_policy lfu_Add lfu_Access lfu_Remove lfu_Evict
  "\<lambda>p. mkeys (lfu_nodes p)" lfu_inv lfu_Len
proof unfold_locales
  fix p p' k
  assume p: "lfu_inv p"
  have acc: "lfu_inv (lfu_Access k p) \<and> mkeys (lfu_nodes (lfu_Access k p)) = mkeys (lfu_nodes p)"
  proof (cases "map_of (lfu_nodes p) k")
    case (Some n)
    from lfu_Access_inv(2) [OF p Some] lfu_Access_inv(1) [OF p Some] mkeys_Some [OF Some]
    show ?thesis by (elim exE) (simp add: insert_absorb)
  qed (use p in \<open>simp add: lfu_Access_absent\<close>)
  then show "lfu_inv (lfu_Access k p) \<and> mkeys (lfu_nodes (lfu_Access k p)) = mkeys (lfu_nodes p)" .
  show "lfu_inv (lfu_Add k p) \<and> mkeys (lfu_nodes (lfu_Add k p)) = insert k (mkeys (lfu_nodes p))"
  proof (cases "map_of (lfu_nodes p) k")
    case None
    from lfu_Add_inv(2) [OF p None] lfu_Add_inv(1) [OF p None]
    show ?thesis by (elim exE) simp
  next
    case (Some n)
    then have "lfu_Add k p = lfu_Access k p" by (simp add: lfu_Add_def)
    with acc mkeys_Some [OF Some] show ?thesis by (simp add: insert_absorb)
  qed
  show "lfu_inv (lfu_Remove k p) \<and> mkeys (lfu_nodes (lfu_Remove k p)) = mkeys (lfu_nodes p) - {k}"
    using lfu_Remove_inv [OF p] by simp
  show "lfu_Len p = card (mkeys (lfu_nodes p))"
    using p by (simp add: lfu_Len_def lfu_inv_def card_mkeys)
  show "lfu_inv p' \<and> k \<in> mkeys (lfu_nodes p) \<and> mkeys (lfu_nodes p') = mkeys (lfu_nodes p) - {k}"
    if "lfu_Evict p = (p', Some k)"
    using lfu_Evict_Some [OF p that] by simp
  show "lfu_inv p' \<and> mkeys (lfu_nodes p) = {} \<and> mkeys (lfu_nodes p') = {}"
    if ev: "lfu_Evict p = (p', None)"
  proof (cases "lfu_nodes p = []")
    case True
    with ev p show ?thesis by (auto simp: lfu_Evict_empty)
  next
    case False
    with p show ?thesis by (rule lfu_Evict_cases) (use ev in simp)
  qed
qed simp

subsection \<open>Frequencies\<close>

lemma lfu_freq_Access:
  "lfu_inv p \<Longrightarrow> lfu_freq (lfu_Access k p) k' =
     (if k' = k \<and> k \<in> mkeys (lfu_nodes p) then lfu_freq p k + 1 else lfu_freq p k')"
proof (cases "map_of (lfu_nodes p) k")
  case (Some n)
  assume "lfu_inv p"
  from lfu_Access_inv(2) [OF this Some] Some mkeys_Some [OF Some] show ?thesis
    by (auto simp: lfu_freq_def)
qed (auto simp: lfu_Access_absent map_of_None_iff)

lemma lfu_freq_Add:
  "lfu_inv p \<Longrightarrow> lfu_freq (lfu_Add k p) k' =
     (if k' = k then lfu_freq p k + 1 else lfu_freq p k')"
proof (cases "map_of (lfu_nodes p) k")
  case None
  assume "lfu_inv p"
  from lfu_Add_inv(2) [OF this None] None show ?thesis by (auto simp: lfu_freq_def)
next
  case (Some n)
  assume "lfu_inv p"
  with lfu_freq_Access [OF this, of k k'] mkeys_Some [OF Some] Some show ?thesis
    by (simp add: lfu_Add_def)
qed

lemma lfu_freq_pos: "lfu_inv p \<Longrightarrow> k \<in> mkeys (lfu_nodes p) \<longleftrightarrow> 1 \<le> lfu_freq p k"
  by (auto simp: lfu_freq_def mkeys_iff dest: lfu_inv_nodeD(2) split: option.splits)

end
