(* ===== verification/GoHeap.thy ===== *)
theory GoHeap
  imports Prelude "HOL-Library.Multiset"
begin

section \<open>Go's \<open>container/heap\<close>\<close>

text \<open>
  The binary heap of \<open>container/heap\<close> on a slice, with \<open>Less(i, j)\<close> given by an integer key
  \<open>f\<close>: \<open>up\<close> and \<open>down\<close> are the library's two loops, \<open>Push\<close> appends and sifts up, \<open>Pop\<close> swaps
  the root with the last element, sifts down and cuts the slice. The lemmas show the heap order,
  that \<open>Pop\<close> returns a least element, and that the multiset of elements is kept.
\<close>

definition swap :: "'a list \<Rightarrow> nat \<Rightarrow> nat \<Rightarrow> 'a list" where
  "swap xs i j = xs[i := xs ! j, j := xs ! i]"

definition par :: "nat \<Rightarrow> nat" where
  "par j = (j - 1) div 2"

function heap_up :: "('a \<Rightarrow> int) \<Rightarrow> 'a list \<Rightarrow> nat \<Rightarrow> 'a list" where
  "heap_up f xs j =
     (let i = par j
      in if i = j \<or> \<not> f (xs ! j) < f (xs ! i) then xs else heap_up f (swap xs i j) i)"
  by pat_completeness auto
termination
  by (relation "measure (\<lambda>(f, xs, j). j)") (auto simp: par_def)

definition min_child :: "('a \<Rightarrow> int) \<Rightarrow> 'a list \<Rightarrow> nat \<Rightarrow> nat \<Rightarrow> nat" where
  "min_child f xs i n =
     (let j1 = 2 * i + 1; j2 = j1 + 1
      in if j2 < n \<and> f (xs ! j2) < f (xs ! j1) then j2 else j1)"

function heap_down :: "('a \<Rightarrow> int) \<Rightarrow> 'a list \<Rightarrow> nat \<Rightarrow> nat \<Rightarrow> 'a list" where
  "heap_down f xs i n =
     (if 2 * i + 1 \<ge> n then xs
      else
        (let j = min_child f xs i n
         in if \<not> f (xs ! j) < f (xs ! i) then xs else heap_down f (swap xs i j) j n))"
  by pat_completeness auto
termination
  by (relation "measure (\<lambda>(f, xs, i, n). n - i)") (auto simp: min_child_def Let_def)

declare heap_up.simps [simp del] heap_down.simps [simp del]

definition heap_Push :: "('a \<Rightarrow> int) \<Rightarrow> 'a \<Rightarrow> 'a list \<Rightarrow> 'a list" where
  "heap_Push f x xs = heap_up f (xs @ [x]) (length xs)"

definition heap_Pop :: "('a \<Rightarrow> int) \<Rightarrow> 'a list \<Rightarrow> 'a list \<times> 'a" where
  "heap_Pop f xs =
     (let n = length xs - 1;
          ys = heap_down f (swap xs 0 n) 0 n
      in (take n ys, ys ! n))"

definition heap_ok :: "('a \<Rightarrow> int) \<Rightarrow> 'a list \<Rightarrow> bool" where
  "heap_ok f xs \<longleftrightarrow> (\<forall>m < length xs. 0 < m \<longrightarrow> f (xs ! par m) \<le> f (xs ! m))"

subsection \<open>Swapping\<close>

lemma length_swap [simp]: "length (swap xs i j) = length xs"
  by (simp add: swap_def)

lemma nth_swap: "i < length xs \<Longrightarrow> j < length xs \<Longrightarrow>
    swap xs i j ! m = (if m = i then xs ! j else if m = j then xs ! i else xs ! m)"
  by (auto simp: swap_def nth_list_update)

lemma mset_swap_eq: "i < length xs \<Longrightarrow> j < length xs \<Longrightarrow> mset (swap xs i j) = mset xs"
  by (simp add: swap_def mset_swap)

lemma par_less: "0 < m \<Longrightarrow> par m < m"
  by (simp add: par_def less_mult_imp_div_less)

lemma par_children: "0 < m \<Longrightarrow> par m = i \<longleftrightarrow> m = 2 * i + 1 \<or> m = 2 * i + 2"
  unfolding par_def by presburger

subsection \<open>Lengths and multisets\<close>

lemma heap_up_mset: "j < length xs \<Longrightarrow> mset (heap_up f xs j) = mset xs \<and> length (heap_up f xs j) = length xs"
proof (induction f xs j rule: heap_up.induct)
  case (1 f xs j)
  have "par j < length xs" using "1.prems" par_less [of j] by (cases "j = 0") (auto simp: par_def)
  with "1" show ?case
    by (subst (1 2) heap_up.simps) (auto simp: Let_def mset_swap_eq)
qed

lemma heap_down_props:
  "i < n \<Longrightarrow> n \<le> length xs \<Longrightarrow>
     mset (heap_down f xs i n) = mset xs \<and> length (heap_down f xs i n) = length xs \<and>
     (\<forall>m \<ge> n. heap_down f xs i n ! m = xs ! m)"
proof (induction f xs i n rule: heap_down.induct)
  case (1 f xs i n)
  show ?case
  proof (cases "2 * i + 1 < n \<and> f (xs ! min_child f xs i n) < f (xs ! i)")
    case True
    define j where "j = min_child f xs i n"
    have j: "j < n" using True by (auto simp: j_def min_child_def Let_def)
    have "mset (heap_down f (swap xs i j) j n) = mset (swap xs i j) \<and>
        length (heap_down f (swap xs i j) j n) = length (swap xs i j) \<and>
        (\<forall>m \<ge> n. heap_down f (swap xs i j) j n ! m = swap xs i j ! m)"
      by (rule "1.IH" [OF _ j_def]) (use True j "1.prems" in \<open>auto simp: j_def\<close>)
    moreover have "heap_down f xs i n = heap_down f (swap xs i j) j n"
      using True by (simp add: heap_down.simps [of f xs i n] j_def Let_def)
    ultimately show ?thesis using j "1.prems" by (auto simp: mset_swap_eq nth_swap)
  next
    case False
    then have "heap_down f xs i n = xs" by (auto simp: heap_down.simps [of f xs i n] Let_def)
    then show ?thesis by simp
  qed
qed

subsection \<open>The heap order\<close>

text \<open>Sifting up: the order may fail only between \<open>j\<close> and its parent, and the children of \<open>j\<close>
  are no less than the parent of \<open>j\<close>.\<close>

definition up_ok :: "('a \<Rightarrow> int) \<Rightarrow> 'a list \<Rightarrow> nat \<Rightarrow> bool" where
  "up_ok f xs j \<longleftrightarrow>
     (\<forall>m < length xs. 0 < m \<longrightarrow> m \<noteq> j \<longrightarrow> f (xs ! par m) \<le> f (xs ! m)) \<and>
     (0 < j \<longrightarrow> (\<forall>m < length xs. 0 < m \<longrightarrow> par m = j \<longrightarrow> f (xs ! par j) \<le> f (xs ! m)))"

lemma up_ok_step:
  assumes ok: "up_ok f xs j" and j: "j < length xs" "0 < j" and less: "f (xs ! j) < f (xs ! par j)"
  shows "up_ok f (swap xs (par j) j) (par j)"
proof -
  let ?i = "par j" and ?ys = "swap xs (par j) j"
  have i: "?i < j" "?i < length xs" using j par_less [of j] by auto
  have nth: "?ys ! m = (if m = ?i then xs ! j else if m = j then xs ! ?i else xs ! m)" for m
    using i j by (simp add: nth_swap)
  have ord: "f (xs ! par m) \<le> f (xs ! m)" if "m < length xs" "0 < m" "m \<noteq> j" for m
    using ok that by (simp add: up_ok_def)
  have gp: "f (xs ! ?i) \<le> f (xs ! m)" if "m < length xs" "0 < m" "par m = j" for m
    using ok that j by (simp add: up_ok_def)
  have one: "f (?ys ! par m) \<le> f (?ys ! m)" if m: "m < length xs" "0 < m" "m \<noteq> ?i" for m
  proof -
    consider "m = j" | "m \<noteq> j" "par m = j" | "m \<noteq> j" "par m = ?i" | "m \<noteq> j" "par m \<noteq> j" "par m \<noteq> ?i"
      by blast
    then show ?thesis
    proof cases
      case 1 with less i show ?thesis by (simp add: nth)
    next
      case 2 with m i gp [of m] show ?thesis by (simp add: nth)
    next
      case 3 with m less ord [of m] show ?thesis by (simp add: nth)
    next
      case 4 with m ord [of m] show ?thesis by (simp add: nth)
    qed
  qed
  have two: "f (?ys ! par ?i) \<le> f (?ys ! m)" if m: "m < length xs" "0 < m" "par m = ?i" "0 < ?i" for m
  proof -
    have "par ?i < ?i" using m by (simp add: par_less)
    moreover have "f (xs ! par ?i) \<le> f (xs ! ?i)" using ord [of ?i] i m by simp
    moreover have "m \<noteq> ?i" using m par_less [of m] by auto
    ultimately show ?thesis using m ord [of m] i by (auto simp: nth)
  qed
  show ?thesis using one two by (simp add: up_ok_def)
qed

lemma heap_up_ok: "j < length xs \<Longrightarrow> up_ok f xs j \<Longrightarrow> heap_ok f (heap_up f xs j)"
proof (induction f xs j rule: heap_up.induct)
  case (1 f xs j)
  show ?case
  proof (cases "par j = j \<or> \<not> f (xs ! j) < f (xs ! par j)")
    case True
    then have "heap_up f xs j = xs" by (auto simp: heap_up.simps [of f xs j] Let_def)
    moreover have "heap_ok f xs"
      using True "1.prems" par_less [of j] by (fastforce simp: heap_ok_def up_ok_def)
    ultimately show ?thesis by simp
  next
    case False
    then have j: "0 < j" by (auto simp: par_def)
    then have "par j < length xs" using "1.prems" par_less [of j] by simp
    moreover have "up_ok f (swap xs (par j) j) (par j)"
      using up_ok_step "1.prems" j False by blast
    ultimately have "heap_ok f (heap_up f (swap xs (par j) j) (par j))"
      using "1.IH" [OF refl False] by simp
    then show ?thesis using False by (simp add: heap_up.simps [of f xs j] Let_def)
  qed
qed

text \<open>Sifting down in the first \<open>n\<close> cells: the order may fail only between \<open>i\<close> and its children,
  and those are no less than the parent of \<open>i\<close>.\<close>

definition down_ok :: "('a \<Rightarrow> int) \<Rightarrow> 'a list \<Rightarrow> nat \<Rightarrow> nat \<Rightarrow> bool" where
  "down_ok f xs i n \<longleftrightarrow>
     (\<forall>m < n. 0 < m \<longrightarrow> par m \<noteq> i \<longrightarrow> f (xs ! par m) \<le> f (xs ! m)) \<and>
     (0 < i \<longrightarrow> (\<forall>m < n. 0 < m \<longrightarrow> par m = i \<longrightarrow> f (xs ! par i) \<le> f (xs ! m)))"

lemma min_child_props:
  assumes "2 * i + 1 < n"
  shows "min_child f xs i n < n" "0 < min_child f xs i n" "par (min_child f xs i n) = i"
    and "m < n \<Longrightarrow> 0 < m \<Longrightarrow> par m = i \<Longrightarrow> f (xs ! min_child f xs i n) \<le> f (xs ! m)"
  using assms by (auto simp: min_child_def Let_def par_children)

lemma down_ok_step:
  assumes ok: "down_ok f xs i n" and n: "2 * i + 1 < n" "n \<le> length xs"
    and less: "f (xs ! min_child f xs i n) < f (xs ! i)"
  shows "down_ok f (swap xs i (min_child f xs i n)) (min_child f xs i n) n"
proof -
  define j where "j = min_child f xs i n"
  let ?ys = "swap xs i j"
  have j: "j < n" "0 < j" "par j = i" and jmin: "\<And>m. m < n \<Longrightarrow> 0 < m \<Longrightarrow> par m = i \<Longrightarrow> f (xs ! j) \<le> f (xs ! m)"
    using min_child_props [OF n(1), where f = f and xs = xs] by (auto simp: j_def)
  have ij: "i < j" using j par_less [of j] by simp
  have nth: "?ys ! m = (if m = i then xs ! j else if m = j then xs ! i else xs ! m)" for m
    using n j by (simp add: nth_swap)
  have ord: "f (xs ! par m) \<le> f (xs ! m)" if "m < n" "0 < m" "par m \<noteq> i" for m
    using ok that by (simp add: down_ok_def)
  have one: "f (?ys ! par m) \<le> f (?ys ! m)" if m: "m < n" "0 < m" "par m \<noteq> j" for m
  proof -
    consider "m = j" | "m \<noteq> j" "par m = i" | "m = i" | "m \<noteq> j" "m \<noteq> i" "par m \<noteq> i"
      by blast
    then show ?thesis
    proof cases
      case 1 with less [folded j_def] j ij show ?thesis by (simp add: nth)
    next
      case 2
      with m have "m \<noteq> i" using par_less [of m] by auto
      with 2 m jmin [of m] show ?thesis by (simp add: nth)
    next
      case 3
      then have "par i < i" "f (xs ! par i) \<le> f (xs ! j)"
        using m ok j par_less [of i] by (simp_all add: down_ok_def)
      with 3 m ij show ?thesis by (simp add: nth)
    next
      case 4 with m ord [of m] show ?thesis by (simp add: nth)
    qed
  qed
  have two: "f (?ys ! par j) \<le> f (?ys ! m)" if m: "m < n" "0 < m" "par m = j" for m
    using that ord [of m] par_less [of m] ij j by (simp add: nth)
  show ?thesis using one two by (simp add: down_ok_def j_def)
qed

lemma heap_down_ok:
  "n \<le> length xs \<Longrightarrow> down_ok f xs i n \<Longrightarrow> \<forall>m < n. 0 < m \<longrightarrow> f (heap_down f xs i n ! par m) \<le> f (heap_down f xs i n ! m)"
proof (induction f xs i n rule: heap_down.induct)
  case (1 f xs i n)
  show ?case
  proof (cases "2 * i + 1 < n \<and> f (xs ! min_child f xs i n) < f (xs ! i)")
    case True
    define j where "j = min_child f xs i n"
    have "down_ok f (swap xs i j) j n"
      using down_ok_step "1.prems" True unfolding j_def by blast
    then have "\<forall>m < n. 0 < m \<longrightarrow> f (heap_down f (swap xs i j) j n ! par m) \<le> f (heap_down f (swap xs i j) j n ! m)"
      by (intro "1.IH" [OF _ j_def]) (use True "1.prems" in \<open>auto simp: j_def\<close>)
    moreover have "heap_down f xs i n = heap_down f (swap xs i j) j n"
      using True by (simp add: heap_down.simps [of f xs i n] j_def Let_def)
    ultimately show ?thesis by simp
  next
    case False
    then have "heap_down f xs i n = xs" by (auto simp: heap_down.simps [of f xs i n] Let_def)
    moreover have "f (xs ! par m) \<le> f (xs ! m)" if m: "m < n" "0 < m" for m
    proof (cases "par m = i")
      case True
      then have "2 * i + 1 < n" using m by (auto simp: par_children)
      with True m False min_child_props(4) [where i = i and n = n and m = m and f = f and xs = xs] show ?thesis by simp
    next
      case False
      with "1.prems" m show ?thesis by (simp add: down_ok_def)
    qed
    ultimately show ?thesis by simp
  qed
qed

subsection \<open>\<open>Push\<close> and \<open>Pop\<close>\<close>

lemma heap_ok_Nil [simp]: "heap_ok f []"
  by (simp add: heap_ok_def)

lemma heap_ok_root: "heap_ok f xs \<Longrightarrow> m < length xs \<Longrightarrow> f (xs ! 0) \<le> f (xs ! m)"
proof (induction m rule: less_induct)
  case (less m)
  show ?case
  proof (cases "m = 0")
    case False
    then have "par m < m" by (simp add: par_less)
    with less have "f (xs ! 0) \<le> f (xs ! par m)" by simp
    also have "\<dots> \<le> f (xs ! m)" using less.prems False by (simp add: heap_ok_def)
    finally show ?thesis .
  qed simp
qed

lemma heap_Push_props:
  shows "mset (heap_Push f x xs) = add_mset x (mset xs)"
    and "heap_ok f xs \<Longrightarrow> heap_ok f (heap_Push f x xs)"
proof -
  show "mset (heap_Push f x xs) = add_mset x (mset xs)"
    using heap_up_mset [of "length xs" "xs @ [x]" f] by (simp add: heap_Push_def)
  assume "heap_ok f xs"
  moreover have "par m < length xs" if "m < Suc (length xs)" "0 < m" for m
    using that par_less [of m] by simp
  moreover have "par m \<noteq> length xs" if "m < Suc (length xs)" "0 < m" for m
    using that par_less [of m] by simp
  ultimately have "up_ok f (xs @ [x]) (length xs)"
    by (auto simp: up_ok_def heap_ok_def nth_append)
  then show "heap_ok f (heap_Push f x xs)"
    by (simp add: heap_Push_def heap_up_ok)
qed

lemma heap_Pop_props:
  assumes ne: "xs \<noteq> []" and p: "heap_Pop f xs = (ys, x)"
  shows "mset xs = add_mset x (mset ys)" and "length xs = Suc (length ys)"
    and "heap_ok f xs \<Longrightarrow> heap_ok f ys" and "heap_ok f xs \<Longrightarrow> y \<in> set xs \<Longrightarrow> f x \<le> f y"
proof -
  define n where "n = length xs - 1"
  define zs where "zs = heap_down f (swap xs 0 n) 0 n"
  have n: "n < length xs" "0 < length xs" using ne by (auto simp: n_def)
  have ys: "ys = take n zs" and x: "x = zs ! n"
    using p by (auto simp: heap_Pop_def n_def zs_def Let_def)
  have zs: "mset zs = mset xs \<and> length zs = length xs \<and> zs ! n = xs ! 0"
  proof (cases "n = 0")
    case True
    then have "swap xs 0 n = xs" by (simp add: swap_def)
    then show ?thesis using True by (simp add: zs_def heap_down.simps)
  next
    case False
    then show ?thesis
      using heap_down_props [of 0 n "swap xs 0 n" f] n by (auto simp: zs_def mset_swap_eq nth_swap)
  qed
  have len: "length xs = Suc n" using n by (simp add: n_def)
  have "zs = take n zs @ [zs ! n]"
    using zs len by (metis lessI take_Suc_conv_app_nth take_all_iff order.refl)
  then have "mset zs = add_mset x (mset ys)"
    using ys x by (metis add_mset_add_single mset.simps mset_append)
  then show "mset xs = add_mset x (mset ys)" using zs by simp
  show "length xs = Suc (length ys)" using zs ys len by simp
  show "f x \<le> f y" if "heap_ok f xs" "y \<in> set xs"
    using that heap_ok_root zs x by (metis in_set_conv_nth)
  show "heap_ok f ys" if ok: "heap_ok f xs"
  proof -
    have "f (swap xs 0 n ! par m) \<le> f (swap xs 0 n ! m)" if "m < n" "0 < m" "par m \<noteq> 0" for m
      using that ok n par_less [of m] by (simp add: heap_ok_def nth_swap)
    then have "down_ok f (swap xs 0 n) 0 n" by (simp add: down_ok_def)
    then have "\<forall>m < n. 0 < m \<longrightarrow> f (zs ! par m) \<le> f (zs ! m)"
      unfolding zs_def using n by (intro heap_down_ok) auto
    moreover have "par m < n" if "m < n" "0 < m" for m
      using that par_less [of m] by simp
    ultimately show ?thesis
      using ys zs len by (simp add: heap_ok_def)
  qed
qed

end
