(* ===== verification/Evict_TTL.thy ===== *)
theory Evict_TTL
  imports Policy_Spec GoHeap
begin

section \<open>The TTL policy\<close>

text \<open>
  internal/eviction/ttl.go. The map \<open>eff\<close> holds each key's current expiry and the heap holds
  every expiry ever noted. An entry of the heap that is not the key's current expiry is stale,
  and \<open>Evict\<close> skips it. The invariant is that every current expiry is in the heap, so that the
  first entry that is not stale is the key with the nearest expiry.
\<close>

record ttlItem =
  ti_key :: string
  ti_expireAt :: int

record ttl =
  eff :: "(string \<times> int) list"
  ttl_h :: "ttlItem list"

definition NewTTL :: ttl where
  "NewTTL = \<lparr>eff = [], ttl_h = []\<rparr>"

definition ttlNever :: int where
  "ttlNever = maxInt64"

definition ttl_Add :: "string \<Rightarrow> ttl \<Rightarrow> ttl" where
  "ttl_Add key p =
     (case map_of (eff p) key of
        Some _ \<Rightarrow> p
      | None \<Rightarrow>
          p\<lparr>eff := AList.update key ttlNever (eff p),
            ttl_h := heap_Push ti_expireAt \<lparr>ti_key = key, ti_expireAt = ttlNever\<rparr> (ttl_h p)\<rparr>)"

definition ttl_Note :: "string \<Rightarrow> int \<Rightarrow> ttl \<Rightarrow> ttl" where
  "ttl_Note key expireAt p =
     (let e = (if expireAt = 0 then ttlNever else expireAt)
      in p\<lparr>eff := AList.update key e (eff p),
           ttl_h := heap_Push ti_expireAt \<lparr>ti_key = key, ti_expireAt = e\<rparr> (ttl_h p)\<rparr>)"

definition ttl_Access :: "string \<Rightarrow> ttl \<Rightarrow> ttl" where
  "ttl_Access key p = p"

definition ttl_Remove :: "string \<Rightarrow> ttl \<Rightarrow> ttl" where
  "ttl_Remove key p = p\<lparr>eff := AList.delete key (eff p)\<rparr>"

lemma length_fst_heap_Pop: "xs \<noteq> [] \<Longrightarrow> length (fst (heap_Pop f xs)) < length xs"
  using heap_Pop_props(2) [of xs f "fst (heap_Pop f xs)" "snd (heap_Pop f xs)"] by simp

function ttl_Evict :: "ttl \<Rightarrow> ttl \<times> string option" where
  "ttl_Evict p =
     (if ttl_h p = [] then (p, None)
      else
        (let h' = fst (heap_Pop ti_expireAt (ttl_h p));
             it = snd (heap_Pop ti_expireAt (ttl_h p));
             p1 = p\<lparr>ttl_h := h'\<rparr>
         in if map_of (eff p) (ti_key it) \<noteq> Some (ti_expireAt it) then ttl_Evict p1
            else (p1\<lparr>eff := AList.delete (ti_key it) (eff p)\<rparr>, Some (ti_key it))))"
  by pat_completeness auto
termination
  by (relation "measure (\<lambda>p. length (ttl_h p))") (auto simp: length_fst_heap_Pop)

declare ttl_Evict.simps [simp del]

definition ttl_Len :: "ttl \<Rightarrow> nat" where
  "ttl_Len p = length (eff p)"

definition ttl_inv :: "ttl \<Rightarrow> bool" where
  "ttl_inv p \<longleftrightarrow> wf_map (eff p) \<and> heap_ok ti_expireAt (ttl_h p) \<and>
     (\<forall>k e. map_of (eff p) k = Some e \<longrightarrow> \<lparr>ti_key = k, ti_expireAt = e\<rparr> \<in> set (ttl_h p))"

lemma ttl_inv_New: "ttl_inv NewTTL"
  by (simp add: ttl_inv_def NewTTL_def)

lemma set_heap_Push: "set (heap_Push f x xs) = insert x (set xs)"
  using heap_Push_props(1) [of f x xs] by (metis set_mset_add_mset_insert set_mset_mset)

lemma ttl_Note_inv:
  assumes "ttl_inv p"
  shows "ttl_inv (ttl_Note k e p)"
    and "map_of (eff (ttl_Note k e p)) = (map_of (eff p))(k \<mapsto> (if e = 0 then ttlNever else e))"
  using assms by (auto simp: ttl_inv_def ttl_Note_def Let_def set_heap_Push heap_Push_props(2))

lemma ttl_Add_Note: "map_of (eff p) k = None \<Longrightarrow> ttl_Add k p = ttl_Note k 0 p"
  by (simp add: ttl_Add_def ttl_Note_def)

lemma ttl_Remove_inv: "ttl_inv p \<Longrightarrow> ttl_inv (ttl_Remove k p)"
  by (auto simp: ttl_inv_def ttl_Remove_def split: if_splits)

lemma ttl_inv_Pop:
  assumes p: "ttl_inv p" and ne: "ttl_h p \<noteq> []" and pop: "heap_Pop ti_expireAt (ttl_h p) = (h', it)"
  shows "map_of (eff p) (ti_key it) \<noteq> Some (ti_expireAt it) \<Longrightarrow> ttl_inv (p\<lparr>ttl_h := h'\<rparr>)"
    and "ttl_inv (p\<lparr>ttl_h := h', eff := AList.delete (ti_key it) (eff p)\<rparr>)"
    and "map_of (eff p) k = Some e \<Longrightarrow> ti_expireAt it \<le> e"
proof -
  note props = heap_Pop_props [OF ne pop]
  have sets: "set (ttl_h p) = insert it (set h')"
    using props(1) by (metis set_mset_add_mset_insert set_mset_mset)
  have it: "it = \<lparr>ti_key = ti_key it, ti_expireAt = ti_expireAt it\<rparr>" by simp
  have keep: "\<lparr>ti_key = k, ti_expireAt = e\<rparr> \<in> set h'"
    if "map_of (eff p) k = Some e" "k \<noteq> ti_key it \<or> e \<noteq> ti_expireAt it" for k e
  proof -
    have "\<lparr>ti_key = k, ti_expireAt = e\<rparr> \<in> insert it (set h')"
      using p that sets by (auto simp: ttl_inv_def)
    moreover have "\<lparr>ti_key = k, ti_expireAt = e\<rparr> \<noteq> it" using that by auto
    ultimately show ?thesis by simp
  qed
  have heap: "wf_map (eff p)" "heap_ok ti_expireAt h'"
    using p props(3) by (auto simp: ttl_inv_def)
  show "ttl_inv (p\<lparr>ttl_h := h'\<rparr>)" if "map_of (eff p) (ti_key it) \<noteq> Some (ti_expireAt it)"
    using heap keep that by (auto simp: ttl_inv_def)
  show "ttl_inv (p\<lparr>ttl_h := h', eff := AList.delete (ti_key it) (eff p)\<rparr>)"
    using heap keep by (auto simp: ttl_inv_def split: if_splits)
  show "ti_expireAt it \<le> e" if "map_of (eff p) k = Some e"
    using p that props(4) [of "\<lparr>ti_key = k, ti_expireAt = e\<rparr>"] by (auto simp: ttl_inv_def)
qed

text \<open>The loop skips stale entries and returns the key of the nearest expiry, or nothing when no
  key is tracked.\<close>

lemma ttl_Evict_props:
  "ttl_inv p \<Longrightarrow>
     (case ttl_Evict p of
        (p', None) \<Rightarrow> ttl_inv p' \<and> eff p' = eff p \<and> eff p = []
      | (p', Some k) \<Rightarrow> ttl_inv p' \<and> eff p' = AList.delete k (eff p) \<and>
          (\<exists>e. map_of (eff p) k = Some e \<and> (\<forall>k' e'. map_of (eff p) k' = Some e' \<longrightarrow> e \<le> e')))"
proof (induction p rule: ttl_Evict.induct)
  case (1 p)
  show ?case
  proof (cases "ttl_h p = []")
    case True
    have "eff p = []"
    proof (cases "eff p")
      case (Cons x xs)
      then have "map_of (eff p) (fst x) = Some (snd x)" by simp
      with "1.prems" True show ?thesis by (auto simp: ttl_inv_def)
    qed
    with True "1.prems" show ?thesis by (simp add: ttl_Evict.simps [of p])
  next
    case ne: False
    define h' where "h' = fst (heap_Pop ti_expireAt (ttl_h p))"
    define it where "it = snd (heap_Pop ti_expireAt (ttl_h p))"
    have pop: "heap_Pop ti_expireAt (ttl_h p) = (h', it)" by (simp add: h'_def it_def)
    note step = ttl_inv_Pop [OF "1.prems" ne pop]
    show ?thesis
    proof (cases "map_of (eff p) (ti_key it) = Some (ti_expireAt it)")
      case True
      then have "ttl_Evict p = (p\<lparr>ttl_h := h', eff := AList.delete (ti_key it) (eff p)\<rparr>, Some (ti_key it))"
        using ne by (simp add: ttl_Evict.simps [of p] pop)
      with True step show ?thesis by auto
    next
      case False
      then have "ttl_Evict p = ttl_Evict (p\<lparr>ttl_h := h'\<rparr>)"
        using ne by (simp add: ttl_Evict.simps [of p] pop)
      with "1.IH" [OF ne h'_def it_def refl False step(1) [OF False]] show ?thesis
        by (simp split: prod.splits option.splits)
    qed
  qed
qed

lemma ttl_Evict_Some:
  assumes "ttl_inv p" and "ttl_Evict p = (p', Some k)"
  shows "ttl_inv p'" and "eff p' = AList.delete k (eff p)" and "k \<in> mkeys (eff p)"
    and "map_of (eff p) k' = Some e' \<Longrightarrow> \<exists>e \<le> e'. map_of (eff p) k = Some e"
  using ttl_Evict_props [OF assms(1)] assms(2) by (auto simp: mkeys_iff)

lemma ttl_Evict_None:
  assumes "ttl_inv p" and "ttl_Evict p = (p', None)"
  shows "ttl_inv p'" and "eff p' = []" and "eff p = []"
  using ttl_Evict_props [OF assms(1)] assms(2) by auto

interpretation ttl: tracking_policy ttl_Add ttl_Access ttl_Remove ttl_Evict "\<lambda>p. mkeys (eff p)"
  ttl_inv ttl_Len
proof unfold_locales
  fix p p' k
  assume p: "ttl_inv p"
  show "ttl_inv (ttl_Add k p) \<and> mkeys (eff (ttl_Add k p)) = insert k (mkeys (eff p))"
  proof (cases "map_of (eff p) k")
    case None
    then show ?thesis using ttl_Note_inv [OF p, of k 0] by (simp add: ttl_Add_def ttl_Note_def Let_def)
  next
    case (Some e)
    with p mkeys_Some [OF Some] show ?thesis by (simp add: ttl_Add_def insert_absorb)
  qed
  show "ttl_inv (ttl_Access k p) \<and> mkeys (eff (ttl_Access k p)) = mkeys (eff p)"
    using p by (simp add: ttl_Access_def)
  show "ttl_inv (ttl_Remove k p) \<and> mkeys (eff (ttl_Remove k p)) = mkeys (eff p) - {k}"
    using ttl_Remove_inv [OF p] by (simp add: ttl_Remove_def)
  show "ttl_Len p = card (mkeys (eff p))"
    using p by (simp add: ttl_Len_def ttl_inv_def card_mkeys)
  show "ttl_inv p' \<and> k \<in> mkeys (eff p) \<and> mkeys (eff p') = mkeys (eff p) - {k}"
    if "ttl_Evict p = (p', Some k)"
    using ttl_Evict_Some [OF p that] by simp
  show "ttl_inv p' \<and> mkeys (eff p) = {} \<and> mkeys (eff p') = {}"
    if "ttl_Evict p = (p', None)"
    using ttl_Evict_None [OF p that] by simp
qed simp

lemma ttl_Note_keys: "mkeys (eff (ttl_Note k e p)) = insert k (mkeys (eff p))"
  by (simp add: ttl_Note_def Let_def)

end
