(* ===== verification/Evict_Random.thy ===== *)
theory Evict_Random
  imports Policy_Spec
begin

section \<open>The random policy\<close>

text \<open>
  internal/eviction/random.go. The generator is a parameter of the model: \<open>rng\<close> is the sequence
  of the numbers it will draw, and \<open>Intn(n)\<close> is the next one reduced to \<open>[0, n)\<close>. Every sequence
  of results of \<open>Intn\<close> comes from some \<open>rng\<close>, so what holds for all \<open>rng\<close> holds whatever the
  generator draws.
\<close>

record random =
  rkeys :: "string list"
  ridx :: "(string \<times> nat) list"
  rng :: "nat \<Rightarrow> nat"

definition NewRandom :: "(nat \<Rightarrow> nat) \<Rightarrow> random" where
  "NewRandom r = \<lparr>rkeys = [], ridx = [], rng = r\<rparr>"

definition random_Add :: "string \<Rightarrow> random \<Rightarrow> random" where
  "random_Add key p =
     (case map_of (ridx p) key of
        Some _ \<Rightarrow> p
      | None \<Rightarrow> p\<lparr>ridx := AList.update key (length (rkeys p)) (ridx p), rkeys := rkeys p @ [key]\<rparr>)"

definition random_Access :: "string \<Rightarrow> random \<Rightarrow> random" where
  "random_Access key p = p"

definition random_Remove :: "string \<Rightarrow> random \<Rightarrow> random" where
  "random_Remove key p =
     (case map_of (ridx p) key of
        None \<Rightarrow> p
      | Some i \<Rightarrow>
          (let lst = length (rkeys p) - 1;
               p1 = (if i \<noteq> lst
                     then (let moved = rkeys p ! lst
                           in p\<lparr>rkeys := (rkeys p)[i := moved], ridx := AList.update moved i (ridx p)\<rparr>)
                     else p)
           in p1\<lparr>rkeys := take lst (rkeys p1), ridx := AList.delete key (ridx p1)\<rparr>))"

definition rng_Intn :: "nat \<Rightarrow> (nat \<Rightarrow> nat) \<Rightarrow> nat \<times> (nat \<Rightarrow> nat)" where
  "rng_Intn n r = (r 0 mod n, \<lambda>i. r (Suc i))"

definition random_Evict :: "random \<Rightarrow> random \<times> string option" where
  "random_Evict p =
     (if rkeys p = [] then (p, None)
      else
        (let (i, r) = rng_Intn (length (rkeys p)) (rng p);
             key = rkeys p ! i
         in (random_Remove key (p\<lparr>rng := r\<rparr>), Some key)))"

definition random_Len :: "random \<Rightarrow> nat" where
  "random_Len p = length (rkeys p)"

definition random_inv :: "random \<Rightarrow> bool" where
  "random_inv p \<longleftrightarrow> wf_map (ridx p) \<and>
     (\<forall>k i. map_of (ridx p) k = Some i \<longleftrightarrow> i < length (rkeys p) \<and> rkeys p ! i = k)"

lemma random_inv_New: "random_inv (NewRandom r)"
  by (simp add: random_inv_def NewRandom_def)

lemma random_distinct: "random_inv p \<Longrightarrow> distinct (rkeys p)"
  unfolding random_inv_def distinct_conv_nth by (metis option.inject)

lemma random_keys: "random_inv p \<Longrightarrow> mkeys (ridx p) = set (rkeys p)"
  by (rule set_eqI) (simp add: mkeys_iff random_inv_def in_set_conv_nth)

lemma random_inv_rng [simp]: "random_inv (p\<lparr>rng := r\<rparr>) = random_inv p"
  by (simp add: random_inv_def)

lemma random_Add_inv: "random_inv p \<Longrightarrow> random_inv (random_Add k p)"
proof (cases "map_of (ridx p) k")
  case None
  assume p: "random_inv p"
  with None have "k \<notin> set (rkeys p)"
    by (simp add: random_keys [symmetric] map_of_None_iff)
  with None p show ?thesis
    by (auto simp: random_inv_def random_Add_def nth_append less_Suc_eq in_set_conv_nth)
qed (simp add: random_Add_def)

text \<open>Removal moves the last key into the hole: the cells of the shortened slice, and the index of
  each key that is left.\<close>

lemma random_Remove_inv:
  assumes p: "random_inv p" and i: "map_of (ridx p) k = Some i"
  shows "random_inv (random_Remove k p)"
proof -
  define lst where "lst = length (rkeys p) - 1"
  define moved where "moved = rkeys p ! lst"
  define q where "q = random_Remove k p"
  have ki: "i < length (rkeys p)" "rkeys p ! i = k" using p i by (simp_all add: random_inv_def)
  then have lst: "lst < length (rkeys p)" "length (rkeys p) = Suc lst" by (simp_all add: lst_def)
  have idx: "map_of (ridx p) k' = Some j \<longleftrightarrow> j \<le> lst \<and> rkeys p ! j = k'" for k' j
    using p lst by (auto simp: random_inv_def)
  have keys: "length (rkeys q) = lst" "j < lst \<Longrightarrow> rkeys q ! j = (if j = i then moved else rkeys p ! j)" for j
    using i ki lst(2) by (auto simp: q_def random_Remove_def moved_def Let_def nth_list_update)
  have dist: "rkeys p ! a = rkeys p ! b \<longleftrightarrow> a = b" if "a \<le> lst" "b \<le> lst" for a b
    using that random_distinct [OF p] lst by (simp add: nth_eq_iff_index_eq)
  have qidx: "map_of (ridx q) k' = (if k' = k then None else if i \<noteq> lst \<and> k' = moved then Some i
      else map_of (ridx p) k')" for k'
    using i lst(2) by (auto simp: q_def random_Remove_def moved_def Let_def)
  have "map_of (ridx q) k' = Some j \<longleftrightarrow> j < lst \<and> rkeys q ! j = k'" for k' j
  proof (cases "j < lst")
    case True
    then show ?thesis
      using qidx [of k'] keys(2) [OF True] idx [of k' j] dist [of j i] dist [of lst i] dist [of j lst] ki lst
      by (auto simp: moved_def)
  next
    case False
    then show ?thesis
      using qidx [of k'] idx [of k' j] dist [of lst i] ki lst by (auto simp: moved_def)
  qed
  moreover have "wf_map (ridx q)"
    using p [unfolded random_inv_def] by (simp add: q_def random_Remove_def Let_def split: option.split)
  ultimately show ?thesis
    using keys(1) by (simp add: random_inv_def q_def [symmetric])
qed

lemma random_Remove_keys:
  assumes "random_inv p"
  shows "random_inv (random_Remove k p)" and "mkeys (ridx (random_Remove k p)) = mkeys (ridx p) - {k}"
proof -
  show "random_inv (random_Remove k p)"
    using assms random_Remove_inv [OF assms] by (cases "map_of (ridx p) k") (auto simp: random_Remove_def)
  have moved: "rkeys p ! (length (rkeys p) - 1) \<in> mkeys (ridx p)" if "map_of (ridx p) k = Some i" for i
    using that assms by (auto simp: random_keys) (auto simp: random_inv_def)
  show "mkeys (ridx (random_Remove k p)) = mkeys (ridx p) - {k}"
  proof (cases "map_of (ridx p) k")
    case None
    then have "random_Remove k p = p" by (simp add: random_Remove_def)
    with None show ?thesis by (simp add: map_of_None_iff)
  next
    case (Some i)
    with moved [OF Some] show ?thesis by (simp add: random_Remove_def Let_def insert_absorb)
  qed
qed

lemma random_Evict_Some:
  assumes p: "random_inv p" and ev: "random_Evict p = (p', Some k)"
  shows "random_inv p'" and "k \<in> mkeys (ridx p)" and "mkeys (ridx p') = mkeys (ridx p) - {k}"
proof -
  define r where "r = snd (rng_Intn (length (rkeys p)) (rng p))"
  have ne: "rkeys p \<noteq> []" and k: "k = rkeys p ! (rng p 0 mod length (rkeys p))"
    and p': "p' = random_Remove k (p\<lparr>rng := r\<rparr>)"
    using ev by (auto simp: random_Evict_def rng_Intn_def r_def Let_def split: if_splits)
  then show "k \<in> mkeys (ridx p)" using p by (simp add: random_keys)
  show "random_inv p'" and "mkeys (ridx p') = mkeys (ridx p) - {k}"
    using random_Remove_keys [of "p\<lparr>rng := r\<rparr>" k] p p' by simp_all
qed

interpretation random: tracking_policy random_Add random_Access random_Remove random_Evict
  "\<lambda>p. mkeys (ridx p)" random_inv random_Len
proof unfold_locales
  fix p p' k
  assume p: "random_inv p"
  have "mkeys (ridx (random_Add k p)) = insert k (mkeys (ridx p))"
    by (cases "map_of (ridx p) k") (simp_all add: random_Add_def insert_absorb mkeys_Some)
  then show "random_inv (random_Add k p) \<and> mkeys (ridx (random_Add k p)) = insert k (mkeys (ridx p))"
    using random_Add_inv [OF p] by simp
  show "random_inv (random_Access k p) \<and> mkeys (ridx (random_Access k p)) = mkeys (ridx p)"
    using p by (simp add: random_Access_def)
  show "random_inv (random_Remove k p) \<and> mkeys (ridx (random_Remove k p)) = mkeys (ridx p) - {k}"
    using random_Remove_keys [OF p] by simp
  show "random_Len p = card (mkeys (ridx p))"
    using random_distinct [OF p] by (simp add: random_Len_def random_keys [OF p] distinct_card)
  show "random_inv p' \<and> k \<in> mkeys (ridx p) \<and> mkeys (ridx p') = mkeys (ridx p) - {k}"
    if "random_Evict p = (p', Some k)"
    using random_Evict_Some [OF p that] by simp
  show "random_inv p' \<and> mkeys (ridx p) = {} \<and> mkeys (ridx p') = {}"
    if "random_Evict p = (p', None)"
    using that p random_keys [OF p] by (simp add: random_Evict_def Let_def case_prod_beta split: if_splits)
qed simp

end
