(* ===== verification/Policy.thy ===== *)
theory Policy
  imports Evict_Lists Evict_LFU Evict_TTL Evict_Random
begin

section \<open>The policy interface and its implementations\<close>

text \<open>
  internal/eviction/policy.go. A value of the interface type \<open>Policy\<close> is one of the six
  implementations, and a method call dispatches on it. The interface \<open>ExpiryAware\<close> is implemented
  by the TTL policy alone: \<open>Policy_Note\<close> is the call guarded by the type assertion. The
  interpretation \<open>pol\<close> shows the contract of \<open>Policy_Spec\<close> for the dispatching operations, and is
  what the shard rests on.
\<close>

datatype policy =
    PNoEviction noEviction
  | PLRU lru
  | PLFU lfu
  | PFIFO fifo
  | PRandom random
  | PTTL ttl

fun Policy_Add :: "string \<Rightarrow> policy \<Rightarrow> policy" where
  "Policy_Add k (PNoEviction p) = PNoEviction (ne_Add k p)"
| "Policy_Add k (PLRU p) = PLRU (lru_Add k p)"
| "Policy_Add k (PLFU p) = PLFU (lfu_Add k p)"
| "Policy_Add k (PFIFO p) = PFIFO (fifo_Add k p)"
| "Policy_Add k (PRandom p) = PRandom (random_Add k p)"
| "Policy_Add k (PTTL p) = PTTL (ttl_Add k p)"

fun Policy_Access :: "string \<Rightarrow> policy \<Rightarrow> policy" where
  "Policy_Access k (PNoEviction p) = PNoEviction (ne_Access k p)"
| "Policy_Access k (PLRU p) = PLRU (lru_Access k p)"
| "Policy_Access k (PLFU p) = PLFU (lfu_Access k p)"
| "Policy_Access k (PFIFO p) = PFIFO (fifo_Access k p)"
| "Policy_Access k (PRandom p) = PRandom (random_Access k p)"
| "Policy_Access k (PTTL p) = PTTL (ttl_Access k p)"

fun Policy_Remove :: "string \<Rightarrow> policy \<Rightarrow> policy" where
  "Policy_Remove k (PNoEviction p) = PNoEviction (ne_Remove k p)"
| "Policy_Remove k (PLRU p) = PLRU (lru_Remove k p)"
| "Policy_Remove k (PLFU p) = PLFU (lfu_Remove k p)"
| "Policy_Remove k (PFIFO p) = PFIFO (fifo_Remove k p)"
| "Policy_Remove k (PRandom p) = PRandom (random_Remove k p)"
| "Policy_Remove k (PTTL p) = PTTL (ttl_Remove k p)"

fun Policy_Evict :: "policy \<Rightarrow> policy \<times> string option" where
  "Policy_Evict (PNoEviction p) = map_prod PNoEviction id (ne_Evict p)"
| "Policy_Evict (PLRU p) = map_prod PLRU id (lru_Evict p)"
| "Policy_Evict (PLFU p) = map_prod PLFU id (lfu_Evict p)"
| "Policy_Evict (PFIFO p) = map_prod PFIFO id (fifo_Evict p)"
| "Policy_Evict (PRandom p) = map_prod PRandom id (random_Evict p)"
| "Policy_Evict (PTTL p) = map_prod PTTL id (ttl_Evict p)"

fun Policy_Len :: "policy \<Rightarrow> nat" where
  "Policy_Len (PNoEviction p) = ne_Len p"
| "Policy_Len (PLRU p) = lru_Len p"
| "Policy_Len (PLFU p) = lfu_Len p"
| "Policy_Len (PFIFO p) = fifo_Len p"
| "Policy_Len (PRandom p) = random_Len p"
| "Policy_Len (PTTL p) = ttl_Len p"

fun Policy_Name :: "policy \<Rightarrow> string" where
  "Policy_Name (PNoEviction p) = ''noeviction''"
| "Policy_Name (PLRU p) = ''lru''"
| "Policy_Name (PLFU p) = ''lfu''"
| "Policy_Name (PFIFO p) = ''fifo''"
| "Policy_Name (PRandom p) = ''random''"
| "Policy_Name (PTTL p) = ''ttl''"

text \<open>\<open>if s.expiryAware != nil { s.expiryAware.Note(key, expireAt) }\<close>\<close>

fun Policy_Note :: "string \<Rightarrow> int \<Rightarrow> policy \<Rightarrow> policy" where
  "Policy_Note k e (PTTL p) = PTTL (ttl_Note k e p)"
| "Policy_Note k e p = p"

text \<open>The factory: the second component is the error, which names the unknown kind. \<open>r\<close> is the
  sequence the random policy's generator draws.\<close>

definition Policy_New :: "(string \<Rightarrow> string) \<Rightarrow> (nat \<Rightarrow> nat) \<Rightarrow> string \<Rightarrow> policy \<times> string option" where
  "Policy_New uni r kind =
     (let k = to_lower uni kind in
      if k = ''noeviction'' \<or> k = '''' then (PNoEviction NewNoEviction, None)
      else if k = ''lru'' then (PLRU NewLRU, None)
      else if k = ''lfu'' then (PLFU NewLFU, None)
      else if k = ''fifo'' then (PFIFO NewFIFO, None)
      else if k = ''random'' then (PRandom (NewRandom r), None)
      else if k = ''ttl'' then (PTTL NewTTL, None)
      else (PNoEviction NewNoEviction, Some kind))"

text \<open>The keys a policy accounts for.\<close>

fun Policy_tracks :: "policy \<Rightarrow> string set \<Rightarrow> bool" where
  "Policy_tracks (PNoEviction p) S = ne_tracks p S"
| "Policy_tracks (PLRU p) S = (lru_inv p \<and> set (lru_order p) = S)"
| "Policy_tracks (PLFU p) S = (lfu_inv p \<and> mkeys (lfu_nodes p) = S)"
| "Policy_tracks (PFIFO p) S = (fifo_inv p \<and> set (fifo_order p) = S)"
| "Policy_tracks (PRandom p) S = (random_inv p \<and> mkeys (ridx p) = S)"
| "Policy_tracks (PTTL p) S = (ttl_inv p \<and> mkeys (eff p) = S)"

lemma Policy_New_tracks: "Policy_tracks (fst (Policy_New uni r kind)) {}"
  by (simp add: Policy_New_def Let_def ne_tracks_def NewNoEviction_def lru_inv_New fifo_inv_New lfu_inv_New
      ttl_inv_New random_inv_New)
    (simp add: NewLFU_def NewRandom_def NewTTL_def)

lemma map_prod_id_eq: "map_prod f id x = (y, v) \<longleftrightarrow> (\<exists>z. x = (z, v) \<and> y = f z)"
  by (cases x) auto

interpretation pol: policy_contract Policy_Add Policy_Access Policy_Remove Policy_Evict Policy_tracks
proof unfold_locales
  fix p p' S k
  assume p: "Policy_tracks p S"
  show "finite S"
    using p ne.tracks_finite by (cases p) auto
  show "Policy_tracks (Policy_Access k p) S"
    using p ne.tracks_access lru.tracks_access lfu.tracks_access fifo.tracks_access
      random.tracks_access ttl.tracks_access by (cases p) simp_all
  show "Policy_tracks (Policy_Add k p) (insert k S)" if "k \<notin> S"
    using p that ne.tracks_add lru.tracks_add lfu.tracks_add fifo.tracks_add
      random.tracks_add ttl.tracks_add by (cases p) simp_all
  show "Policy_tracks (Policy_Remove k p) (S - {k})" if "k \<in> S"
    using p that ne.tracks_rem lru.tracks_rem lfu.tracks_rem fifo.tracks_rem
      random.tracks_rem ttl.tracks_rem by (cases p) simp_all
  show "k \<in> S \<and> Policy_tracks p' (S - {k})" if "Policy_Evict p = (p', Some k)"
    using p that by (cases p) (auto simp: map_prod_id_eq ne_Evict_def dest: lru.keys_evict
        lfu.keys_evict fifo.keys_evict random.keys_evict ttl.keys_evict simp del: set_map)
  show "Policy_tracks p' S" if "Policy_Evict p = (p', None)"
    using p that by (cases p) (auto simp: map_prod_id_eq ne_Evict_def dest: lru.keys_evict_None
        lfu.keys_evict_None fifo.keys_evict_None random.keys_evict_None ttl.keys_evict_None)
qed

lemma Policy_Note_tracks: "Policy_tracks p S \<Longrightarrow> k \<in> S \<Longrightarrow> Policy_tracks (Policy_Note k e p) S"
  using ttl_Note_inv(1) by (cases p) (auto simp: ttl_Note_keys insert_absorb)

text \<open>The length a policy reports is the number of keys it accounts for.\<close>

lemma Policy_Len_tracks: "Policy_tracks p S \<Longrightarrow> Policy_Len p = card S"
  using lru.size_keys lfu.size_keys fifo.size_keys random.size_keys ttl.size_keys
  by (cases p) (auto simp: ne_tracks_def ne_Len_def)

text \<open>A policy other than \<open>noeviction\<close> refuses a victim only when it accounts for no key.\<close>

lemma Policy_Evict_None:
  assumes "Policy_tracks p S" and "Policy_Evict p = (p', None)"
  shows "S = {} \<or> (\<exists>q. p = PNoEviction q)"
  using assms by (cases p) (auto simp: map_prod_id_eq dest: lru.keys_evict_None lfu.keys_evict_None
      fifo.keys_evict_None random.keys_evict_None ttl.keys_evict_None)

end
