(* ===== verification/Policy_Props.thy ===== *)
theory Policy_Props
  imports Policy
begin

section \<open>What each eviction policy chooses\<close>

text \<open>
  The policies against reference models that know nothing of linked lists, buckets or heaps: LRU
  is a list of keys by recency, FIFO a list by arrival. For LFU and TTL, what the victim is among the
  keys that are accounted for.
\<close>

datatype pol_call = CallAdd string | CallAccess string | CallRemove string | CallEvict

fun policy_call :: "pol_call \<Rightarrow> policy \<Rightarrow> policy \<times> string option list" where
  "policy_call (CallAdd k) p = (Policy_Add k p, [])"
| "policy_call (CallAccess k) p = (Policy_Access k p, [])"
| "policy_call (CallRemove k) p = (Policy_Remove k p, [])"
| "policy_call CallEvict p = (let (q, v) = Policy_Evict p in (q, [v]))"

text \<open>The keys by recency of use, most recent first: the victim is the last one.\<close>

fun recency :: "pol_call \<Rightarrow> string list \<Rightarrow> string list \<times> string option list" where
  "recency (CallAdd k) xs = (k # removeAll k xs, [])"
| "recency (CallAccess k) xs = (if k \<in> set xs then k # removeAll k xs else xs, [])"
| "recency (CallRemove k) xs = (removeAll k xs, [])"
| "recency CallEvict xs = (if xs = [] then ([], [None]) else (butlast xs, [Some (last xs)]))"

text \<open>The keys by arrival: the victim is the first one, and accesses do not matter.\<close>

fun arrival :: "pol_call \<Rightarrow> string list \<Rightarrow> string list \<times> string option list" where
  "arrival (CallAdd k) xs = (if k \<in> set xs then xs else xs @ [k], [])"
| "arrival (CallAccess k) xs = (xs, [])"
| "arrival (CallRemove k) xs = (removeAll k xs, [])"
| "arrival CallEvict xs = (case xs of [] \<Rightarrow> ([], [None]) | x # ys \<Rightarrow> (ys, [Some x]))"

text \<open>The victims of a sequence of calls.\<close>

fun victims :: "('c \<Rightarrow> 's \<Rightarrow> 's \<times> string option list) \<Rightarrow> 'c list \<Rightarrow> 's \<Rightarrow> string option list" where
  "victims f [] s = []"
| "victims f (x # xs) s = (let (t, vs) = f x s in vs @ victims f xs t)"

lemma lru_call:
  assumes "lru_inv p"
  shows "\<exists>q. policy_call x (PLRU p) = (PLRU q, snd (recency x (lru_order p))) \<and> lru_inv q \<and>
    lru_order q = fst (recency x (lru_order p))"
proof (cases x)
  case CallEvict
  obtain q v where ev: "lru_Evict p = (q, v)" by (cases "lru_Evict p")
  show ?thesis
  proof (cases v)
    case None
    with ev have "lru_order p = []" "q = p" using lru_Evict_None by auto
    with ev None CallEvict assms show ?thesis by simp
  next
    case (Some k)
    note e = lru_Evict_Some [OF assms ev [unfolded Some]]
    with ev Some CallEvict show ?thesis by simp
  qed
qed (use assms lru_Add_order lru_Access_order lru_Remove_order in simp_all)

lemma lru_victims: "lru_inv p \<Longrightarrow> victims policy_call xs (PLRU p) = victims recency xs (lru_order p)"
proof (induction xs arbitrary: p)
  case (Cons x xs)
  obtain q where "policy_call x (PLRU p) = (PLRU q, snd (recency x (lru_order p)))" "lru_inv q"
      "lru_order q = fst (recency x (lru_order p))"
    using lru_call [OF Cons.prems] by blast
  with Cons.IH [of q] show ?case by (simp add: case_prod_unfold Let_def)
qed simp

lemma fifo_call:
  assumes "fifo_inv p"
  shows "\<exists>q. policy_call x (PFIFO p) = (PFIFO q, snd (arrival x (fifo_order p))) \<and> fifo_inv q \<and>
    fifo_order q = fst (arrival x (fifo_order p))"
proof (cases x)
  case CallEvict
  obtain q v where ev: "fifo_Evict p = (q, v)" by (cases "fifo_Evict p")
  show ?thesis
  proof (cases v)
    case None
    with ev have "fifo_order p = []" "q = p" using fifo_Evict_None by auto
    with ev None CallEvict assms show ?thesis by simp
  next
    case (Some k)
    note e = fifo_Evict_Some [OF assms ev [unfolded Some]]
    with ev Some CallEvict show ?thesis by simp
  qed
qed (use assms fifo_Add_order fifo_Remove_order in \<open>simp_all add: fifo_Access_def\<close>)

lemma fifo_victims: "fifo_inv p \<Longrightarrow> victims policy_call xs (PFIFO p) = victims arrival xs (fifo_order p)"
proof (induction xs arbitrary: p)
  case (Cons x xs)
  obtain q where "policy_call x (PFIFO p) = (PFIFO q, snd (arrival x (fifo_order p)))" "fifo_inv q"
      "fifo_order q = fst (arrival x (fifo_order p))"
    using fifo_call [OF Cons.prems] by blast
  with Cons.IH [of q] show ?case by (simp add: case_prod_unfold Let_def)
qed simp

subsection \<open>Properties\<close>

text \<open>C18: LRU evicts the least recently used key. For every sequence of calls, the linked list and the map of
  the LRU policy give the victims that the list of keys by recency gives.\<close>

theorem lru_is_recency: "victims policy_call xs (PLRU NewLRU) = victims recency xs []"
  using lru_victims [OF lru_inv_New(1)] by (simp add: lru_inv_New(2))

text \<open>FIFO evicts the oldest key. For every sequence of calls it gives the victims that the list of keys
  by arrival gives; accesses do not change the order.\<close>

theorem fifo_is_arrival: "victims policy_call xs (PFIFO NewFIFO) = victims arrival xs []"
  using fifo_victims [OF fifo_inv_New(1)] by (simp add: fifo_inv_New(2))




text \<open>C20: TTL evicts a key whose expiry is the nearest among all keys it accounts for, whatever stale entries
  the heap still holds, and keeps the other keys and their expiries.\<close>

theorem ttl_victim:
  assumes "ttl_inv p" and "ttl_Evict p = (q, Some k)"
  shows "(\<forall>k' e'. map_of (eff p) k' = Some e' \<longrightarrow> (\<exists>e \<le> e'. map_of (eff p) k = Some e)) \<and>
    ttl_inv q \<and> eff q = AList.delete k (eff p) \<and> k \<in> mkeys (eff p)"
  by (intro conjI allI impI ttl_Evict_Some [OF assms])

lemma ex_ttl_inv: "ttl_inv (ttl_Note ''b'' 5 (ttl_Add ''b'' (ttl_Note ''a'' 7 (ttl_Add ''a'' NewTTL))))"
  by (intro ttl_Note_inv conjunct1 [OF ttl.keys_add] ttl_inv_New)

theorem ttl_victim_witness:
  "\<exists>q. ttl_Evict (ttl_Note ''b'' 5 (ttl_Add ''b'' (ttl_Note ''a'' 7 (ttl_Add ''a'' NewTTL)))) = (q, Some ''b'') \<and>
     ''b'' \<in> mkeys (eff (ttl_Note ''b'' 5 (ttl_Add ''b'' (ttl_Note ''a'' 7 (ttl_Add ''a'' NewTTL)))))"
proof -
  let ?p = "ttl_Note ''b'' 5 (ttl_Add ''b'' (ttl_Note ''a'' 7 (ttl_Add ''a'' NewTTL)))"
  have v: "snd (ttl_Evict ?p) = Some ''b''" by code_simp
  obtain q where q: "ttl_Evict ?p = (q, Some ''b'')" using v by (cases "ttl_Evict ?p") simp
  have "''b'' \<in> mkeys (eff ?p)" using ttl_victim [OF ex_ttl_inv q] by (elim conjE)
  then show ?thesis using q by (intro exI [of _ q] conjI)
qed

text \<open>The contract of the interface. A policy that accounts for a set of keys accounts for the right set
  after every call, evicts only a key of the set, reports the size of the set, and refuses a victim only when
  the set is empty or the policy is the one that never evicts.\<close>

theorem policy_interface:
  assumes "Policy_tracks p S"
  shows "Policy_Len p = card S \<and> Policy_tracks (Policy_Access k p) S \<and>
    (k \<notin> S \<longrightarrow> Policy_tracks (Policy_Add k p) (insert k S)) \<and>
    (k \<in> S \<longrightarrow> Policy_tracks (Policy_Remove k p) (S - {k}) \<and> Policy_tracks (Policy_Note k e p) S) \<and>
    (\<forall>q v. Policy_Evict p = (q, Some v) \<longrightarrow> v \<in> S \<and> Policy_tracks q (S - {v})) \<and>
    (\<forall>q. Policy_Evict p = (q, None) \<longrightarrow> Policy_tracks q S \<and> (S = {} \<or> (\<exists>n. p = PNoEviction n)))"
  using Policy_Len_tracks [OF assms] pol.tracks_access [OF assms, of k] pol.tracks_add [OF assms, of k]
    pol.tracks_rem [OF assms, of k] Policy_Note_tracks [OF assms, of k e]
    pol.evict_Some [OF assms] pol.evict_None [OF assms] Policy_Evict_None [OF assms] by simp

theorem policy_interface_witness:
  "Policy_tracks (Policy_Add ''a'' (fst (Policy_New id (\<lambda>_. 0) ''random''))) {''a''}"
proof -
  have "Policy_tracks (fst (Policy_New id (\<lambda>_. 0) ''random'')) {}" by (rule Policy_New_tracks)
  from policy_interface [OF this, of "''a''" 0] show ?thesis by simp
qed

end
