(* ===== verification/Shard.thy ===== *)
theory Shard
  imports Policy
begin

section \<open>Items, events and the shard\<close>

text \<open>
  internal/cache/item.go, event.go and shard.go. A shard is a map of items, an eviction policy and
  the accounted memory. Each method runs under the shard's mutex, so it is one atomic operation:
  a function from the shard to the new shard, the method's results and the list of events it
  emits, in order. Where the code ranges over the map of items, whose order Go leaves open, the
  operation takes the order of the visit as an argument.
\<close>

subsection \<open>Items\<close>

record item =
  it_value :: bytes
  it_expireAt :: int

definition item_expired :: "item \<Rightarrow> int \<Rightarrow> bool" where
  "item_expired it now \<longleftrightarrow> it_expireAt it \<noteq> 0 \<and> now \<ge> it_expireAt it"

definition entryOverhead :: int where
  "entryOverhead = 64"

definition approxSize :: "string \<Rightarrow> bytes \<Rightarrow> int" where
  "approxSize key value = int (length key) + int (length (str_of value)) + entryOverhead"

subsection \<open>Events\<close>

type_synonym op = u8

definition OpSet :: op where "OpSet = 0"
definition OpDel :: op where "OpDel = 1"
definition OpExpire :: op where "OpExpire = 2"
definition OpFlush :: op where "OpFlush = 3"

lemmas op_defs = OpSet_def OpDel_def OpExpire_def OpFlush_def

definition Op_String :: "op \<Rightarrow> string" where
  "Op_String o' =
     (if o' = OpSet then ''SET'' else if o' = OpDel then ''DEL''
      else if o' = OpExpire then ''EXPIRE'' else if o' = OpFlush then ''FLUSH'' else ''UNKNOWN'')"

record event =
  ev_Seq :: u64
  ev_Op :: op
  ev_Key :: string
  ev_Value :: bytes
  ev_ExpireAt :: int

text \<open>The event literals of shard.go; a field that the literal leaves out is zero.\<close>

definition ev_set :: "string \<Rightarrow> bytes \<Rightarrow> int \<Rightarrow> event" where
  "ev_set key value e = \<lparr>ev_Seq = 0, ev_Op = OpSet, ev_Key = key, ev_Value = value, ev_ExpireAt = e\<rparr>"

definition ev_del :: "string \<Rightarrow> event" where
  "ev_del key = \<lparr>ev_Seq = 0, ev_Op = OpDel, ev_Key = key, ev_Value = None, ev_ExpireAt = 0\<rparr>"

definition ev_expire :: "string \<Rightarrow> int \<Rightarrow> event" where
  "ev_expire key e = \<lparr>ev_Seq = 0, ev_Op = OpExpire, ev_Key = key, ev_Value = None, ev_ExpireAt = e\<rparr>"

definition ev_flush :: event where
  "ev_flush = \<lparr>ev_Seq = 0, ev_Op = OpFlush, ev_Key = '''', ev_Value = None, ev_ExpireAt = 0\<rparr>"

lemmas ev_defs = ev_set_def ev_del_def ev_expire_def ev_flush_def

subsection \<open>The shard\<close>

record shard =
  sh_items :: "(string \<times> item) list"
  sh_policy :: policy
  sh_mem :: int
  sh_maxEntries :: int
  sh_maxMemory :: int

definition newShard :: "policy \<Rightarrow> int \<Rightarrow> int \<Rightarrow> shard" where
  "newShard pol maxE maxM =
     \<lparr>sh_items = [], sh_policy = pol, sh_mem = 0, sh_maxEntries = maxE, sh_maxMemory = maxM\<rparr>"

definition clamp0 :: "int \<Rightarrow> int" where
  "clamp0 m = (if m < 0 then 0 else m)"

definition removeLocked :: "string \<Rightarrow> item \<Rightarrow> shard \<Rightarrow> shard" where
  "removeLocked key it s =
     s\<lparr>sh_items := AList.delete key (sh_items s), sh_policy := Policy_Remove key (sh_policy s),
       sh_mem := clamp0 (sh_mem s - approxSize key (it_value it))\<rparr>"

definition setLocked :: "string \<Rightarrow> bytes \<Rightarrow> int \<Rightarrow> shard \<Rightarrow> shard" where
  "setLocked key value expireAt s =
     (let v = clone_bytes value;
          it = \<lparr>it_value = v, it_expireAt = expireAt\<rparr>;
          s1 = (case map_of (sh_items s) key of
                  Some old \<Rightarrow>
                    s\<lparr>sh_mem := sh_mem s + (int (length (str_of v)) - int (length (str_of (it_value old)))),
                      sh_items := AList.update key it (sh_items s),
                      sh_policy := Policy_Access key (sh_policy s)\<rparr>
                | None \<Rightarrow>
                    s\<lparr>sh_items := AList.update key it (sh_items s),
                      sh_mem := sh_mem s + approxSize key v,
                      sh_policy := Policy_Add key (sh_policy s)\<rparr>)
      in s1\<lparr>sh_policy := Policy_Note key expireAt (sh_policy s1)\<rparr>)"

definition overCapacityLocked :: "shard \<Rightarrow> bool" where
  "overCapacityLocked s \<longleftrightarrow>
     (sh_maxEntries s > 0 \<and> int (length (sh_items s)) > sh_maxEntries s) \<or>
     (sh_maxMemory s > 0 \<and> sh_mem s > sh_maxMemory s)"

text \<open>The loop of \<open>enforceLimitsLocked\<close>, with fuel: \<^const>\<open>None\<close> is running out of it. One unit per
  key that the policy accounts for, and one for the last test, is enough (\<open>enforce_terminates\<close>).\<close>

fun enforce_loop :: "nat \<Rightarrow> string \<Rightarrow> shard \<Rightarrow> string list \<Rightarrow> (shard \<times> string list) option" where
  "enforce_loop 0 protected s evicted = None"
| "enforce_loop (Suc n) protected s evicted =
     (if \<not> overCapacityLocked s then Some (s, evicted)
      else
        (case Policy_Evict (sh_policy s) of
           (p, None) \<Rightarrow> Some (s\<lparr>sh_policy := p\<rparr>, evicted)
         | (p, Some victim) \<Rightarrow>
             if victim = protected then Some (s\<lparr>sh_policy := Policy_Add victim p\<rparr>, evicted)
             else
               (case map_of (sh_items s) victim of
                  Some it \<Rightarrow>
                    enforce_loop n protected
                      (s\<lparr>sh_policy := p, sh_items := AList.delete victim (sh_items s),
                         sh_mem := clamp0 (sh_mem s - approxSize victim (it_value it))\<rparr>)
                      (evicted @ [victim])
                | None \<Rightarrow> enforce_loop n protected (s\<lparr>sh_policy := p\<rparr>) evicted)))"

definition enforceLimitsLocked :: "string \<Rightarrow> shard \<Rightarrow> shard \<times> string list" where
  "enforceLimitsLocked protected s =
     (case enforce_loop (Suc (Policy_Len (sh_policy s))) protected s [] of
        Some r \<Rightarrow> r
      | None \<Rightarrow> (s, []))"

subsection \<open>The methods\<close>

definition shard_get :: "string \<Rightarrow> int \<Rightarrow> shard \<Rightarrow> shard \<times> (bytes \<times> bool \<times> string) \<times> event list" where
  "shard_get key now s =
     (case map_of (sh_items s) key of
        None \<Rightarrow> (s, (None, False, ''''), [])
      | Some it \<Rightarrow>
          if item_expired it now then (removeLocked key it s, (None, False, key), [ev_del key])
          else (s\<lparr>sh_policy := Policy_Access key (sh_policy s)\<rparr>, (it_value it, True, ''''), []))"

definition shard_set :: "string \<Rightarrow> bytes \<Rightarrow> int \<Rightarrow> shard \<Rightarrow> shard \<times> string list \<times> event list" where
  "shard_set key value expireAt s =
     (let (s1, evicted) = enforceLimitsLocked key (setLocked key value expireAt s)
      in (s1, evicted, ev_set key value expireAt # map ev_del evicted))"

definition shard_del :: "string \<Rightarrow> shard \<Rightarrow> shard \<times> bool \<times> event list" where
  "shard_del key s =
     (case map_of (sh_items s) key of
        None \<Rightarrow> (s, False, [])
      | Some it \<Rightarrow> (removeLocked key it s, True, [ev_del key]))"

definition shard_exists :: "string \<Rightarrow> int \<Rightarrow> shard \<Rightarrow> shard \<times> (bool \<times> string) \<times> event list" where
  "shard_exists key now s =
     (case map_of (sh_items s) key of
        None \<Rightarrow> (s, (False, ''''), [])
      | Some it \<Rightarrow>
          if item_expired it now then (removeLocked key it s, (False, key), [ev_del key])
          else (s, (True, ''''), []))"

definition shard_expire :: "string \<Rightarrow> int \<Rightarrow> int \<Rightarrow> shard \<Rightarrow> shard \<times> (bool \<times> string) \<times> event list" where
  "shard_expire key expireAt now s =
     (case map_of (sh_items s) key of
        None \<Rightarrow> (s, (False, ''''), [])
      | Some it \<Rightarrow>
          if item_expired it now then (removeLocked key it s, (False, key), [ev_del key])
          else
            (s\<lparr>sh_items := AList.update key (it\<lparr>it_expireAt := expireAt\<rparr>) (sh_items s),
               sh_policy := Policy_Note key expireAt (sh_policy s)\<rparr>, (True, ''''), [ev_expire key expireAt]))"

definition shard_ttl :: "string \<Rightarrow> int \<Rightarrow> shard \<Rightarrow> shard \<times> (int \<times> bool \<times> string) \<times> event list" where
  "shard_ttl key now s =
     (case map_of (sh_items s) key of
        None \<Rightarrow> (s, (0, False, ''''), [])
      | Some it \<Rightarrow>
          if item_expired it now then (removeLocked key it s, (0, False, key), [ev_del key])
          else (s, (it_expireAt it, True, ''''), []))"

datatype cache_error = ErrNotInteger | ErrClosed

definition shard_incrBy ::
  "string \<Rightarrow> int \<Rightarrow> int \<Rightarrow> shard \<Rightarrow> shard \<times> (cache_error + int \<times> string list) \<times> event list" where
  "shard_incrBy key delta now s =
     (let go = (\<lambda>base s0.
            let newVal = wrap64 (base + delta);
                nv = Some (format_int newVal);
                (s1, evicted) = enforceLimitsLocked key (setLocked key nv 0 s0)
            in (s1, Inr (newVal, evicted), ev_set key nv 0 # map ev_del evicted))
      in case map_of (sh_items s) key of
           None \<Rightarrow> go 0 s
         | Some it \<Rightarrow>
             if item_expired it now then go 0 (removeLocked key it s)
             else
               (case parse_int (str_of (it_value it)) of
                  None \<Rightarrow> (s, Inl ErrNotInteger, [])
                | Some base \<Rightarrow> go base s))"

text \<open>\<open>order\<close> lists the keys of the items in the order in which the range loop visits them.\<close>

definition shard_keys :: "string list \<Rightarrow> int \<Rightarrow> shard \<Rightarrow> string list" where
  "shard_keys order now s =
     filter (\<lambda>k. case map_of (sh_items s) k of None \<Rightarrow> False | Some it \<Rightarrow> \<not> item_expired it now) order"

definition flushSilent :: "string list \<Rightarrow> shard \<Rightarrow> shard" where
  "flushSilent order s =
     s\<lparr>sh_policy := fold Policy_Remove order (sh_policy s), sh_items := [], sh_mem := 0\<rparr>"

definition shard_flush :: "string list \<Rightarrow> shard \<Rightarrow> shard \<times> event list" where
  "shard_flush order s = (flushSilent order s, [ev_flush])"

fun sweep_loop :: "int \<Rightarrow> string list \<Rightarrow> shard \<Rightarrow> shard \<times> string list" where
  "sweep_loop now [] s = (s, [])"
| "sweep_loop now (k # ks) s =
     (case map_of (sh_items s) k of
        None \<Rightarrow> sweep_loop now ks s
      | Some it \<Rightarrow>
          if item_expired it now
          then (let (s1, expired) = sweep_loop now ks (removeLocked k it s) in (s1, k # expired))
          else sweep_loop now ks s)"

definition sweepExpired :: "string list \<Rightarrow> int \<Rightarrow> nat \<Rightarrow> shard \<Rightarrow> shard \<times> string list \<times> event list" where
  "sweepExpired order now sample s =
     (let (s1, expired) = sweep_loop now (take sample order) s in (s1, expired, map ev_del expired))"

definition shard_len :: "shard \<Rightarrow> nat" where
  "shard_len s = length (sh_items s)"

definition memBytes :: "shard \<Rightarrow> int" where
  "memBytes s = sh_mem s"

text \<open>\<open>export\<close> calls its function on each live item in turn: the list of the calls' arguments.\<close>

definition shard_export :: "string list \<Rightarrow> int \<Rightarrow> shard \<Rightarrow> (string \<times> bytes \<times> int) list" where
  "shard_export order now s =
     concat (map (\<lambda>k. case map_of (sh_items s) k of
         None \<Rightarrow> []
       | Some it \<Rightarrow> if item_expired it now then [] else [(k, it_value it, it_expireAt it)]) order)"

definition applySet :: "string \<Rightarrow> bytes \<Rightarrow> int \<Rightarrow> shard \<Rightarrow> shard" where
  "applySet key value expireAt s = fst (enforceLimitsLocked key (setLocked key value expireAt s))"

definition applyDel :: "string \<Rightarrow> shard \<Rightarrow> shard" where
  "applyDel key s =
     (case map_of (sh_items s) key of None \<Rightarrow> s | Some it \<Rightarrow> removeLocked key it s)"

definition applyExpire :: "string \<Rightarrow> int \<Rightarrow> shard \<Rightarrow> shard" where
  "applyExpire key expireAt s =
     (case map_of (sh_items s) key of
        None \<Rightarrow> s
      | Some it \<Rightarrow>
          s\<lparr>sh_items := AList.update key (it\<lparr>it_expireAt := expireAt\<rparr>) (sh_items s),
            sh_policy := Policy_Note key expireAt (sh_policy s)\<rparr>)"

end
