(* ===== verification/Shard_Inv.thy ===== *)
theory Shard_Inv
  imports Shard
begin

section \<open>The shard's invariant and the effect of each method\<close>

text \<open>
  The invariant of a shard: one item per key, the policy accounts for exactly the stored keys, the
  memory counter is the sum of the sizes of the items, and stored values are the normalised
  copies that \<open>setLocked\<close> makes. Every method keeps it, the eviction loop ends within its fuel, and the
  events a method emits describe exactly what it did to the items.
\<close>

definition items_size :: "(string \<times> item) list \<Rightarrow> int" where
  "items_size = msum (\<lambda>k it. approxSize k (it_value it))"

definition shard_inv :: "shard \<Rightarrow> bool" where
  "shard_inv s \<longleftrightarrow> wf_map (sh_items s) \<and> Policy_tracks (sh_policy s) (mkeys (sh_items s)) \<and>
     sh_mem s = items_size (sh_items s) \<and>
     (\<forall>k it. map_of (sh_items s) k = Some it \<longrightarrow> clone_bytes (it_value it) = it_value it)"

text \<open>What a consumer of the events does with one: the abstract meaning of \<open>ApplyEvent\<close>, on a map
  without capacity limits.\<close>

type_synonym kv = "string \<Rightarrow> item option"

definition apply_ev :: "event \<Rightarrow> kv \<Rightarrow> kv" where
  "apply_ev ev m =
     (if ev_Op ev = OpSet then
        m(ev_Key ev \<mapsto> \<lparr>it_value = clone_bytes (ev_Value ev), it_expireAt = ev_ExpireAt ev\<rparr>)
      else if ev_Op ev = OpDel then m(ev_Key ev := None)
      else if ev_Op ev = OpExpire then
        (case m (ev_Key ev) of
           None \<Rightarrow> m
         | Some it \<Rightarrow> m(ev_Key ev \<mapsto> it\<lparr>it_expireAt := ev_ExpireAt ev\<rparr>))
      else if ev_Op ev = OpFlush then Map.empty
      else m)"

lemma apply_ev_simps [simp]:
  "apply_ev (ev_set k v e) m = m(k \<mapsto> \<lparr>it_value = clone_bytes v, it_expireAt = e\<rparr>)"
  "apply_ev (ev_del k) m = m(k := None)"
  "apply_ev (ev_expire k e) m =
     (case m k of None \<Rightarrow> m | Some it \<Rightarrow> m(k \<mapsto> it\<lparr>it_expireAt := e\<rparr>))"
  "apply_ev ev_flush m = Map.empty"
  by (simp_all add: apply_ev_def ev_defs op_defs split: option.split)

lemma apply_dels: "fold apply_ev (map ev_del ks) m = m |` (- set ks)"
  by (induction ks arbitrary: m) (auto simp: fun_eq_iff restrict_map_def)

lemma approxSize_pos: "0 < approxSize k v"
  by (simp add: approxSize_def entryOverhead_def)

lemma approxSize_nonneg [simp]: "0 \<le> approxSize k v"
  by (simp add: less_imp_le approxSize_pos)

lemma items_size_delete:
  "wf_map m \<Longrightarrow> map_of m k = Some it \<Longrightarrow>
     clamp0 (items_size m - approxSize k (it_value it)) = items_size (AList.delete k m)"
  using msum_ge [of "\<lambda>k it. approxSize k (it_value it)" m k it]
  by (simp add: items_size_def msum_delete_in clamp0_def)

lemma shard_inv_new: "Policy_tracks pol {} \<Longrightarrow> shard_inv (newShard pol maxE maxM)"
  by (simp add: shard_inv_def newShard_def items_size_def)

subsection \<open>Removing and storing an item\<close>

lemma removeLocked_inv:
  assumes "shard_inv s" and "map_of (sh_items s) k = Some it"
  shows "shard_inv (removeLocked k it s)"
  using assms mkeys_Some [OF assms(2)]
  by (auto simp: shard_inv_def removeLocked_def items_size_delete pol.tracks_rem split: if_splits)

lemma removeLocked_items [simp]: "sh_items (removeLocked k it s) = AList.delete k (sh_items s)"
  by (simp add: removeLocked_def)

lemma removeLocked_limits [simp]:
  "sh_maxEntries (removeLocked k it s) = sh_maxEntries s" "sh_maxMemory (removeLocked k it s) = sh_maxMemory s"
  "sh_policy (removeLocked k it s) = Policy_Remove k (sh_policy s)"
  by (simp_all add: removeLocked_def)

lemma setLocked_items [simp]:
  "sh_items (setLocked k v e s) = AList.update k \<lparr>it_value = clone_bytes v, it_expireAt = e\<rparr> (sh_items s)"
  by (simp add: setLocked_def Let_def split: option.split)

lemma setLocked_limits [simp]:
  "sh_maxEntries (setLocked k v e s) = sh_maxEntries s" "sh_maxMemory (setLocked k v e s) = sh_maxMemory s"
  by (simp_all add: setLocked_def Let_def split: option.split)

lemma setLocked_policy:
  "sh_policy (setLocked k v e s) = Policy_Note k e
     ((if k \<in> mkeys (sh_items s) then Policy_Access else Policy_Add) k (sh_policy s))"
  by (auto simp: setLocked_def Let_def map_of_None_iff dest: mkeys_Some split: option.split)

lemma setLocked_inv:
  assumes s: "shard_inv s"
  shows "shard_inv (setLocked k v e s)"
proof -
  let ?t = "setLocked k v e s"
  have tracks: "Policy_tracks (sh_policy s) (mkeys (sh_items s))" using s by (simp add: shard_inv_def)
  have "Policy_tracks (sh_policy ?t) (mkeys (sh_items ?t))"
    using tracks pol.tracks_access [OF tracks] pol.tracks_add [OF tracks]
    by (cases "k \<in> mkeys (sh_items s)") (simp_all add: setLocked_policy Policy_Note_tracks insert_absorb)
  moreover have "sh_mem ?t = items_size (sh_items ?t)"
  proof (cases "map_of (sh_items s) k")
    case None
    then have "k \<notin> mkeys (sh_items s)" by (simp add: map_of_None_iff)
    with None s show ?thesis
      by (simp add: setLocked_def shard_inv_def items_size_def Let_def)
  next
    case (Some old)
    with s show ?thesis
      by (simp add: setLocked_def shard_inv_def items_size_def msum_update_in Let_def)
        (simp add: approxSize_def)
  qed
  ultimately show ?thesis
    using s by (simp add: shard_inv_def)
qed

lemma shard_inv_access: "shard_inv s \<Longrightarrow> shard_inv (s\<lparr>sh_policy := Policy_Access k (sh_policy s)\<rparr>)"
  by (simp add: shard_inv_def pol.tracks_access)

lemma shard_inv_expire:
  assumes "shard_inv s" and "map_of (sh_items s) k = Some it"
  shows "shard_inv (s\<lparr>sh_items := AList.update k (it\<lparr>it_expireAt := e\<rparr>) (sh_items s),
           sh_policy := Policy_Note k e (sh_policy s)\<rparr>)"
  using assms mkeys_Some [OF assms(2)]
  by (auto simp: shard_inv_def items_size_def msum_update_in Policy_Note_tracks insert_absorb)

lemma shard_inv_flush:
  assumes "shard_inv s" and "distinct order" and "set order = mkeys (sh_items s)"
  shows "shard_inv (flushSilent order s)"
  using assms pol.tracks_rem_all [of "sh_policy s" "mkeys (sh_items s)" order]
  by (simp add: shard_inv_def flushSilent_def items_size_def)

subsection \<open>The eviction loop\<close>

text \<open>The loop ends within its fuel; it drops distinct keys, never the protected one, and changes
  no other item.\<close>

definition enforce_result :: "string \<Rightarrow> shard \<Rightarrow> shard \<Rightarrow> string list \<Rightarrow> bool" where
  "enforce_result prot s t new \<longleftrightarrow>
     shard_inv t \<and> distinct new \<and> prot \<notin> set new \<and> set new \<subseteq> mkeys (sh_items s) \<and>
     map_of (sh_items t) = map_of (sh_items s) |` (- set new) \<and>
     sh_maxEntries t = sh_maxEntries s \<and> sh_maxMemory t = sh_maxMemory s"

lemma enforce_result_refl:
  "shard_inv (s\<lparr>sh_policy := p\<rparr>) \<Longrightarrow> enforce_result prot s (s\<lparr>sh_policy := p\<rparr>) []"
  by (simp add: enforce_result_def restrict_map_def)

lemma shard_inv_evict:
  assumes s: "shard_inv s" and ev: "Policy_Evict (sh_policy s) = (p, Some v)"
  obtains it where "map_of (sh_items s) v = Some it"
    and "shard_inv (s\<lparr>sh_policy := p, sh_items := AList.delete v (sh_items s),
                       sh_mem := clamp0 (sh_mem s - approxSize v (it_value it))\<rparr>)"
    and "Policy_Len p < Policy_Len (sh_policy s)"
proof -
  have tracks: "Policy_tracks (sh_policy s) (mkeys (sh_items s))" using s by (simp add: shard_inv_def)
  have v: "v \<in> mkeys (sh_items s)" "Policy_tracks p (mkeys (sh_items s) - {v})"
    using pol.evict_Some [OF tracks ev] by auto
  then obtain it where it: "map_of (sh_items s) v = Some it" by (auto simp: mkeys_iff)
  moreover have "shard_inv (s\<lparr>sh_policy := p, sh_items := AList.delete v (sh_items s),
      sh_mem := clamp0 (sh_mem s - approxSize v (it_value it))\<rparr>)"
    using s v it by (auto simp: shard_inv_def items_size_delete split: if_splits)
  moreover have "Policy_Len p < Policy_Len (sh_policy s)"
    using Policy_Len_tracks [OF tracks] Policy_Len_tracks [OF v(2)] v(1)
    by (metis List.finite_set card_Diff1_less finite_imageI)
  ultimately show ?thesis using that by blast
qed

lemma enforce_terminates:
  "shard_inv s \<Longrightarrow> Policy_Len (sh_policy s) < n \<Longrightarrow>
     \<exists>t new. enforce_loop n prot s acc = Some (t, acc @ new) \<and> enforce_result prot s t new"
proof (induction n arbitrary: s acc)
  case (Suc n)
  have tracks: "Policy_tracks (sh_policy s) (mkeys (sh_items s))"
    using Suc.prems(1) by (simp add: shard_inv_def)
  show ?case
  proof (cases "overCapacityLocked s")
    case False
    then show ?thesis using Suc.prems enforce_result_refl [where s = s and p = "sh_policy s" and prot = prot] by simp
  next
    case over: True
    obtain p v where ev: "Policy_Evict (sh_policy s) = (p, v)" by (cases "Policy_Evict (sh_policy s)")
    show ?thesis
    proof (cases v)
      case None
      then have "shard_inv (s\<lparr>sh_policy := p\<rparr>)"
        using Suc.prems ev pol.evict_None [OF tracks] by (simp add: shard_inv_def)
      with over ev None show ?thesis
        using enforce_result_refl [where s = s and p = p and prot = prot] by simp
    next
      case (Some k)
      show ?thesis
      proof (cases "k = prot")
        case True
        then have "shard_inv (s\<lparr>sh_policy := Policy_Add k p\<rparr>)"
          using Suc.prems ev Some pol.tracks_put_back [OF tracks] by (simp add: shard_inv_def)
        with over ev Some True show ?thesis
          using enforce_result_refl [where s = s and p = "Policy_Add k p" and prot = prot] by simp
      next
        case False
        obtain it where it: "map_of (sh_items s) k = Some it"
          and inv: "shard_inv (s\<lparr>sh_policy := p, sh_items := AList.delete k (sh_items s),
                       sh_mem := clamp0 (sh_mem s - approxSize k (it_value it))\<rparr>)" (is "shard_inv ?s1")
          and len: "Policy_Len p < Policy_Len (sh_policy s)"
          using shard_inv_evict [OF Suc.prems(1)] ev Some by blast
        have "Policy_Len (sh_policy ?s1) < n" using len Suc.prems(2) by simp
        then obtain t new where
          eq: "enforce_loop n prot ?s1 (acc @ [k]) = Some (t, (acc @ [k]) @ new)"
          and res: "enforce_result prot ?s1 t new"
          using Suc.IH [OF inv] by blast
        have "enforce_result prot s t (k # new)"
          using res False mkeys_Some [OF it] by (auto simp: enforce_result_def restrict_map_def fun_eq_iff)
        moreover have "enforce_loop (Suc n) prot s acc = Some (t, acc @ k # new)"
          using over ev Some False it eq by simp
        ultimately show ?thesis by blast
      qed
    qed
  qed
qed simp

lemma enforce_spec:
  assumes "shard_inv s" and "enforceLimitsLocked prot s = (t, new)"
  shows "enforce_result prot s t new"
  using enforce_terminates [OF assms(1), of "Suc (Policy_Len (sh_policy s))" prot "[]"] assms(2)
  by (auto simp: enforceLimitsLocked_def)

text \<open>More fuel does not change what the loop returns.\<close>

lemma enforce_loop_mono: "enforce_loop n prot s acc = Some r \<Longrightarrow> enforce_loop (n + d) prot s acc = Some r"
proof (induction n arbitrary: s acc)
  case (Suc n)
  then show ?case by (auto split: if_splits prod.splits option.splits)
qed simp

lemma store_spec:
  assumes s: "shard_inv s" and "enforceLimitsLocked k (setLocked k v e s) = (t, new)"
  shows "shard_inv t" and "distinct new" and "k \<notin> set new" and "set new \<subseteq> mkeys (sh_items s)"
    and "map_of (sh_items t) = (map_of (sh_items s) |` (- set new))
           (k \<mapsto> \<lparr>it_value = clone_bytes v, it_expireAt = e\<rparr>)"
    and "sh_maxEntries t = sh_maxEntries s" and "sh_maxMemory t = sh_maxMemory s"
proof -
  have res: "enforce_result k (setLocked k v e s) t new"
    using enforce_spec [OF setLocked_inv [OF s] assms(2)] .
  then show "shard_inv t" "distinct new" "k \<notin> set new"
      "sh_maxEntries t = sh_maxEntries s" "sh_maxMemory t = sh_maxMemory s"
    by (simp_all add: enforce_result_def)
  show "set new \<subseteq> mkeys (sh_items s)"
    using res by (auto simp: enforce_result_def)
  show "map_of (sh_items t) = (map_of (sh_items s) |` (- set new))
      (k \<mapsto> \<lparr>it_value = clone_bytes v, it_expireAt = e\<rparr>)"
    using res by (auto simp: enforce_result_def restrict_map_def fun_eq_iff)
qed

subsection \<open>The methods as one step function\<close>

datatype shard_op =
    SGet string int
  | SSet string bytes int
  | SDel string
  | SExists string int
  | SExpire string int int
  | STtl string int
  | SIncrBy string int int
  | SFlush "string list"
  | SSweep "string list" int nat
  | SApplySet string bytes int
  | SApplyDel string
  | SApplyExpire string int
  | SFlushSilent "string list"

fun shard_step :: "shard_op \<Rightarrow> shard \<Rightarrow> shard \<times> event list" where
  "shard_step (SGet k now) s = (let (t, _, evs) = shard_get k now s in (t, evs))"
| "shard_step (SSet k v e) s = (let (t, _, evs) = shard_set k v e s in (t, evs))"
| "shard_step (SDel k) s = (let (t, _, evs) = shard_del k s in (t, evs))"
| "shard_step (SExists k now) s = (let (t, _, evs) = shard_exists k now s in (t, evs))"
| "shard_step (SExpire k e now) s = (let (t, _, evs) = shard_expire k e now s in (t, evs))"
| "shard_step (STtl k now) s = (let (t, _, evs) = shard_ttl k now s in (t, evs))"
| "shard_step (SIncrBy k d now) s = (let (t, _, evs) = shard_incrBy k d now s in (t, evs))"
| "shard_step (SFlush order) s = shard_flush order s"
| "shard_step (SSweep order now n) s = (let (t, _, evs) = sweepExpired order now n s in (t, evs))"
| "shard_step (SApplySet k v e) s = (applySet k v e s, [])"
| "shard_step (SApplyDel k) s = (applyDel k s, [])"
| "shard_step (SApplyExpire k e) s = (applyExpire k e s, [])"
| "shard_step (SFlushSilent order) s = (flushSilent order s, [])"

text \<open>A range loop visits each key of the map once.\<close>

definition visits :: "string list \<Rightarrow> shard \<Rightarrow> bool" where
  "visits order s \<longleftrightarrow> distinct order \<and> set order = mkeys (sh_items s)"

fun op_order_ok :: "shard_op \<Rightarrow> shard \<Rightarrow> bool" where
  "op_order_ok (SFlush order) s = visits order s"
| "op_order_ok (SFlushSilent order) s = visits order s"
| "op_order_ok _ s = True"

text \<open>The methods that emit events, as against the ones that apply them.\<close>

fun emitting :: "shard_op \<Rightarrow> bool" where
  "emitting (SApplySet k v e) = False"
| "emitting (SApplyDel k) = False"
| "emitting (SApplyExpire k e) = False"
| "emitting (SFlushSilent order) = False"
| "emitting _ = True"

lemma sweep_loop_spec:
  "shard_inv s \<Longrightarrow> sweep_loop now ks s = (t, ex) \<Longrightarrow>
     shard_inv t \<and> map_of (sh_items t) = map_of (sh_items s) |` (- set ex) \<and>
     sh_maxEntries t = sh_maxEntries s \<and> sh_maxMemory t = sh_maxMemory s \<and>
     (\<forall>k \<in> set ex. k \<in> set ks \<and> (\<exists>it. map_of (sh_items s) k = Some it \<and> item_expired it now)) \<and>
     (\<forall>k \<in> set ks. \<forall>it. map_of (sh_items t) k = Some it \<longrightarrow> \<not> item_expired it now)"
proof (induction ks arbitrary: s t ex)
  case Nil
  then show ?case by (simp add: restrict_map_def)
next
  case (Cons k ks)
  show ?case
  proof (cases "\<exists>it. map_of (sh_items s) k = Some it \<and> item_expired it now")
    case True
    then obtain it where it: "map_of (sh_items s) k = Some it" "item_expired it now" by blast
    with Cons.prems obtain ex' where ex': "sweep_loop now ks (removeLocked k it s) = (t, ex')" "ex = k # ex'"
      by (auto split: prod.splits)
    have "shard_inv (removeLocked k it s)" using removeLocked_inv Cons.prems it by blast
    from Cons.IH [OF this ex'(1)] ex'(2) it show ?thesis
      by (auto simp: restrict_map_def fun_eq_iff split: if_splits)
  next
    case False
    then have "sweep_loop now ks s = (t, ex)" using Cons.prems by (auto split: option.splits)
    from Cons.IH [OF Cons.prems(1) this] False show ?thesis by (auto simp: restrict_map_def split: if_splits)
  qed
qed

text \<open>Storing over a shard from which at most the stored key was taken out.\<close>

lemma store_sound:
  assumes "shard_inv s0" and "enforceLimitsLocked k (setLocked k v e s0) = (t, new)"
    and "sh_items s0 = sh_items s \<or> sh_items s0 = AList.delete k (sh_items s)"
    and "sh_maxEntries s0 = sh_maxEntries s" and "sh_maxMemory s0 = sh_maxMemory s"
  shows "shard_inv t \<and> sh_maxEntries t = sh_maxEntries s \<and> sh_maxMemory t = sh_maxMemory s \<and>
    map_of (sh_items t) = fold apply_ev (ev_set k v e # map ev_del new) (map_of (sh_items s))"
  using store_spec [OF assms(1,2)] assms(3-) by (auto simp: apply_dels restrict_map_def fun_eq_iff)

lemma incrBy_sound:
  assumes s: "shard_inv s" and step: "shard_incrBy k d now s = (t, r, evs)"
  shows "shard_inv t \<and> sh_maxEntries t = sh_maxEntries s \<and> sh_maxMemory t = sh_maxMemory s \<and>
    map_of (sh_items t) = fold apply_ev evs (map_of (sh_items s))"
proof (cases "map_of (sh_items s) k")
  case None
  with step store_sound [OF s, where s = s] show ?thesis
    by (auto simp: shard_incrBy_def Let_def split: prod.splits)
next
  case (Some it)
  note rem = removeLocked_inv [OF s Some]
  show ?thesis
  proof (cases "item_expired it now")
    case True
    with Some step store_sound [OF rem, where s = s] show ?thesis
      by (auto simp: shard_incrBy_def Let_def split: prod.splits)
  next
    case False
    with Some step s store_sound [OF s, where s = s] show ?thesis
      by (auto simp: shard_incrBy_def Let_def split: prod.splits option.splits)
  qed
qed

lemma shard_step_sound:
  assumes s: "shard_inv s" and ok: "op_order_ok opr s" and step: "shard_step opr s = (t, evs)"
  shows "shard_inv t \<and> sh_maxEntries t = sh_maxEntries s \<and> sh_maxMemory t = sh_maxMemory s \<and>
    (emitting opr \<longrightarrow> map_of (sh_items t) = fold apply_ev evs (map_of (sh_items s)))"
proof (cases opr)
  case (SGet k now)
  with s step removeLocked_inv [OF s] shard_inv_access [OF s] show ?thesis
    by (auto simp: shard_get_def split: option.splits if_splits)
next
  case (SSet k v e)
  with step obtain new where new: "enforceLimitsLocked k (setLocked k v e s) = (t, new)"
    and evs: "evs = ev_set k v e # map ev_del new"
    by (auto simp: shard_set_def split: prod.splits)
  with store_spec [OF s new] SSet show ?thesis
    by (auto simp: apply_dels restrict_map_def fun_eq_iff)
next
  case (SDel k)
  with s step removeLocked_inv [OF s] show ?thesis
    by (auto simp: shard_del_def split: option.splits)
next
  case (SExists k now)
  with s step removeLocked_inv [OF s] show ?thesis
    by (auto simp: shard_exists_def split: option.splits if_splits)
next
  case (SExpire k e now)
  with s step removeLocked_inv [OF s] shard_inv_expire [OF s] show ?thesis
    by (auto simp: shard_expire_def split: option.splits if_splits)
next
  case (STtl k now)
  with s step removeLocked_inv [OF s] show ?thesis
    by (auto simp: shard_ttl_def split: option.splits if_splits)
next
  case (SIncrBy k d now)
  then obtain r where "shard_incrBy k d now s = (t, r, evs)"
    using step by (cases "shard_incrBy k d now s") auto
  from incrBy_sound [OF s this] show ?thesis by blast
next
  case (SFlush order)
  with s ok step shard_inv_flush [OF s, of order] show ?thesis
    by (auto simp: shard_flush_def visits_def) (auto simp: flushSilent_def)
next
  case (SSweep order now n)
  with step obtain ex where ex: "sweep_loop now (take n order) s = (t, ex)" "evs = map ev_del ex"
    by (auto simp: sweepExpired_def split: prod.splits)
  with sweep_loop_spec [OF s ex(1)] show ?thesis by (simp add: apply_dels)
next
  case (SApplySet k v e)
  obtain new where "enforceLimitsLocked k (setLocked k v e s) = (applySet k v e s, new)"
    by (cases "enforceLimitsLocked k (setLocked k v e s)") (simp add: applySet_def)
  from store_spec(1,6,7) [OF s this] SApplySet step show ?thesis by auto
next
  case (SApplyDel k)
  with s step removeLocked_inv [OF s] show ?thesis
    by (auto simp: applyDel_def split: option.splits)
next
  case (SApplyExpire k e)
  with s step shard_inv_expire [OF s] show ?thesis
    by (auto simp: applyExpire_def split: option.splits)
next
  case (SFlushSilent order)
  with s ok step shard_inv_flush [OF s, of order] show ?thesis
    by (auto simp: visits_def flushSilent_def)
qed

end
