(* ===== verification/Shard_Props.thy ===== *)
theory Shard_Props
  imports Shard_Inv
begin

section \<open>Capacity, eviction order and counters of a shard\<close>

text \<open>
  What the eviction loop does under each policy. LRU keeps both caps and evicts from the
  least recent end; FIFO keeps the entry cap and evicts the oldest key; the policy that never
  evicts lets the shard grow. LFU and TTL may pick the key that is being stored: the loop then
  stops with the shard over its cap.
\<close>

lemma shard_len_keys: "shard_inv s \<Longrightarrow> shard_len s = card (mkeys (sh_items s))"
  by (simp add: shard_inv_def shard_len_def card_mkeys)

lemma shard_inv_lru: "shard_inv s \<Longrightarrow> sh_policy s = PLRU p \<Longrightarrow> lru_inv p \<and> set (lru_order p) = mkeys (sh_items s)"
  by (simp add: shard_inv_def)

subsection \<open>LRU\<close>

lemma enforce_lru:
  "shard_inv s \<Longrightarrow> sh_policy s = PLRU p \<Longrightarrow> lru_order p = k # ys \<Longrightarrow> length ys < n \<Longrightarrow>
     \<exists>t q m. enforce_loop n k s acc = Some (t, acc @ take m (rev ys)) \<and> sh_policy t = PLRU q \<and>
       lru_order q = k # take (length ys - m) ys \<and> m \<le> length ys \<and> (overCapacityLocked t \<longrightarrow> m = length ys)"
proof (induction n arbitrary: s p ys acc)
  case (Suc n)
  have p: "lru_inv p" using shard_inv_lru Suc.prems by blast
  show ?case
  proof (cases "overCapacityLocked s")
    case False
    with Suc.prems show ?thesis by (intro exI [of _ s] exI [of _ p] exI [of _ 0]) simp
  next
    case over: True
    obtain p' v where ev: "lru_Evict p = (p', Some v)"
      using Suc.prems(3) lru_Evict_None [of p] by (cases "lru_Evict p"; cases "snd (lru_Evict p)") auto
    note evd = lru_Evict_Some [OF p ev]
    show ?thesis
    proof (cases ys rule: rev_cases)
      case Nil
      then have "v = k" "lru_order p' = []" using evd Suc.prems(3) by auto
      with over ev Suc.prems(2) evd(1) Nil show ?thesis
        by (intro exI [of _ "s\<lparr>sh_policy := PLRU (lru_Add k p')\<rparr>"] exI [of _ "lru_Add k p'"] exI [of _ 0])
          (simp add: lru_Add_order)
    next
      case (snoc zs z)
      then have v: "v = z" "lru_order p' = k # zs" using evd(2) Suc.prems(3) by auto
      then have "v \<noteq> k" using evd(3) by auto
      have pe: "Policy_Evict (sh_policy s) = (PLRU p', Some v)" using ev Suc.prems(2) by simp
      obtain it where it: "map_of (sh_items s) v = Some it"
        and inv: "shard_inv (s\<lparr>sh_policy := PLRU p', sh_items := AList.delete v (sh_items s),
                     sh_mem := clamp0 (sh_mem s - approxSize v (it_value it))\<rparr>)" (is "shard_inv ?s1")
        using shard_inv_evict [OF Suc.prems(1) pe] by blast
      obtain t q m where
        "enforce_loop n k ?s1 (acc @ [v]) = Some (t, (acc @ [v]) @ take m (rev zs))" "sh_policy t = PLRU q"
        "lru_order q = k # take (length zs - m) zs" "m \<le> length zs" "overCapacityLocked t \<longrightarrow> m = length zs"
        using Suc.IH [OF inv, of p' zs "acc @ [v]"] v Suc.prems(4) snoc by auto
      then show ?thesis
        using over pe \<open>v \<noteq> k\<close> it v snoc
        by (intro exI [of _ t] exI [of _ q] exI [of _ "Suc m"]) auto
    qed
  qed
qed simp

lemma setLocked_lru:
  assumes s: "shard_inv s" and p: "sh_policy s = PLRU p"
  obtains q where "sh_policy (setLocked k v e s) = PLRU q" and "lru_order q = k # removeAll k (lru_order p)"
proof -
  have inv: "lru_inv p" "set (lru_order p) = mkeys (sh_items s)" using shard_inv_lru [OF s p] by auto
  show ?thesis
    using that lru_Access_order(2) [OF inv(1), of k] lru_Add_order(2) [OF inv(1), of k] inv(2) p
    by (cases "k \<in> mkeys (sh_items s)") (auto simp: setLocked_policy)
qed

text \<open>Storing under LRU: the evicted keys are the least recently used ones, least recent first,
  the caps hold afterwards, and memory may stay over its cap only when nothing but the stored key
  is left.\<close>

lemma lru_set:
  assumes s: "shard_inv s" and p: "sh_policy s = PLRU p" and set: "shard_set k v e s = (t, evicted, evs)"
  shows "\<exists>m. evicted = take m (rev (removeAll k (lru_order p)))"
    and "0 < sh_maxEntries s \<Longrightarrow> int (shard_len t) \<le> sh_maxEntries s"
    and "0 < sh_maxMemory s \<Longrightarrow> memBytes t \<le> sh_maxMemory s \<or> mkeys (sh_items t) = {k}"
proof -
  let ?u = "setLocked k v e s"
  obtain p1 where p1: "sh_policy ?u = PLRU p1" "lru_order p1 = k # removeAll k (lru_order p)"
    using setLocked_lru [OF s p] by blast
  have u: "shard_inv ?u" by (rule setLocked_inv [OF s])
  have "Policy_Len (sh_policy ?u) = length (lru_order p1)"
    using p1(1) by (simp add: lru_Len_def gl_Len_vals lru_order_def)
  then have len: "length (removeAll k (lru_order p)) < Suc (Policy_Len (sh_policy ?u))"
    using p1(2) by simp
  obtain t' q m where loop: "enforce_loop (Suc (Policy_Len (sh_policy ?u))) k ?u [] =
        Some (t', take m (rev (removeAll k (lru_order p))))" and q: "sh_policy t' = PLRU q"
    and ord: "lru_order q = k # take (length (removeAll k (lru_order p)) - m) (removeAll k (lru_order p))"
    and m: "overCapacityLocked t' \<longrightarrow> m = length (removeAll k (lru_order p))"
    using enforce_lru [OF u p1 len, of "[]"] by auto
  have enf: "enforceLimitsLocked k ?u = (t', take m (rev (removeAll k (lru_order p))))"
    using loop by (simp add: enforceLimitsLocked_def)
  then have t: "t' = t" "evicted = take m (rev (removeAll k (lru_order p)))"
    using set by (auto simp: shard_set_def)
  then show "\<exists>m. evicted = take m (rev (removeAll k (lru_order p)))" by blast
  have t_inv: "shard_inv t" and lim: "sh_maxEntries t = sh_maxEntries s" "sh_maxMemory t = sh_maxMemory s"
    using store_spec [OF s enf] t by auto
  have only: "mkeys (sh_items t) = {k}" if "overCapacityLocked t"
    using that m t ord shard_inv_lru [OF t_inv] q by simp
  show "0 < sh_maxEntries s \<Longrightarrow> int (shard_len t) \<le> sh_maxEntries s"
  proof (cases "overCapacityLocked t")
    case True
    assume "0 < sh_maxEntries s"
    moreover have "shard_len t = 1" using shard_len_keys [OF t_inv] only [OF True] by simp
    ultimately show ?thesis by simp
  next
    case False
    assume "0 < sh_maxEntries s"
    with False lim show ?thesis by (simp add: overCapacityLocked_def shard_len_def)
  qed
  show "0 < sh_maxMemory s \<Longrightarrow> memBytes t \<le> sh_maxMemory s \<or> mkeys (sh_items t) = {k}"
  proof (cases "overCapacityLocked t")
    case False
    assume "0 < sh_maxMemory s"
    with False lim show ?thesis by (simp add: overCapacityLocked_def memBytes_def)
  qed (simp add: only)
qed

subsection \<open>FIFO\<close>

text \<open>Storing a new key in a full shard with an entry cap evicts the oldest key and no other.\<close>

lemma fifo_set_full:
  assumes s: "shard_inv s" and p: "sh_policy s = PFIFO p" and k: "k \<notin> mkeys (sh_items s)"
    and full: "int (shard_len s) = sh_maxEntries s" "0 < sh_maxEntries s" and mem: "sh_maxMemory s \<le> 0"
    and set: "shard_set k v e s = (t, evicted, evs)"
  shows "evicted = [hd (fifo_order p)]" and "shard_len t = shard_len s"
proof -
  let ?u = "setLocked k v e s"
  have u: "shard_inv ?u" by (rule setLocked_inv [OF s])
  have inv: "fifo_inv p" "set (fifo_order p) = mkeys (sh_items s)"
    using s p by (simp_all add: shard_inv_def)
  have pu: "sh_policy ?u = PFIFO (fifo_Add k p)" using k p by (simp add: setLocked_policy)
  have ord: "fifo_order (fifo_Add k p) = fifo_order p @ [k]"
    using fifo_Add_order(2) [OF inv(1), of k] inv(2) k by simp
  obtain x xs where x: "fifo_order p = x # xs"
    using full inv(2) by (cases "fifo_order p") (auto simp: shard_len_def)
  obtain p' v' where ev: "fifo_Evict (fifo_Add k p) = (p', Some v')"
    using ord fifo_Evict_None [of "fifo_Add k p"]
    by (cases "fifo_Evict (fifo_Add k p)"; cases "snd (fifo_Evict (fifo_Add k p))") auto
  have v': "v' = x" using fifo_Evict_Some(2) [OF fifo_Add_order(1) [OF inv(1)] ev] ord x by simp
  have "x \<noteq> k" using x k inv(2) by auto
  have pe: "Policy_Evict (sh_policy ?u) = (PFIFO p', Some x)" using pu ev v' by simp
  obtain it where it: "map_of (sh_items ?u) x = Some it"
    and inv1: "shard_inv (?u\<lparr>sh_policy := PFIFO p', sh_items := AList.delete x (sh_items ?u),
                   sh_mem := clamp0 (sh_mem ?u - approxSize x (it_value it))\<rparr>)" (is "shard_inv ?u1")
    and len: "Policy_Len (PFIFO p') < Policy_Len (sh_policy ?u)"
    using shard_inv_evict [OF u pe] by blast
  have lu: "length (sh_items ?u) = Suc (length (sh_items s))" using k by simp
  have wf: "wf_map (sh_items ?u)" using u by (simp add: shard_inv_def)
  have l1: "length (AList.delete x (sh_items ?u)) = length (sh_items s)"
    using length_delete_in [OF wf mkeys_Some [OF it]] lu by simp
  have over: "overCapacityLocked ?u"
    using full lu by (simp add: overCapacityLocked_def shard_len_def)
  have not1: "\<not> overCapacityLocked ?u1"
    using full mem l1 by (simp add: overCapacityLocked_def shard_len_def)
  obtain n where n: "Policy_Len (sh_policy ?u) = Suc n" using len by (cases "Policy_Len (sh_policy ?u)") auto
  have "enforceLimitsLocked k ?u = (?u1, [x])"
    using over not1 pe it \<open>x \<noteq> k\<close> n by (simp add: enforceLimitsLocked_def)
  then have "t = ?u1" "evicted = [x]" using set by (auto simp: shard_set_def)
  then show "evicted = [hd (fifo_order p)]" "shard_len t = shard_len s"
    using x l1 by (simp_all add: shard_len_def)
qed

lemma noeviction_set:
  assumes "sh_policy s = PNoEviction p" and "shard_set k v e s = (t, evicted, evs)"
  shows "evicted = []"
proof -
  obtain q where q: "sh_policy (setLocked k v e s) = PNoEviction q"
    using assms(1) by (cases "k \<in> mkeys (sh_items s)") (auto simp: setLocked_policy)
  then show ?thesis
    using assms(2) by (auto simp: shard_set_def enforceLimitsLocked_def ne_Evict_def split: if_splits)
qed

subsection \<open>LFU: the stored key can be the victim\<close>

lemma lfu_evict_newcomer:
  assumes p: "lfu_inv p" and k: "k \<notin> mkeys (lfu_nodes p)"
    and others: "\<And>k'. k' \<in> mkeys (lfu_nodes p) \<Longrightarrow> 2 \<le> lfu_freq p k'"
  obtains q where "lfu_Evict (lfu_Add k p) = (q, Some k)" and "lfu_inv q"
    and "lfu_nodes q = AList.delete k (lfu_nodes (lfu_Add k p))"
proof -
  let ?p1 = "lfu_Add k p"
  have p1: "lfu_inv ?p1" "mkeys (lfu_nodes ?p1) = insert k (mkeys (lfu_nodes p))"
    using lfu.keys_add [OF p] by auto
  have f1: "lfu_freq ?p1 k' = (if k' = k then 1 else lfu_freq p k')" for k'
    using lfu_freq_Add [OF p] k by (auto simp: lfu_freq_def mkeys_iff)
  obtain q v where ev: "lfu_Evict ?p1 = (q, Some v)"
    using lfu.evict_nonempty [OF p1(1)] p1(2) by (cases "lfu_Evict ?p1"; cases "snd (lfu_Evict ?p1)") auto
  note evd = lfu_Evict_Some [OF p1(1) ev]
  have "lfu_freq ?p1 v \<le> 1" using evd(4) [of k] p1(2) f1 [of k] by simp
  moreover have "v = k \<or> v \<in> mkeys (lfu_nodes p)" using evd(2) p1(2) by simp
  ultimately have "v = k" using others [of v] f1 [of v] by (cases "v = k") simp_all
  then show ?thesis using that ev evd(1,3) by blast
qed

definition freq_at_least :: "int \<Rightarrow> shard \<Rightarrow> bool" where
  "freq_at_least n s \<longleftrightarrow>
     (\<exists>p. sh_policy s = PLFU p \<and> (\<forall>k \<in> mkeys (lfu_nodes p). n \<le> lfu_freq p k))"

lemma lfu_set_newcomer:
  assumes s: "shard_inv s" and f: "freq_at_least 2 s" and k: "k \<notin> mkeys (sh_items s)"
    and set: "shard_set k v e s = (t, evicted, evs)"
  shows "evicted = []" and "shard_len t = Suc (shard_len s)"
    and "\<exists>q. sh_policy t = PLFU q \<and> lfu_inv q \<and> mkeys (lfu_nodes q) = insert k (mkeys (sh_items s)) \<and>
           lfu_freq q k = 1 \<and> (\<forall>k' \<in> mkeys (sh_items s). 2 \<le> lfu_freq q k')"
proof -
  let ?u = "setLocked k v e s"
  obtain p where p: "sh_policy s = PLFU p" and fp: "\<And>k'. k' \<in> mkeys (lfu_nodes p) \<Longrightarrow> 2 \<le> lfu_freq p k'"
    using f by (auto simp: freq_at_least_def)
  have inv: "lfu_inv p" "mkeys (lfu_nodes p) = mkeys (sh_items s)"
    using s p by (simp_all add: shard_inv_def)
  have kp: "k \<notin> mkeys (lfu_nodes p)" using inv k by simp
  have pu: "sh_policy ?u = PLFU (lfu_Add k p)" using k p by (simp add: setLocked_policy)
  have add: "lfu_inv (lfu_Add k p)" "mkeys (lfu_nodes (lfu_Add k p)) = insert k (mkeys (sh_items s))"
    using lfu.keys_add [OF inv(1)] inv(2) by auto
  have fadd: "lfu_freq (lfu_Add k p) k' = (if k' = k then 1 else lfu_freq p k')" for k'
    using lfu_freq_Add [OF inv(1)] kp by (auto simp: lfu_freq_def mkeys_iff)
  obtain q where q: "lfu_Evict (lfu_Add k p) = (q, Some k)" "lfu_inv q"
      "lfu_nodes q = AList.delete k (lfu_nodes (lfu_Add k p))"
    using lfu_evict_newcomer [OF inv(1) kp fp] by blast
  define r where "r = (if overCapacityLocked ?u then lfu_Add k q else lfu_Add k p)"
  have enf: "enforceLimitsLocked k ?u = (?u\<lparr>sh_policy := PLFU r\<rparr>, [])"
    using pu q by (auto simp: enforceLimitsLocked_def r_def)
  then have t: "t = ?u\<lparr>sh_policy := PLFU r\<rparr>" "evicted = []" using set by (auto simp: shard_set_def)
  show "evicted = []" by (rule t)
  show "shard_len t = Suc (shard_len s)" using t k by (simp add: shard_len_def)
  have "lfu_freq r k' = (if k' = k then 1 else lfu_freq p k')" for k'
    using lfu_freq_Add [OF q(2), of k k'] q(3) fadd [of k'] by (auto simp: r_def lfu_freq_def)
  moreover have "lfu_inv r" "mkeys (lfu_nodes r) = insert k (mkeys (sh_items s))"
    using lfu.keys_add [OF q(2), of k] q(3) add by (auto simp: r_def)
  ultimately show "\<exists>q. sh_policy t = PLFU q \<and> lfu_inv q \<and> mkeys (lfu_nodes q) = insert k (mkeys (sh_items s)) \<and>
      lfu_freq q k = 1 \<and> (\<forall>k' \<in> mkeys (sh_items s). 2 \<le> lfu_freq q k')"
    using t fp inv(2) k by (intro exI [of _ r]) auto
qed

text \<open>A client that stores a new key without expiry and reads it back.\<close>

definition set_get :: "bytes \<Rightarrow> string \<Rightarrow> shard \<Rightarrow> shard" where
  "set_get v k s = fst (shard_get k 0 (fst (shard_set k v 0 s)))"

lemma lfu_set_get:
  assumes s: "shard_inv s" and f: "freq_at_least 2 s" and k: "k \<notin> mkeys (sh_items s)"
  shows "shard_inv (set_get v k s)" and "freq_at_least 2 (set_get v k s)"
    and "mkeys (sh_items (set_get v k s)) = insert k (mkeys (sh_items s))"
proof -
  obtain t evicted evs where set: "shard_set k v 0 s = (t, evicted, evs)"
    by (cases "shard_set k v 0 s") auto
  have ev: "evicted = []" by (rule lfu_set_newcomer(1) [OF s f k set])
  obtain q where q: "sh_policy t = PLFU q" "lfu_inv q" "mkeys (lfu_nodes q) = insert k (mkeys (sh_items s))"
      "lfu_freq q k = 1" "\<forall>k' \<in> mkeys (sh_items s). 2 \<le> lfu_freq q k'"
    using lfu_set_newcomer(3) [OF s f k set] by blast
  have enf: "enforceLimitsLocked k (setLocked k v 0 s) = (t, [])"
    using set ev by (auto simp: shard_set_def split: prod.splits)
  have item: "map_of (sh_items t) k = Some \<lparr>it_value = clone_bytes v, it_expireAt = 0\<rparr>"
    using store_spec(5) [OF s enf] by simp
  have t_inv: "shard_inv t" by (rule store_spec(1) [OF s enf])
  have get: "set_get v k s = t\<lparr>sh_policy := PLFU (lfu_Access k q)\<rparr>"
    using set item q(1) by (simp add: set_get_def shard_get_def item_expired_def)
  show "shard_inv (set_get v k s)"
    using shard_inv_access [OF t_inv, of k] q(1) get by simp
  have "mkeys (sh_items t) = mkeys (lfu_nodes q)" using t_inv q(1) by (simp add: shard_inv_def)
  then show "mkeys (sh_items (set_get v k s)) = insert k (mkeys (sh_items s))"
    using get q(3) by simp
  have "2 \<le> lfu_freq (lfu_Access k q) k'" if "k' \<in> mkeys (lfu_nodes (lfu_Access k q))" for k'
    using that lfu.keys_access [OF q(2)] lfu_freq_Access [OF q(2), of k k'] q(3,4,5) by auto
  then show "freq_at_least 2 (set_get v k s)"
    using get by (simp add: freq_at_least_def)
qed

lemma lfu_growth:
  "shard_inv s \<Longrightarrow> freq_at_least 2 s \<Longrightarrow> distinct ks \<Longrightarrow> set ks \<inter> mkeys (sh_items s) = {} \<Longrightarrow>
     shard_len (fold (set_get v) ks s) = shard_len s + length ks"
proof (induction ks arbitrary: s)
  case (Cons k ks)
  then have k: "k \<notin> mkeys (sh_items s)" by auto
  note step = lfu_set_get [OF Cons.prems(1,2) k, where v = v]
  have "shard_len (fold (set_get v) ks (set_get v k s)) = shard_len (set_get v k s) + length ks"
    using Cons.prems step by (intro Cons.IH) auto
  moreover have "shard_len (set_get v k s) = Suc (shard_len s)"
    using shard_len_keys [OF step(1)] shard_len_keys [OF Cons.prems(1)] step(3) k by simp
  ultimately show ?case by simp
qed simp

subsection \<open>TTL: the stored key can be the victim, and loses its expiry\<close>

lemma ttl_set_nearest:
  assumes s: "shard_inv s" and p: "sh_policy s = PTTL p" and k: "k \<notin> mkeys (sh_items s)"
    and e: "0 < e" and near: "\<And>k' e'. map_of (eff p) k' = Some e' \<Longrightarrow> e < e'"
    and over: "overCapacityLocked (setLocked k v e s)"
    and set: "shard_set k v e s = (t, evicted, evs)"
  shows "evicted = []" and "\<exists>q. sh_policy t = PTTL q \<and> map_of (eff q) k = Some ttlNever"
proof -
  let ?u = "setLocked k v e s"
  let ?p1 = "ttl_Note k e (ttl_Add k p)"
  have inv: "ttl_inv p" "mkeys (eff p) = mkeys (sh_items s)"
    using s p by (simp_all add: shard_inv_def)
  have pu: "sh_policy ?u = PTTL ?p1" using k p by (simp add: setLocked_policy)
  have none: "map_of (eff p) k = None" using k inv(2) by (simp add: map_of_None_iff)
  have add: "ttl_inv (ttl_Add k p)" using ttl.keys_add [OF inv(1)] by blast
  have p1: "ttl_inv ?p1" "map_of (eff ?p1) = (map_of (eff p))(k \<mapsto> e)"
    using ttl_Note_inv [OF add, of k e] ttl_Note_inv(2) [OF inv(1), of k 0] none e
    by (auto simp: ttl_Add_Note)
  have "mkeys (eff ?p1) \<noteq> {}" by (simp add: ttl_Note_keys)
  then obtain q x where ev: "ttl_Evict ?p1 = (q, Some x)"
    using ttl.evict_nonempty [OF p1(1)] by (cases "ttl_Evict ?p1"; cases "snd (ttl_Evict ?p1)") auto
  note evd = ttl_Evict_Some [OF p1(1) ev]
  obtain ex where ex: "ex \<le> e" "map_of (eff ?p1) x = Some ex"
    using evd(4) [of k e] p1(2) by auto
  have x: "x = k"
  proof (rule ccontr)
    assume "x \<noteq> k"
    with ex p1(2) have "map_of (eff p) x = Some ex" by simp
    with near ex(1) show False by force
  qed
  have q: "ttl_inv q" "map_of (eff q) k = None" using evd(1,2) x by simp_all
  have "enforceLimitsLocked k ?u = (?u\<lparr>sh_policy := PTTL (ttl_Add k q)\<rparr>, [])"
    using over pu ev x by (simp add: enforceLimitsLocked_def)
  then have t: "t = ?u\<lparr>sh_policy := PTTL (ttl_Add k q)\<rparr>" "evicted = []"
    using set by (auto simp: shard_set_def)
  then show "evicted = []" by blast
  show "\<exists>q. sh_policy t = PTTL q \<and> map_of (eff q) k = Some ttlNever"
    using t ttl_Note_inv(2) [OF q(1), of k 0] q(2) by (intro exI [of _ "ttl_Add k q"]) (simp add: ttl_Add_Note)
qed

subsection \<open>Reading back\<close>

text \<open>The stored key is never among the evicted ones, and reads back until it expires; the other
  keys are evicted or unchanged.\<close>

lemma set_spec:
  assumes s: "shard_inv s" and set: "shard_set k v e s = (t, evicted, evs)"
  shows "shard_inv t" and "k \<notin> set evicted" and "set evicted \<subseteq> mkeys (sh_items s)" and "distinct evicted"
    and "map_of (sh_items t) = (map_of (sh_items s) |` (- set evicted))
           (k \<mapsto> \<lparr>it_value = clone_bytes v, it_expireAt = e\<rparr>)"
    and "sh_maxEntries t = sh_maxEntries s" and "sh_maxMemory t = sh_maxMemory s"
    and "evs = ev_set k v e # map ev_del evicted"
proof -
  have enf: "enforceLimitsLocked k (setLocked k v e s) = (t, evicted)"
    and "evs = ev_set k v e # map ev_del evicted"
    using set by (auto simp: shard_set_def split: prod.splits)
  then show "evs = ev_set k v e # map ev_del evicted" by simp
  note sp = store_spec [OF s enf]
  show "shard_inv t" by (rule sp(1))
  show "k \<notin> set evicted" by (rule sp(3))
  show "set evicted \<subseteq> mkeys (sh_items s)" by (rule sp(4))
  show "distinct evicted" by (rule sp(2))
  show "map_of (sh_items t) = (map_of (sh_items s) |` (- set evicted))
      (k \<mapsto> \<lparr>it_value = clone_bytes v, it_expireAt = e\<rparr>)" by (rule sp(5))
  show "sh_maxEntries t = sh_maxEntries s" "sh_maxMemory t = sh_maxMemory s" by (rule sp(6), rule sp(7))
qed

text \<open>The three ways \<open>incrBy\<close> ends: the error, which leaves the shard alone; the update of a live
  number; and the start from zero, for a key that is absent or has expired.\<close>

lemma incrBy_error:
  "map_of (sh_items s) k = Some it \<Longrightarrow> \<not> item_expired it now \<Longrightarrow> parse_int (str_of (it_value it)) = None \<Longrightarrow>
     shard_incrBy k d now s = (s, Inl ErrNotInteger, [])"
  by (simp add: shard_incrBy_def Let_def)

lemma incrBy_set:
  assumes "map_of (sh_items s) k = Some it" and "\<not> item_expired it now"
    and "parse_int (str_of (it_value it)) = Some b"
  shows "shard_incrBy k d now s =
    (let n = wrap64 (b + d); (t, evicted, evs) = shard_set k (Some (format_int n)) 0 s in (t, Inr (n, evicted), evs))"
  using assms by (simp add: shard_incrBy_def shard_set_def Let_def split: prod.splits)

lemma incrBy_fresh:
  assumes "map_of (sh_items s) k = None"
  shows "shard_incrBy k d now s =
    (let n = wrap64 d; (t, evicted, evs) = shard_set k (Some (format_int n)) 0 s in (t, Inr (n, evicted), evs))"
  using assms by (simp add: shard_incrBy_def shard_set_def Let_def split: prod.splits)

lemma incrBy_expired:
  assumes "map_of (sh_items s) k = Some it" and "item_expired it now"
  shows "shard_incrBy k d now s =
    (let n = wrap64 d; (t, evicted, evs) = shard_set k (Some (format_int n)) 0 (removeLocked k it s)
     in (t, Inr (n, evicted), evs))"
  using assms by (simp add: shard_incrBy_def shard_set_def Let_def split: prod.splits)

end
