(* ===== verification/Shard_Thms.thy ===== *)
theory Shard_Thms
  imports Shard_Props
begin

section \<open>Properties of a shard\<close>

text \<open>
  The statements about internal/cache/shard.go that the development claims, each with an instance on a
  concrete shard.
\<close>

definition ex_shard :: "policy \<Rightarrow> shard" where
  "ex_shard p = fst (shard_set ''b'' (Some ''7'') 0 (fst (shard_set ''a'' (Some ''1'') 0 (newShard p 2 0))))"

lemma set_inv: "shard_inv s \<Longrightarrow> shard_inv (fst (shard_set k v e s))"
  using set_spec(1) [of s k v e] by (metis prod.collapse)

lemma ex_shard_inv: "Policy_tracks p {} \<Longrightarrow> shard_inv (ex_shard p)"
  unfolding ex_shard_def by (intro set_inv shard_inv_new)

lemma ex_lru_inv: "shard_inv (ex_shard (PLRU NewLRU))"
  by (rule ex_shard_inv) (simp add: lru_inv_New)

lemma ex_fifo_inv: "shard_inv (ex_shard (PFIFO NewFIFO))"
  by (rule ex_shard_inv) (simp add: fifo_inv_New)



text \<open>C34: The eviction loop ends: with one unit of fuel per key that the policy accounts for, and one for the last
  test, it returns; it never evicts the protected key, evicts no key twice and only keys that are stored.\<close>

theorem eviction_loop_ends:
  assumes "shard_inv s"
  shows "\<exists>t new. enforce_loop (Suc (Policy_Len (sh_policy s))) k s [] = Some (t, new) \<and>
    enforceLimitsLocked k s = (t, new) \<and> k \<notin> set new \<and> distinct new \<and> set new \<subseteq> mkeys (sh_items s)"
proof -
  obtain t new where l: "enforce_loop (Suc (Policy_Len (sh_policy s))) k s [] = Some (t, new)"
    using enforce_terminates [OF assms lessI, where prot = k and acc = "[]"] by auto
  then have e: "enforceLimitsLocked k s = (t, new)" by (simp add: enforceLimitsLocked_def del: enforce_loop.simps)
  from enforce_spec [OF assms this] l e show ?thesis unfolding enforce_result_def by blast
qed

theorem eviction_loop_ends_witness:
  "\<exists>t new. enforceLimitsLocked ''c'' (setLocked ''c'' (Some ''9'') 0 (ex_shard (PLRU NewLRU))) = (t, new) \<and>
     ''c'' \<notin> set new \<and> distinct new"
  using eviction_loop_ends [OF setLocked_inv [OF ex_lru_inv, where k = "''c''" and v = "Some ''9''" and e = 0],
      where k = "''c''"] by blast

text \<open>Storing under LRU keeps both caps: the keys that are evicted are the least recently used ones, least recent
  first; afterwards the number of entries is within its cap, and memory is within its cap unless the stored key is
  alone.\<close>

theorem lru_caps:
  assumes "shard_inv s" and "sh_policy s = PLRU p" and "shard_set k v e s = (t, evicted, evs)"
  shows "(\<exists>m. evicted = take m (rev (removeAll k (lru_order p)))) \<and>
    (0 < sh_maxEntries s \<longrightarrow> int (shard_len t) \<le> sh_maxEntries s) \<and>
    (0 < sh_maxMemory s \<longrightarrow> memBytes t \<le> sh_maxMemory s \<or> mkeys (sh_items t) = {k})"
  using lru_set [OF assms] by blast

theorem lru_caps_witness:
  "fst (snd (shard_set ''c'' (Some ''9'') 0 (ex_shard (PLRU NewLRU)))) = [''a''] \<and>
   int (shard_len (fst (shard_set ''c'' (Some ''9'') 0 (ex_shard (PLRU NewLRU))))) \<le> 2"
proof -
  let ?s = "ex_shard (PLRU NewLRU)"
  obtain t ks evs where st: "shard_set ''c'' (Some ''9'') 0 ?s = (t, ks, evs)"
    by (cases "shard_set ''c'' (Some ''9'') 0 ?s") auto
  have "Policy_Name (sh_policy ?s) = ''lru''" by code_simp
  then obtain p where p: "sh_policy ?s = PLRU p" by (cases "sh_policy ?s") simp_all
  have "fst (snd (shard_set ''c'' (Some ''9'') 0 ?s)) = [''a'']" "sh_maxEntries ?s = 2" by code_simp+
  with lru_caps [OF ex_lru_inv p st] st show ?thesis by simp
qed

text \<open>FIFO at its cap: storing a new key in a shard that is full evicts the key that was stored first and no
  other, and the number of entries stays.\<close>

theorem fifo_full:
  assumes "shard_inv s" and "sh_policy s = PFIFO p" and "k \<notin> mkeys (sh_items s)"
    and "int (shard_len s) = sh_maxEntries s" and "0 < sh_maxEntries s" and "sh_maxMemory s \<le> 0"
    and "shard_set k v e s = (t, evicted, evs)"
  shows "evicted = [hd (fifo_order p)] \<and> shard_len t = shard_len s"
  using fifo_set_full [OF assms] by blast

theorem fifo_full_witness:
  "shard_len (fst (shard_set ''c'' (Some ''9'') 0 (ex_shard (PFIFO NewFIFO)))) = 2"
proof -
  let ?s = "ex_shard (PFIFO NewFIFO)"
  obtain t ks evs where st: "shard_set ''c'' (Some ''9'') 0 ?s = (t, ks, evs)"
    by (cases "shard_set ''c'' (Some ''9'') 0 ?s") auto
  have "Policy_Name (sh_policy ?s) = ''fifo''" by code_simp
  then obtain p where p: "sh_policy ?s = PFIFO p" by (cases "sh_policy ?s") simp_all
  have "\<not> List.member (map fst (sh_items ?s)) ''c''" "shard_len ?s = 2" "sh_maxEntries ?s = 2" "sh_maxMemory ?s = 0"
    by code_simp+
  with fifo_full [OF ex_fifo_inv p _ _ _ _ st] st show ?thesis by simp
qed

text \<open>LFU does not keep its cap. The key that is being stored has the least frequency, so the loop picks it, puts it
  back and stops: a client that stores distinct keys and reads each of them once makes the shard grow without
  bound, whatever the caps are.\<close>

theorem lfu_grows:
  assumes "distinct ks"
  shows "shard_len (fold (set_get v) ks (newShard (PLFU NewLFU) maxE maxM)) = length ks"
proof -
  have "Policy_tracks (PLFU NewLFU) {}" by (simp add: lfu_inv_New) (simp add: NewLFU_def)
  then have "shard_inv (newShard (PLFU NewLFU) maxE maxM)" by (rule shard_inv_new)
  moreover have "freq_at_least 2 (newShard (PLFU NewLFU) maxE maxM)"
    by (simp add: freq_at_least_def newShard_def NewLFU_def)
  ultimately show ?thesis using lfu_growth [of _ ks v] assms by (simp add: newShard_def shard_len_def)
qed

theorem lfu_grows_witness:
  "shard_len (fold (set_get (Some ''1'')) [''a'', ''b'', ''c''] (newShard (PLFU NewLFU) 1 0)) = 3"
  using lfu_grows [of "[''a'', ''b'', ''c'']" "Some ''1''" 1 0] by simp

text \<open>TTL has the same gap. When the key that is being stored has the nearest expiry and the shard is over its cap,
  nothing is evicted, and the policy forgets the key's expiry: it is put back as a key that never expires.\<close>

theorem ttl_forgets:
  assumes "shard_inv s" and "sh_policy s = PTTL p" and "k \<notin> mkeys (sh_items s)" and "0 < e"
    and "\<forall>k' e'. map_of (eff p) k' = Some e' \<longrightarrow> e < e'" and "overCapacityLocked (setLocked k v e s)"
    and "shard_set k v e s = (t, evicted, evs)"
  shows "evicted = [] \<and> (\<exists>q. sh_policy t = PTTL q \<and> map_of (eff q) k = Some ttlNever)"
  using ttl_set_nearest [OF assms(1-4) _ assms(6,7)] assms(5) by simp

definition ex_ttl :: shard where
  "ex_ttl = newShard (PTTL NewTTL) 0 65"

theorem ttl_forgets_witness:
  "\<exists>q. sh_policy (fst (shard_set ''k'' (Some ''v'') 5 ex_ttl)) = PTTL q \<and> map_of (eff q) ''k'' = Some ttlNever"
proof -
  obtain t ks evs where st: "shard_set ''k'' (Some ''v'') 5 ex_ttl = (t, ks, evs)"
    by (cases "shard_set ''k'' (Some ''v'') 5 ex_ttl") auto
  have s: "shard_inv ex_ttl" unfolding ex_ttl_def
    by (rule shard_inv_new) (simp add: ttl_inv_New, simp add: NewTTL_def)
  have "overCapacityLocked (setLocked ''k'' (Some ''v'') 5 ex_ttl)" by code_simp
  with ttl_forgets [OF s _ _ _ _ _ st, of NewTTL] st show ?thesis
    by (simp add: ex_ttl_def newShard_def NewTTL_def)
qed

text \<open>What is stored reads back. After a \<open>set\<close> a \<open>get\<close> at a time before the expiry finds the key and returns the copy
  that was stored; every other key is either evicted or unchanged. The copy of an empty value is nil, not the
  empty slice.\<close>

theorem get_after_set:
  assumes "shard_inv s" and "shard_set k v e s = (t, evicted, evs)" and "e = 0 \<or> now < e"
  shows "fst (snd (shard_get k now t)) = (clone_bytes v, True, '''') \<and> k \<notin> set evicted \<and>
    (\<forall>k'. k' \<noteq> k \<longrightarrow> map_of (sh_items t) k' = (if k' \<in> set evicted then None else map_of (sh_items s) k')) \<and>
    clone_bytes (Some []) = None"
  using set_spec [OF assms(1,2)] assms(3)
  by (auto simp: shard_get_def item_expired_def restrict_map_def)

theorem get_after_set_witness:
  "fst (snd (shard_get ''c'' 3 (fst (shard_set ''c'' (Some ''9'') 4 (ex_shard (PLRU NewLRU)))))) = (Some ''9'', True, '''')"
proof -
  let ?s = "ex_shard (PLRU NewLRU)"
  obtain t ks evs where st: "shard_set ''c'' (Some ''9'') 4 ?s = (t, ks, evs)"
    by (cases "shard_set ''c'' (Some ''9'') 4 ?s") auto
  from get_after_set [OF ex_lru_inv st, of 3] st show ?thesis by simp
qed

text \<open>Incrementing a live number stores the decimal form of the sum, which wraps around at 64 bits without an error,
  and makes the key persistent: the expiry it had is gone. The stored text reads back as the number returned.\<close>

theorem incr_live:
  assumes "shard_inv s" and "map_of (sh_items s) k = Some it" and "\<not> item_expired it now"
    and "parse_int (str_of (it_value it)) = Some n" and "shard_incrBy k d now s = (t, r, evs)"
  shows "\<exists>evicted. r = Inr (wrap64 (n + d), evicted) \<and>
    map_of (sh_items t) k = Some \<lparr>it_value = Some (format_int (wrap64 (n + d))), it_expireAt = 0\<rparr> \<and>
    parse_int (format_int (wrap64 (n + d))) = Some (wrap64 (n + d))"
proof -
  let ?v = "Some (format_int (wrap64 (n + d)))"
  obtain t' ks evs' where st: "shard_set k ?v 0 s = (t', ks, evs')" by (cases "shard_set k ?v 0 s") auto
  have "r = Inr (wrap64 (n + d), ks)" "t = t'"
    using assms(5) st by (simp_all add: incrBy_set [OF assms(2-4)] Let_def)
  moreover have "format_int (wrap64 (n + d)) \<noteq> []" by (rule format_int_nonempty)
  ultimately show ?thesis using set_spec(5) [OF assms(1) st] by simp
qed

definition ex_max :: shard where
  "ex_max = newShard (PNoEviction NewNoEviction) 0 0"

theorem incr_live_witness:
  "\<exists>ev. fst (snd (shard_incrBy ''n'' 1 0 (fst (shard_set ''n'' (Some (format_int (2 ^ 63 - 1))) 9 ex_max)))) =
     Inr (- (2 ^ 63), ev)"
proof -
  let ?m = "2 ^ 63 - 1 :: int"
  obtain t ks evs where st: "shard_set ''n'' (Some (format_int ?m)) 9 ex_max = (t, ks, evs)"
    by (cases "shard_set ''n'' (Some (format_int ?m)) 9 ex_max") auto
  have s: "shard_inv ex_max" unfolding ex_max_def
    by (rule shard_inv_new) (simp add: ne_tracks_def NewNoEviction_def)
  note sp = set_spec [OF s st]
  have it: "map_of (sh_items t) ''n'' = Some \<lparr>it_value = Some (format_int ?m), it_expireAt = 9\<rparr>"
    using sp(5) format_int_nonempty [of ?m] by simp
  obtain u r evs' where inc: "shard_incrBy ''n'' 1 0 t = (u, r, evs')" by (cases "shard_incrBy ''n'' 1 0 t") auto
  have "parse_int (format_int ?m) = Some ?m" by (rule parse_format_int) (simp add: int64_def)
  then obtain ev where "r = Inr (wrap64 (?m + 1), ev)"
    using incr_live [OF sp(1) it _ _ inc, of ?m] by (auto simp: item_expired_def)
  then show ?thesis using inc st by (simp add: wrap64_def)
qed

end
