(* ===== verification/Replay.thy ===== *)
theory Replay
  imports Shard_Inv
begin

section \<open>Replaying events\<close>

text \<open>
  The interface between the stores that emit events and the consumers that replay them
  (persistence, replication). The locale \<open>event_store\<close> is the contract: the events of a step turn
  the old contents into the new ones. From it follow the equivalence of a run with the replay of
  its events, and the correctness of a snapshot that is taken while events are emitted.
\<close>

subsection \<open>The effect of an event on one key\<close>

definition ev_on :: "string \<Rightarrow> event \<Rightarrow> item option \<Rightarrow> item option" where
  "ev_on k ev v =
     (if ev_Op ev = OpFlush then None
      else if ev_Key ev \<noteq> k then v
      else if ev_Op ev = OpSet then Some \<lparr>it_value = clone_bytes (ev_Value ev), it_expireAt = ev_ExpireAt ev\<rparr>
      else if ev_Op ev = OpDel then None
      else if ev_Op ev = OpExpire then map_option (\<lambda>it. it\<lparr>it_expireAt := ev_ExpireAt ev\<rparr>) v
      else v)"

lemma apply_ev_on: "apply_ev ev m k = ev_on k ev (m k)"
  by (auto simp: apply_ev_def ev_on_def op_defs split: option.splits)

lemma replay_on: "fold apply_ev evs m k = fold (ev_on k) evs (m k)"
  by (induction evs arbitrary: m) (simp_all add: apply_ev_on)

lemma replay_other:
  assumes "\<And>ev. ev \<in> set evs \<Longrightarrow> ev_Key ev \<noteq> k \<and> ev_Op ev \<noteq> OpFlush"
  shows "fold apply_ev evs m k = m k"
proof -
  have "fold (ev_on k) evs v = v" for v
    using assms by (induction evs arbitrary: v) (auto simp: ev_on_def)
  then show ?thesis by (simp add: replay_on)
qed

lemma replay_cong: "m k = m' k \<Longrightarrow> fold apply_ev evs m k = fold apply_ev evs m' k"
  by (simp add: replay_on)

text \<open>An event replaces what the key holds, or changes an expiry, or does nothing; so does a
  sequence of events, and replaying it again changes nothing.\<close>

definition replaces :: "(item option \<Rightarrow> item option) \<Rightarrow> bool" where
  "replaces f \<longleftrightarrow> (\<exists>c. f = (\<lambda>_. c)) \<or> (\<exists>e. f = map_option (\<lambda>it. it\<lparr>it_expireAt := e\<rparr>)) \<or> f = id"

lemma replaces_ev_on: "replaces (ev_on k ev)"
proof -
  consider "ev_Op ev = OpFlush" | "ev_Op ev \<noteq> OpFlush" "ev_Key ev \<noteq> k" |
      "ev_Key ev = k" "ev_Op ev = OpSet" | "ev_Key ev = k" "ev_Op ev = OpDel" |
      "ev_Key ev = k" "ev_Op ev = OpExpire" |
      "ev_Op ev \<noteq> OpFlush" "ev_Op ev \<noteq> OpSet" "ev_Op ev \<noteq> OpDel" "ev_Op ev \<noteq> OpExpire"
    by blast
  then show ?thesis
    by cases (auto simp: replaces_def ev_on_def op_defs fun_eq_iff)
qed

lemma replaces_comp: "replaces f \<Longrightarrow> replaces g \<Longrightarrow> replaces (g \<circ> f)"
  by (auto simp: replaces_def fun_eq_iff option.map_comp comp_def)

lemma replaces_replay: "replaces (fold (ev_on k) evs)"
proof (induction evs)
  case Nil
  then show ?case by (simp add: replaces_def id_def)
next
  case (Cons ev evs)
  then show ?case using replaces_comp [OF replaces_ev_on Cons.IH] by (simp add: comp_def)
qed

lemma replaces_idem: "replaces f \<Longrightarrow> f (f v) = f v"
  by (auto simp: replaces_def option.map_comp comp_def)

lemma replay_idem: "fold apply_ev evs (fold apply_ev evs m) = fold apply_ev evs m"
  by (rule ext) (simp add: replay_on replaces_idem [OF replaces_replay])

text \<open>A snapshot that is taken while events are emitted reads each key after some prefix of the
  events, no shorter than the prefix at which it started. Replaying all the events since the start
  gives the final contents.\<close>

lemma fuzzy_key:
  assumes "s \<le> m"
  shows "fold (ev_on k) (drop s evs) (fold (ev_on k) (take m evs) v) = fold (ev_on k) evs v"
proof -
  let ?a = "take s evs" and ?b = "drop s (take m evs)" and ?c = "drop m evs"
  have m: "take m evs = ?a @ ?b"
    using assms by (metis append_take_drop_id min.absorb1 take_take)
  have "drop s evs = ?b @ ?c"
    using assms by (cases "m \<le> length evs") (simp_all add: drop_take, metis append_take_drop_id drop_drop le_add_diff_inverse2)
  moreover have "evs = ?a @ ?b @ ?c" using m by (metis append_assoc append_take_drop_id)
  moreover have "fold (ev_on k) ?b (fold (ev_on k) ?b w) = fold (ev_on k) ?b w" for w
    by (rule replaces_idem [OF replaces_replay])
  ultimately show ?thesis by (metis comp_apply fold_append m)
qed

lemma fuzzy_replay:
  assumes snap: "\<And>k. \<exists>m \<ge> s. snap k = fold apply_ev (take m evs) m0 k"
  shows "fold apply_ev (drop s evs) snap = fold apply_ev evs m0"
proof
  fix k
  obtain m where "s \<le> m" "snap k = fold apply_ev (take m evs) m0 k" using snap by blast
  then show "fold apply_ev (drop s evs) snap k = fold apply_ev evs m0 k"
    by (simp add: replay_on fuzzy_key)
qed

subsection \<open>Stores that emit events\<close>

fun run_steps :: "('o \<Rightarrow> 's \<Rightarrow> 's \<times> event list) \<Rightarrow> 'o list \<Rightarrow> 's \<Rightarrow> 's \<times> event list" where
  "run_steps step [] s = (s, [])"
| "run_steps step (x # xs) s =
     (let (s1, evs1) = step x s; (s2, evs2) = run_steps step xs s1 in (s2, evs1 @ evs2))"

fun run_ok :: "('o \<Rightarrow> 's \<Rightarrow> 's \<times> event list) \<Rightarrow> ('o \<Rightarrow> 's \<Rightarrow> bool) \<Rightarrow> 'o list \<Rightarrow> 's \<Rightarrow> bool" where
  "run_ok step ok [] s = True"
| "run_ok step ok (x # xs) s = (ok x s \<and> run_ok step ok xs (fst (step x s)))"

lemma run_steps_append:
  "run_steps step (xs @ ys) s =
     (let (s1, evs1) = run_steps step xs s; (s2, evs2) = run_steps step ys s1 in (s2, evs1 @ evs2))"
  by (induction xs arbitrary: s) (auto split: prod.splits)

lemma run_ok_append:
  "run_ok step ok (xs @ ys) s \<longleftrightarrow> run_ok step ok xs s \<and> run_ok step ok ys (fst (run_steps step xs s))"
  by (induction xs arbitrary: s) (auto split: prod.splits)

locale event_store =
  fixes inv :: "'s \<Rightarrow> bool" and contents :: "'s \<Rightarrow> kv"
    and ok :: "'o \<Rightarrow> 's \<Rightarrow> bool" and step :: "'o \<Rightarrow> 's \<Rightarrow> 's \<times> event list"
  assumes step_inv: "inv s \<Longrightarrow> ok x s \<Longrightarrow> step x s = (t, evs) \<Longrightarrow> inv t"
    and step_contents: "inv s \<Longrightarrow> ok x s \<Longrightarrow> step x s = (t, evs) \<Longrightarrow> contents t = fold apply_ev evs (contents s)"
begin

lemma run_replay:
  "inv s \<Longrightarrow> run_ok step ok xs s \<Longrightarrow> run_steps step xs s = (t, evs) \<Longrightarrow>
     inv t \<and> contents t = fold apply_ev evs (contents s)"
proof (induction xs arbitrary: s t evs)
  case (Cons x xs)
  obtain s1 evs1 where s1: "step x s = (s1, evs1)" by (cases "step x s")
  obtain evs2 where "run_steps step xs s1 = (t, evs2)" "evs = evs1 @ evs2"
    using Cons.prems(3) s1 by (auto split: prod.splits)
  with Cons.IH [of s1 t evs2] Cons.prems s1 step_inv [of s x s1 evs1] step_contents [of s x s1 evs1]
  show ?case by simp
qed simp

text \<open>The contents after a run, from a snapshot of an earlier moment and the later events.\<close>

lemma run_snapshot:
  assumes "inv s" and "run_ok step ok xs s" and "run_steps step xs s = (t, evs)"
    and "\<And>k. \<exists>m \<ge> n. snap k = fold apply_ev (take m evs) (contents s) k"
  shows "fold apply_ev (drop n evs) snap = contents t"
  using fuzzy_replay [OF assms(4)] run_replay [OF assms(1-3)] by simp

end

definition shard_ok :: "shard_op \<Rightarrow> shard \<Rightarrow> bool" where
  "shard_ok x s \<longleftrightarrow> emitting x \<and> op_order_ok x s"

interpretation sh: event_store shard_inv "\<lambda>s. map_of (sh_items s)" shard_ok shard_step
  using shard_step_sound by unfold_locales (auto simp: shard_ok_def)

end
