(* ===== verification/Cache.thy ===== *)
theory Cache
  imports Shard_Props Replay "HOL-Library.Monad_Syntax"
begin

section \<open>The sharded cache\<close>

text \<open>
  internal/cache/cache.go: the configuration, the shards, the selection of a key's shard by its
  hash, and the operations with their counters. \<open>hash\<close> stands for the seeded maphash, \<open>now\<close> for what
  the clock returns (\<open>Expire\<close> reads it twice), \<open>orders\<close> for the orders in which range loops visit the
  shards' maps. An operation on one key runs under the lock of one shard; an operation on several
  shards is the sequence of its shard operations. Each operation returns the events it emits; what
  the dispatcher does with them is in \<open>Events\<close>.
\<close>

subsection \<open>Configuration\<close>

record config =
  cfg_Shards :: int
  cfg_MaxEntries :: int
  cfg_MaxMemory :: int
  cfg_Policy :: string
  cfg_ActiveExpiry :: int
  cfg_EventBuffer :: int

text \<open>\<open>nextPow2\<close> doubles a 64-bit integer until it is no less than \<open>n\<close>; \<^const>\<open>None\<close> is a loop that does
  not end.\<close>

partial_function (option) nextPow2_loop :: "int \<Rightarrow> int \<Rightarrow> int option" where
  "nextPow2_loop n p = (if p < n then nextPow2_loop n (wrap64 (p * 2)) else Some p)"

definition nextPow2 :: "int \<Rightarrow> int option" where
  "nextPow2 n = (if n < 1 then Some 1 else nextPow2_loop n 1)"

definition withDefaults :: "config \<Rightarrow> config option" where
  "withDefaults c =
     (let c1 = (if cfg_Shards c \<le> 0 then c\<lparr>cfg_Shards := 256\<rparr> else c) in
      do {
        n \<leftarrow> nextPow2 (cfg_Shards c1);
        let c2 = c1\<lparr>cfg_Shards := n\<rparr>;
        let c3 = (if cfg_Policy c2 = '''' then c2\<lparr>cfg_Policy := ''noeviction''\<rparr> else c2);
        let c4 = (if cfg_EventBuffer c3 \<le> 0 then c3\<lparr>cfg_EventBuffer := 4096\<rparr> else c3);
        Some c4
      })"

subsection \<open>The cache and its shards\<close>

record cache =
  c_cfg :: config
  c_shards :: "shard list"
  c_mask :: u64
  c_hits :: u64
  c_misses :: u64
  c_sets :: u64
  c_dels :: u64
  c_evictions :: u64
  c_expirations :: u64

definition perShard :: "int \<Rightarrow> int \<Rightarrow> int" where
  "perShard limit shards =
     (if limit > 0 then (let q = go_div limit shards in if q < 1 then 1 else q) else 0)"

fun new_shards ::
  "(string \<Rightarrow> string) \<Rightarrow> (nat \<Rightarrow> nat \<Rightarrow> nat) \<Rightarrow> string \<Rightarrow> int \<Rightarrow> int \<Rightarrow> nat list \<Rightarrow> string + shard list" where
  "new_shards uni rs kind e m [] = Inr []"
| "new_shards uni rs kind e m (i # is) =
     (case Policy_New uni (rs i) kind of
        (pol, Some err) \<Rightarrow> Inl err
      | (pol, None) \<Rightarrow>
          (case new_shards uni rs kind e m is of
             Inl err \<Rightarrow> Inl err
           | Inr ss \<Rightarrow> Inr (newShard pol e m # ss)))"

definition cache_New ::
  "(string \<Rightarrow> string) \<Rightarrow> (nat \<Rightarrow> nat \<Rightarrow> nat) \<Rightarrow> config \<Rightarrow> (string + cache) option" where
  "cache_New uni rs cfg0 =
     do {
       cfg \<leftarrow> withDefaults cfg0;
       let e = perShard (cfg_MaxEntries cfg) (cfg_Shards cfg);
       let m = perShard (cfg_MaxMemory cfg) (cfg_Shards cfg);
       Some (case new_shards uni rs (cfg_Policy cfg) e m [0..<nat (cfg_Shards cfg)] of
         Inl err \<Rightarrow> Inl err
       | Inr ss \<Rightarrow> Inr \<lparr>c_cfg = cfg, c_shards = ss, c_mask = of_int (cfg_Shards cfg - 1),
           c_hits = 0, c_misses = 0, c_sets = 0, c_dels = 0, c_evictions = 0, c_expirations = 0\<rparr>)
     }"

text \<open>The index \<open>h.Sum64() & c.mask\<close>.\<close>

definition shardIdx :: "(string \<Rightarrow> u64) \<Rightarrow> cache \<Rightarrow> string \<Rightarrow> nat" where
  "shardIdx hash c key = unat (and (hash key) (c_mask c))"

definition shardFor :: "(string \<Rightarrow> u64) \<Rightarrow> cache \<Rightarrow> string \<Rightarrow> shard" where
  "shardFor hash c key = c_shards c ! shardIdx hash c key"

definition put_shard :: "nat \<Rightarrow> shard \<Rightarrow> cache \<Rightarrow> cache" where
  "put_shard i s c = c\<lparr>c_shards := (c_shards c)[i := s]\<rparr>"

subsection \<open>Operations\<close>

definition add_evictions :: "string list \<Rightarrow> cache \<Rightarrow> cache" where
  "add_evictions evicted c =
     (if length evicted > 0 then c\<lparr>c_evictions := c_evictions c + of_nat (length evicted)\<rparr> else c)"

definition add_expiration :: "string \<Rightarrow> cache \<Rightarrow> cache" where
  "add_expiration expiredKey c =
     (if expiredKey \<noteq> '''' then c\<lparr>c_expirations := c_expirations c + 1\<rparr> else c)"

definition expiry :: "int \<Rightarrow> int \<Rightarrow> int" where
  "expiry ttl now = (if ttl > 0 then wrap64 (now + ttl) else 0)"

definition SetTTL :: "(string \<Rightarrow> u64) \<Rightarrow> string \<Rightarrow> bytes \<Rightarrow> int \<Rightarrow> int \<Rightarrow> cache \<Rightarrow> cache \<times> event list" where
  "SetTTL hash key value ttl now c =
     (let (s, evicted, evs) = shard_set key value (expiry ttl now) (shardFor hash c key);
          c1 = put_shard (shardIdx hash c key) s c;
          c2 = c1\<lparr>c_sets := c_sets c1 + 1\<rparr>
      in (add_evictions evicted c2, evs))"

definition Set :: "(string \<Rightarrow> u64) \<Rightarrow> string \<Rightarrow> bytes \<Rightarrow> cache \<Rightarrow> cache \<times> event list" where
  "Set hash key value c = SetTTL hash key value 0 0 c"

definition Get :: "(string \<Rightarrow> u64) \<Rightarrow> string \<Rightarrow> int \<Rightarrow> cache \<Rightarrow> cache \<times> (bytes \<times> bool) \<times> event list" where
  "Get hash key now c =
     (let (s, (val, found, expiredKey), evs) = shard_get key now (shardFor hash c key);
          c1 = add_expiration expiredKey (put_shard (shardIdx hash c key) s c);
          c2 = (if found then c1\<lparr>c_hits := c_hits c1 + 1\<rparr> else c1\<lparr>c_misses := c_misses c1 + 1\<rparr>)
      in (c2, (val, found), evs))"

definition Delete :: "(string \<Rightarrow> u64) \<Rightarrow> string \<Rightarrow> cache \<Rightarrow> cache \<times> bool \<times> event list" where
  "Delete hash key c =
     (let (s, ok, evs) = shard_del key (shardFor hash c key);
          c1 = put_shard (shardIdx hash c key) s c
      in (if ok then c1\<lparr>c_dels := c_dels c1 + 1\<rparr> else c1, ok, evs))"

definition Exists :: "(string \<Rightarrow> u64) \<Rightarrow> string \<Rightarrow> int \<Rightarrow> cache \<Rightarrow> cache \<times> bool \<times> event list" where
  "Exists hash key now c =
     (let (s, (ok, expiredKey), evs) = shard_exists key now (shardFor hash c key)
      in (add_expiration expiredKey (put_shard (shardIdx hash c key) s c), ok, evs))"

definition IncrBy ::
  "(string \<Rightarrow> u64) \<Rightarrow> string \<Rightarrow> int \<Rightarrow> int \<Rightarrow> cache \<Rightarrow> cache \<times> (cache_error + int) \<times> event list" where
  "IncrBy hash key delta now c =
     (let (s, r, evs) = shard_incrBy key delta now (shardFor hash c key);
          c1 = put_shard (shardIdx hash c key) s c
      in case r of
           Inl err \<Rightarrow> (c1, Inl err, evs)
         | Inr (v, evicted) \<Rightarrow> (add_evictions evicted (c1\<lparr>c_sets := c_sets c1 + 1\<rparr>), Inr v, evs))"

definition Incr where "Incr hash key now c = IncrBy hash key 1 now c"
definition Decr where "Decr hash key now c = IncrBy hash key (-1) now c"
definition DecrBy where "DecrBy hash key delta now c = IncrBy hash key (wrap64 (- delta)) now c"

definition Expire :: "(string \<Rightarrow> u64) \<Rightarrow> string \<Rightarrow> int \<Rightarrow> int \<Rightarrow> int \<Rightarrow> cache \<Rightarrow> cache \<times> bool \<times> event list" where
  "Expire hash key ttl now1 now2 c =
     (let (s, (ok, expiredKey), evs) = shard_expire key (expiry ttl now1) now2 (shardFor hash c key)
      in (add_expiration expiredKey (put_shard (shardIdx hash c key) s c), ok, evs))"

definition TTL :: "(string \<Rightarrow> u64) \<Rightarrow> string \<Rightarrow> int \<Rightarrow> cache \<Rightarrow> cache \<times> (int \<times> bool \<times> bool) \<times> event list" where
  "TTL hash key now c =
     (let (s, (expireAt, ok, expiredKey), evs) = shard_ttl key now (shardFor hash c key);
          c1 = add_expiration expiredKey (put_shard (shardIdx hash c key) s c)
      in if \<not> ok then (c1, (0, False, False), evs)
         else if expireAt = 0 then (c1, (0, True, True), evs)
         else (c1, (wrap64 (expireAt - now), True, False), evs))"

text \<open>\<open>MSet\<close> and \<open>MGet\<close> call \<open>SetTTL\<close> and \<open>Get\<close> in turn; each element carries the clock reading of
  its call.\<close>

record KV =
  kv_Key :: string
  kv_Value :: bytes
  kv_TTL :: int

fun MSet :: "(string \<Rightarrow> u64) \<Rightarrow> (KV \<times> int) list \<Rightarrow> cache \<Rightarrow> cache \<times> event list" where
  "MSet hash [] c = (c, [])"
| "MSet hash ((p, now) # ps) c =
     (let (c1, evs1) = SetTTL hash (kv_Key p) (kv_Value p) (kv_TTL p) now c;
          (c2, evs2) = MSet hash ps c1
      in (c2, evs1 @ evs2))"

fun MGet :: "(string \<Rightarrow> u64) \<Rightarrow> (string \<times> int) list \<Rightarrow> cache \<Rightarrow> cache \<times> (bytes \<times> bool) list \<times> event list" where
  "MGet hash [] c = (c, [], [])"
| "MGet hash ((k, now) # ks) c =
     (let (c1, r, evs1) = Get hash k now c;
          (c2, rs, evs2) = MGet hash ks c1
      in (c2, r # rs, evs1 @ evs2))"

definition Keys :: "string list list \<Rightarrow> int \<Rightarrow> cache \<Rightarrow> string list" where
  "Keys orders now c = concat (map (\<lambda>(order, s). shard_keys order now s) (zip orders (c_shards c)))"

definition cache_Len :: "cache \<Rightarrow> nat" where
  "cache_Len c = sum_list (map shard_len (c_shards c))"

definition FlushAll :: "string list list \<Rightarrow> cache \<Rightarrow> cache \<times> event list" where
  "FlushAll orders c =
     (let rs = map (\<lambda>(order, s). shard_flush order s) (zip orders (c_shards c))
      in (c\<lparr>c_shards := map fst rs\<rparr>, concat (map snd rs)))"

text \<open>One tick of \<open>activeExpiry\<close>, which samples 32 items of each shard.\<close>

definition expiry_tick :: "string list list \<Rightarrow> int \<Rightarrow> cache \<Rightarrow> cache \<times> event list" where
  "expiry_tick orders now c =
     (let rs = map (\<lambda>(order, s). sweepExpired order now 32 s) (zip orders (c_shards c));
          n = sum_list (map (\<lambda>(s, expired, evs). length expired) rs)
      in (c\<lparr>c_shards := map fst rs, c_expirations := c_expirations c + of_nat n\<rparr>,
          concat (map (\<lambda>(s, expired, evs). evs) rs)))"

record Stats =
  st_Hits :: u64
  st_Misses :: u64
  st_Sets :: u64
  st_Deletes :: u64
  st_Evictions :: u64
  st_Expirations :: u64
  st_Keys :: int
  st_MemoryBytes :: int

definition cache_Stats :: "cache \<Rightarrow> Stats" where
  "cache_Stats c =
     \<lparr>st_Hits = c_hits c, st_Misses = c_misses c, st_Sets = c_sets c, st_Deletes = c_dels c,
      st_Evictions = c_evictions c, st_Expirations = c_expirations c,
      st_Keys = sum_list (map (\<lambda>s. int (shard_len s)) (c_shards c)),
      st_MemoryBytes = sum_list (map memBytes (c_shards c))\<rparr>"

definition Export :: "string list list \<Rightarrow> int \<Rightarrow> cache \<Rightarrow> (string \<times> bytes \<times> int) list" where
  "Export orders now c = concat (map (\<lambda>(order, s). shard_export order now s) (zip orders (c_shards c)))"

definition ApplyEvent :: "(string \<Rightarrow> u64) \<Rightarrow> string list list \<Rightarrow> event \<Rightarrow> cache \<Rightarrow> cache" where
  "ApplyEvent hash orders ev c =
     (let key = ev_Key ev; i = shardIdx hash c key; s = shardFor hash c key in
      if ev_Op ev = OpSet then put_shard i (applySet key (ev_Value ev) (ev_ExpireAt ev) s) c
      else if ev_Op ev = OpDel then put_shard i (applyDel key s) c
      else if ev_Op ev = OpExpire then put_shard i (applyExpire key (ev_ExpireAt ev) s) c
      else if ev_Op ev = OpFlush
        then c\<lparr>c_shards := map (\<lambda>(order, s). flushSilent order s) (zip orders (c_shards c))\<rparr>
      else c)"

end
