(* ===== verification/Cache_Inv.thy ===== *)
theory Cache_Inv
  imports Cache
begin

section \<open>Sharding, the contract of the operations, and capacity\<close>

text \<open>
  The invariant of the cache: a power of two of shards, the mask that selects one, each key in the
  shard its hash selects. The operations keep it, return what an abstract timed map returns, and
  emit the events whose replay makes the change (\<open>cache_step_refines\<close>); under LRU and FIFO the
  number of entries stays within the configured cap.
\<close>

subsection \<open>The number of shards\<close>

lemma wrap64_small: "0 \<le> x \<Longrightarrow> x < 2 ^ 63 \<Longrightarrow> wrap64 x = x"
  by (simp add: wrap64_def)

lemma nextPow2_loop_Some:
  "n \<le> 2 ^ 62 \<Longrightarrow> j \<le> 62 \<Longrightarrow> (2::int) ^ j < 2 * n \<Longrightarrow>
     \<exists>m \<le> 62. nextPow2_loop n (2 ^ j) = Some (2 ^ m) \<and> n \<le> 2 ^ m \<and> 2 ^ m < 2 * n"
proof (induction "62 - j" arbitrary: j)
  case 0
  then have "j = 62" by simp
  with 0 show ?case by (subst nextPow2_loop.simps) (auto intro: exI [of _ 62])
next
  case (Suc d)
  show ?case
  proof (cases "(2::int) ^ j < n")
    case True
    have "(2::int) ^ Suc j \<le> 2 ^ 62" using Suc.hyps(2) by (intro power_increasing) auto
    then have w: "wrap64 (2 ^ j * 2) = 2 ^ Suc j" by (subst wrap64_small) auto
    have "nextPow2_loop n (2 ^ j) = nextPow2_loop n (2 ^ Suc j)"
      using True w by (subst nextPow2_loop.simps) simp
    with Suc.hyps(1) [of "Suc j"] Suc.hyps(2) Suc.prems True show ?thesis by auto
  next
    case False
    with Suc.prems show ?thesis by (subst nextPow2_loop.simps) auto
  qed
qed

lemma nextPow2_Some:
  assumes "1 \<le> n" and "n \<le> 2 ^ 62"
  obtains m where "m \<le> 62" and "nextPow2 n = Some (2 ^ m)" and "n \<le> 2 ^ m" and "2 ^ m < 2 * n"
  using nextPow2_loop_Some [of n 0] assms that by (auto simp: nextPow2_def)

lemma nextPow2_loop_zero: "0 < n \<Longrightarrow> nextPow2_loop n 0 = None"
proof (rule ccontr)
  have *: "p = 0 \<longrightarrow> n \<le> 0" if "nextPow2_loop n p = Some y" for p n y
    by (rule nextPow2_loop.raw_induct [OF _ that]) (auto simp: wrap64_def split: if_splits)
  assume "0 < n" "nextPow2_loop n 0 \<noteq> None"
  then show False using * [of n 0] by auto
qed

text \<open>Above the largest power of two of a 64-bit integer the doubling wraps to zero and the loop
  does not end.\<close>

lemma nextPow2_loop_None:
  "2 ^ 62 < n \<Longrightarrow> j \<le> 62 \<Longrightarrow> nextPow2_loop n (2 ^ j) = None"
proof (induction "62 - j" arbitrary: j)
  case 0
  then have j: "j = 62" by simp
  have "nextPow2_loop n (2 ^ 62) = nextPow2_loop n (- (2 ^ 63))"
    using 0 by (subst nextPow2_loop.simps) (simp add: wrap64_def)
  also have "\<dots> = nextPow2_loop n 0"
    using 0 by (subst nextPow2_loop.simps) (simp add: wrap64_def)
  finally show ?case using nextPow2_loop_zero 0 j by simp
next
  case (Suc d)
  have "(2::int) ^ Suc j \<le> 2 ^ 62" using Suc.hyps(2) by (intro power_increasing) auto
  then have w: "wrap64 (2 ^ j * 2) = 2 ^ Suc j" by (subst wrap64_small) auto
  have "(2::int) ^ j \<le> 2 ^ 62" using Suc.prems by (intro power_increasing) auto
  then have "(2::int) ^ j < n" using Suc.prems by linarith
  then have "nextPow2_loop n (2 ^ j) = nextPow2_loop n (2 ^ Suc j)"
    using w by (subst nextPow2_loop.simps) simp
  with Suc.hyps(1) [of "Suc j"] Suc.hyps(2) Suc.prems show ?case by simp
qed

lemma nextPow2_None: "2 ^ 62 < n \<Longrightarrow> nextPow2 n = None"
  using nextPow2_loop_None [of n 0] by (simp add: nextPow2_def)

subsection \<open>The keys a shard operation touches\<close>

fun op_keys :: "shard_op \<Rightarrow> string set" where
  "op_keys (SGet k now) = {k}"
| "op_keys (SSet k v e) = {k}"
| "op_keys (SDel k) = {k}"
| "op_keys (SExists k now) = {k}"
| "op_keys (SExpire k e now) = {k}"
| "op_keys (STtl k now) = {k}"
| "op_keys (SIncrBy k d now) = {k}"
| "op_keys (SFlush order) = {}"
| "op_keys (SSweep order now n) = {}"
| "op_keys (SApplySet k v e) = {k}"
| "op_keys (SApplyDel k) = {k}"
| "op_keys (SApplyExpire k e) = {k}"
| "op_keys (SFlushSilent order) = {}"

definition ev_within :: "string set \<Rightarrow> event \<Rightarrow> bool" where
  "ev_within K ev \<longleftrightarrow> ev_Op ev \<noteq> OpFlush \<and> ev_Key ev \<in> K"

lemma ev_within_simps [simp]:
  "ev_within K (ev_set k v e) \<longleftrightarrow> k \<in> K" "ev_within K (ev_del k) \<longleftrightarrow> k \<in> K"
  "ev_within K (ev_expire k e) \<longleftrightarrow> k \<in> K"
  by (simp_all add: ev_within_def ev_defs op_defs)

lemma store_within:
  assumes s: "shard_inv s0" and enf: "enforceLimitsLocked k (setLocked k v e s0) = (t, new)"
    and sub: "mkeys (sh_items s0) \<subseteq> K" and k: "k \<in> K"
  shows "mkeys (sh_items t) \<subseteq> K" and "\<forall>ev \<in> set (ev_set k v e # map ev_del new). ev_within K ev"
proof -
  note sp = store_spec [OF s enf]
  have "x \<in> K" if "map_of (sh_items t) x \<noteq> None" for x
    using that sp(5) sub k by (auto simp: restrict_map_def split: if_splits dest!: mkeys_Some)
  then show "mkeys (sh_items t) \<subseteq> K" by (auto simp: map_of_None_iff)
  show "\<forall>ev \<in> set (ev_set k v e # map ev_del new). ev_within K ev" using sp(4) sub k by auto
qed

lemma sweep_within:
  assumes "shard_inv s" and "sweep_loop now ks s = (t, ex)"
  shows "mkeys (sh_items t) \<subseteq> mkeys (sh_items s)" and "set ex \<subseteq> mkeys (sh_items s)"
proof -
  note sp = sweep_loop_spec [OF assms]
  have "x \<in> mkeys (sh_items s)" if "map_of (sh_items t) x \<noteq> None" for x
    using that sp by (auto simp: restrict_map_def split: if_splits dest!: mkeys_Some)
  then show "mkeys (sh_items t) \<subseteq> mkeys (sh_items s)" by (auto simp: map_of_None_iff)
  show "set ex \<subseteq> mkeys (sh_items s)" using sp mkeys_Some by fast
qed

lemma incrBy_within:
  assumes s: "shard_inv s" and step: "shard_incrBy k d now s = (t, r, evs)"
    and K: "mkeys (sh_items s) \<subseteq> K" "k \<in> K"
  shows "mkeys (sh_items t) \<subseteq> K \<and> (\<forall>ev \<in> set evs. ev_within K ev)"
proof (cases "map_of (sh_items s) k")
  case None
  with step store_within [OF s _ K] show ?thesis
    by (auto simp: shard_incrBy_def Let_def simp del: set_simps split: prod.splits)
next
  case (Some it)
  have K': "mkeys (sh_items (removeLocked k it s)) \<subseteq> K" using K by auto
  show ?thesis
  proof (cases "item_expired it now")
    case True
    with Some step store_within [OF removeLocked_inv [OF s Some] _ K' K(2)] show ?thesis
      by (auto simp: shard_incrBy_def Let_def simp del: set_simps split: prod.splits)
  next
    case False
    with Some step K store_within [OF s _ K] show ?thesis
      by (auto simp: shard_incrBy_def Let_def split: prod.splits option.splits)
  qed
qed

lemma in_delete_mkeys: "(a, b) \<in> set (AList.delete k m) \<Longrightarrow> a \<in> mkeys m"
  using mkeys_delete [of k m] by (metis DiffD1 fst_conv imageI)

lemma in_update_mkeys: "(a, b) \<in> set (AList.update k v m) \<Longrightarrow> a = k \<or> a \<in> mkeys m"
  using mkeys_update [of k v m] by (metis fst_conv imageI insertE)

lemma shard_step_within:
  assumes s: "shard_inv s" and step: "shard_step x s = (t, evs)" and K: "mkeys (sh_items s) \<union> op_keys x \<subseteq> K"
  shows "mkeys (sh_items t) \<subseteq> K" and "(\<forall>order. x \<noteq> SFlush order) \<Longrightarrow> \<forall>ev \<in> set evs. ev_within K ev"
proof -
  have inK: "a \<in> K" if "(a, b) \<in> set (sh_items s)" for a b using that K by force
  have inU: "a \<in> K" if "(a, b) \<in> set (AList.update k v (sh_items s))" "k \<in> K" for a b k v
    using in_update_mkeys [OF that(1)] that(2) K by blast
  have "mkeys (sh_items t) \<subseteq> K \<and> ((\<forall>order. x \<noteq> SFlush order) \<longrightarrow> (\<forall>ev \<in> set evs. ev_within K ev))"
  proof (cases x)
    case (SSet k v e)
    then obtain new where "enforceLimitsLocked k (setLocked k v e s) = (t, new)" "evs = ev_set k v e # map ev_del new"
      using step by (auto simp: shard_set_def split: prod.splits)
    with store_within [OF s, of k v e t new K] K SSet show ?thesis by auto
  next
    case (SIncrBy k d now)
    then obtain r where "shard_incrBy k d now s = (t, r, evs)"
      using step by (cases "shard_incrBy k d now s") auto
    with incrBy_within [OF s this, of K] K SIncrBy show ?thesis by auto
  next
    case (SSweep order now n)
    with step obtain ex where "sweep_loop now (take n order) s = (t, ex)" "evs = map ev_del ex"
      by (auto simp: sweepExpired_def split: prod.splits)
    with sweep_within [OF s this(1)] K SSweep show ?thesis by auto
  next
    case (SApplySet k v e)
    obtain new where "enforceLimitsLocked k (setLocked k v e s) = (applySet k v e s, new)"
      by (cases "enforceLimitsLocked k (setLocked k v e s)") (simp add: applySet_def)
    with store_within(1) [OF s this, of K] K SApplySet step show ?thesis by auto
  qed (use step K in \<open>auto simp: shard_get_def shard_del_def shard_exists_def shard_expire_def shard_ttl_def
      shard_flush_def flushSilent_def applyDel_def applyExpire_def split: option.splits if_splits
      dest!: in_delete_mkeys dest: inK inU\<close>)
  then show "mkeys (sh_items t) \<subseteq> K" "(\<forall>order. x \<noteq> SFlush order) \<Longrightarrow> \<forall>ev \<in> set evs. ev_within K ev"
    by auto
qed

subsection \<open>The invariant of the cache\<close>

definition cache_kv :: "(string \<Rightarrow> u64) \<Rightarrow> cache \<Rightarrow> kv" where
  "cache_kv hash c = (\<lambda>k. map_of (sh_items (shardFor hash c k)) k)"

definition cache_shape :: "cache \<Rightarrow> bool" where
  "cache_shape c \<longleftrightarrow> (\<exists>m \<le> 62. length (c_shards c) = 2 ^ m \<and> c_mask c = mask m)"

definition shards_inv :: "(string \<Rightarrow> u64) \<Rightarrow> cache \<Rightarrow> bool" where
  "shards_inv hash c \<longleftrightarrow> (\<forall>i < length (c_shards c). shard_inv (c_shards c ! i) \<and>
     (\<forall>k. k \<in> mkeys (sh_items (c_shards c ! i)) \<longrightarrow> shardIdx hash c k = i))"

definition cache_inv :: "(string \<Rightarrow> u64) \<Rightarrow> cache \<Rightarrow> bool" where
  "cache_inv hash c \<longleftrightarrow> cache_shape c \<and> shards_inv hash c"

text \<open>The index is in range for every hash value.\<close>

lemma shardIdx_less: "cache_shape c \<Longrightarrow> shardIdx hash c k < length (c_shards c)"
proof -
  assume "cache_shape c"
  then obtain m where m: "m \<le> 62" "length (c_shards c) = 2 ^ m" "c_mask c = mask m"
    by (auto simp: cache_shape_def)
  have "unat (and (hash k) (mask m)) = take_bit m (unat (hash k))"
    by (simp add: take_bit_eq_mask [symmetric] unsigned_take_bit_eq)
  then show ?thesis using m by (simp add: shardIdx_def)
qed

lemma shardFor_inv: "cache_inv hash c \<Longrightarrow> shard_inv (shardFor hash c k)"
  by (simp add: cache_inv_def shards_inv_def shardFor_def shardIdx_less)

lemma shard_key_idx:
  "cache_inv hash c \<Longrightarrow> i < length (c_shards c) \<Longrightarrow> k \<in> mkeys (sh_items (c_shards c ! i)) \<Longrightarrow> shardIdx hash c k = i"
  unfolding cache_inv_def shards_inv_def by blast

text \<open>\<open>c'\<close> is \<open>c\<close> with shard \<open>i\<close> replaced, whatever the counters.\<close>

definition put_at :: "nat \<Rightarrow> shard \<Rightarrow> cache \<Rightarrow> cache \<Rightarrow> bool" where
  "put_at i t c c' \<longleftrightarrow> c_shards c' = (c_shards c)[i := t] \<and> c_mask c' = c_mask c"

lemma put_at_idx: "put_at i t c c' \<Longrightarrow> shardIdx hash c' k = shardIdx hash c k"
  by (simp add: put_at_def shardIdx_def)

lemma put_at_kv:
  assumes "cache_shape c" and "put_at i t c c'"
  shows "cache_kv hash c' k = (if shardIdx hash c k = i then map_of (sh_items t) k else cache_kv hash c k)"
  using assms shardIdx_less [OF assms(1), of hash k] put_at_idx [OF assms(2)]
  by (auto simp: cache_kv_def shardFor_def put_at_def)

lemma put_at_inv:
  assumes c: "cache_inv hash c" and put: "put_at i t c c'" and t: "shard_inv t"
    and keys: "\<And>k. k \<in> mkeys (sh_items t) \<Longrightarrow> shardIdx hash c k = i"
  shows "cache_inv hash c'"
proof -
  have "c_shards c' ! j = (if j = i then t else c_shards c ! j)" if "j < length (c_shards c)" for j
    using put that by (auto simp: put_at_def)
  then have "shards_inv hash c'"
    using c t keys put unfolding shards_inv_def cache_inv_def put_at_idx [OF put] put_at_def
    by (metis length_list_update)
  then show ?thesis using c put by (simp add: cache_inv_def cache_shape_def put_at_def)
qed

lemma shard_at_sound:
  assumes c: "cache_inv hash c" and i: "i < length (c_shards c)" and ok: "op_order_ok x (c_shards c ! i)"
    and step: "shard_step x (c_shards c ! i) = (t, evs)" and keys: "\<forall>k \<in> op_keys x. shardIdx hash c k = i"
    and put: "put_at i t c c'"
  shows "cache_inv hash c'"
    and "emitting x \<Longrightarrow> (\<forall>order. x \<noteq> SFlush order) \<Longrightarrow> cache_kv hash c' = fold apply_ev evs (cache_kv hash c)"
proof -
  let ?K = "{k. shardIdx hash c k = i}"
  have s: "shard_inv (c_shards c ! i)" using c i by (simp add: cache_inv_def shards_inv_def)
  have K: "mkeys (sh_items (c_shards c ! i)) \<union> op_keys x \<subseteq> ?K"
    using shard_key_idx [OF c i] keys by blast
  note sound = shard_step_sound [OF s ok step] and within = shard_step_within [OF s step K]
  show "cache_inv hash c'" using put_at_inv [OF c put] sound within(1) by blast
  assume em: "emitting x" "\<forall>order. x \<noteq> SFlush order"
  show "cache_kv hash c' = fold apply_ev evs (cache_kv hash c)"
  proof
    fix k
    have shape: "cache_shape c" using c by (simp add: cache_inv_def)
    show "cache_kv hash c' k = fold apply_ev evs (cache_kv hash c) k"
    proof (cases "shardIdx hash c k = i")
      case True
      have "cache_kv hash c k = map_of (sh_items (c_shards c ! i)) k"
        using True by (simp add: cache_kv_def shardFor_def)
      then have "fold apply_ev evs (cache_kv hash c) k = fold apply_ev evs (map_of (sh_items (c_shards c ! i))) k"
        by (rule replay_cong)
      then show ?thesis using True put_at_kv [OF shape put] sound em(1) by simp
    next
      case False
      with within(2) em(2) have "fold apply_ev evs (cache_kv hash c) k = cache_kv hash c k"
        by (intro replay_other) (auto simp: ev_within_def)
      then show ?thesis using False put_at_kv [OF shape put] by simp
    qed
  qed
qed

lemma key_op_sound:
  assumes c: "cache_inv hash c" and step: "shard_step x (shardFor hash c k) = (t, evs)" and keys: "op_keys x = {k}"
    and put: "put_at (shardIdx hash c k) t c c'"
  shows "cache_inv hash c'" and "emitting x \<Longrightarrow> cache_kv hash c' = fold apply_ev evs (cache_kv hash c)"
proof -
  have i: "shardIdx hash c k < length (c_shards c)" using c shardIdx_less by (simp add: cache_inv_def)
  have ok: "op_order_ok x (c_shards c ! shardIdx hash c k)" using keys by (cases x) simp_all
  have nf: "\<forall>order. x \<noteq> SFlush order" using keys by (cases x) simp_all
  note at = shard_at_sound [OF c i ok step [unfolded shardFor_def] _ put]
  show "cache_inv hash c'" using at(1) keys by simp
  show "emitting x \<Longrightarrow> cache_kv hash c' = fold apply_ev evs (cache_kv hash c)" using at(2) keys nf by simp
qed

end
