(* ===== verification/Cache_Spec.thy ===== *)
theory Cache_Spec
  imports Cache_Inv
begin

section \<open>The cache refines a timed map\<close>

text \<open>
  The contract of internal/cache/cache.go as an abstract map from keys to items with an expiry,
  with no shards, policies or counters. What the cache may choose is a set of keys: the ones it
  evicts to store another, or the expired ones that an expiry tick removes. Every operation of the cache
  refines its abstract counterpart, results included.
\<close>

datatype cache_op =
    CSet string bytes int int
  | CGet string int
  | CDel string
  | CExists string int
  | CIncrBy string int int
  | CExpire string int int int
  | CTtl string int
  | CFlushAll "string list list"
  | CTick "string list list" int

datatype cache_res =
    RUnit
  | RVal bytes bool
  | RBool bool
  | RInt "cache_error + int"
  | RTtl int bool bool

fun cache_exec :: "(string \<Rightarrow> u64) \<Rightarrow> cache_op \<Rightarrow> cache \<Rightarrow> cache \<times> cache_res \<times> event list" where
  "cache_exec hash (CSet k v ttl now) c = (let (c1, evs) = SetTTL hash k v ttl now c in (c1, RUnit, evs))"
| "cache_exec hash (CGet k now) c = (let (c1, (v, f), evs) = Get hash k now c in (c1, RVal v f, evs))"
| "cache_exec hash (CDel k) c = (let (c1, b, evs) = Delete hash k c in (c1, RBool b, evs))"
| "cache_exec hash (CExists k now) c = (let (c1, b, evs) = Exists hash k now c in (c1, RBool b, evs))"
| "cache_exec hash (CIncrBy k d now) c = (let (c1, r, evs) = IncrBy hash k d now c in (c1, RInt r, evs))"
| "cache_exec hash (CExpire k ttl now1 now2) c =
     (let (c1, b, evs) = Expire hash k ttl now1 now2 c in (c1, RBool b, evs))"
| "cache_exec hash (CTtl k now) c = (let (c1, (d, f, p), evs) = TTL hash k now c in (c1, RTtl d f p, evs))"
| "cache_exec hash (CFlushAll orders) c = (let (c1, evs) = FlushAll orders c in (c1, RUnit, evs))"
| "cache_exec hash (CTick orders now) c = (let (c1, evs) = expiry_tick orders now c in (c1, RUnit, evs))"

definition orders_ok :: "string list list \<Rightarrow> cache \<Rightarrow> bool" where
  "orders_ok orders c \<longleftrightarrow> list_all2 visits orders (c_shards c)"

fun cache_op_ok :: "cache_op \<Rightarrow> cache \<Rightarrow> bool" where
  "cache_op_ok (CFlushAll orders) c = orders_ok orders c"
| "cache_op_ok (CTick orders now) c = orders_ok orders c"
| "cache_op_ok _ c = True"

subsection \<open>The abstract map\<close>

definition live :: "int \<Rightarrow> kv \<Rightarrow> string \<Rightarrow> item option" where
  "live now m k = (case m k of None \<Rightarrow> None | Some it \<Rightarrow> if item_expired it now then None else Some it)"

definition purge :: "int \<Rightarrow> string \<Rightarrow> kv \<Rightarrow> kv" where
  "purge now k m = (if live now m k = None then m(k := None) else m)"

text \<open>\<open>E\<close> is the set of keys that the cache chose to remove.\<close>

fun spec_step :: "cache_op \<Rightarrow> string set \<Rightarrow> kv \<Rightarrow> kv \<times> cache_res" where
  "spec_step (CSet k v ttl now) E m =
     ((m |` (- E))(k \<mapsto> \<lparr>it_value = clone_bytes v, it_expireAt = expiry ttl now\<rparr>), RUnit)"
| "spec_step (CGet k now) E m =
     (purge now k m, case live now m k of None \<Rightarrow> RVal None False | Some it \<Rightarrow> RVal (it_value it) True)"
| "spec_step (CDel k) E m = (m(k := None), RBool (m k \<noteq> None))"
| "spec_step (CExists k now) E m = (purge now k m, RBool (live now m k \<noteq> None))"
| "spec_step (CIncrBy k d now) E m =
     (case (case live now m k of None \<Rightarrow> Some 0 | Some it \<Rightarrow> parse_int (str_of (it_value it))) of
        None \<Rightarrow> (m, RInt (Inl ErrNotInteger))
      | Some b \<Rightarrow>
          ((m |` (- E))(k \<mapsto> \<lparr>it_value = Some (format_int (wrap64 (b + d))), it_expireAt = 0\<rparr>),
           RInt (Inr (wrap64 (b + d)))))"
| "spec_step (CExpire k ttl now1 now2) E m =
     (case live now2 m k of
        None \<Rightarrow> (purge now2 k m, RBool False)
      | Some it \<Rightarrow> (m(k \<mapsto> it\<lparr>it_expireAt := expiry ttl now1\<rparr>), RBool True))"
| "spec_step (CTtl k now) E m =
     (purge now k m,
      case live now m k of
        None \<Rightarrow> RTtl 0 False False
      | Some it \<Rightarrow> if it_expireAt it = 0 then RTtl 0 True True else RTtl (wrap64 (it_expireAt it - now)) True False)"
| "spec_step (CFlushAll orders) E m = (Map.empty, RUnit)"
| "spec_step (CTick orders now) E m = (m |` (- E), RUnit)"

fun spec_may :: "cache_op \<Rightarrow> kv \<Rightarrow> string set" where
  "spec_may (CSet k v ttl now) m = dom m - {k}"
| "spec_may (CIncrBy k d now) m = dom m - {k}"
| "spec_may (CTick orders now) m = {k. m k \<noteq> None \<and> live now m k = None}"
| "spec_may _ m = {}"

subsection \<open>Refinement\<close>

definition refines :: "(string \<Rightarrow> u64) \<Rightarrow> cache_op \<Rightarrow> cache \<Rightarrow> bool" where
  "refines hash x c \<longleftrightarrow>
     (case cache_exec hash x c of (c', res, evs) \<Rightarrow>
        cache_inv hash c' \<and> cache_kv hash c' = fold apply_ev evs (cache_kv hash c) \<and>
        (\<exists>E \<subseteq> spec_may x (cache_kv hash c). spec_step x E (cache_kv hash c) = (cache_kv hash c', res)))"

lemma put_at_counters [simp]:
  "put_at i t c (put_shard i t c)"
  "put_at i t c (add_evictions ks c') \<longleftrightarrow> put_at i t c c'"
  "put_at i t c (add_expiration k c') \<longleftrightarrow> put_at i t c c'"
  "put_at i t c (c'\<lparr>c_hits := n\<rparr>) \<longleftrightarrow> put_at i t c c'"
  "put_at i t c (c'\<lparr>c_misses := n\<rparr>) \<longleftrightarrow> put_at i t c c'"
  "put_at i t c (c'\<lparr>c_sets := n\<rparr>) \<longleftrightarrow> put_at i t c c'"
  "put_at i t c (c'\<lparr>c_dels := n\<rparr>) \<longleftrightarrow> put_at i t c c'"
  by (simp_all add: put_at_def put_shard_def add_evictions_def add_expiration_def)

lemma shardFor_item: "map_of (sh_items (shardFor hash c k)) k = cache_kv hash c k"
  by (simp add: cache_kv_def)

text \<open>A keyed operation refines its specification when, at the level of its shard, it is a shard
  operation whose events turn the abstract map into the specified one.\<close>

lemma refines_key:
  assumes c: "cache_inv hash c" and exec: "cache_exec hash x c = (c', res, evs)"
    and step: "shard_step y (shardFor hash c k) = (t, evs)" "op_keys y = {k}" "emitting y"
    and put: "put_at (shardIdx hash c k) t c c'"
    and spec: "E \<subseteq> spec_may x (cache_kv hash c)"
      "spec_step x E (cache_kv hash c) = (fold apply_ev evs (cache_kv hash c), res)"
  shows "refines hash x c"
  using key_op_sound [OF c step(1,2) put] step(3) exec spec by (auto simp: refines_def)

lemma refines_Get: "cache_inv hash c \<Longrightarrow> refines hash (CGet k now) c"
proof -
  assume c: "cache_inv hash c"
  obtain t v f ek evs where g: "shard_get k now (shardFor hash c k) = (t, (v, f, ek), evs)"
    by (cases "shard_get k now (shardFor hash c k)") auto
  obtain c' where ex: "cache_exec hash (CGet k now) c = (c', RVal v f, evs)" "put_at (shardIdx hash c k) t c c'"
    using g by (auto simp: Get_def Let_def)
  show ?thesis
    using g by (intro refines_key [OF c ex(1) _ _ _ ex(2), of "SGet k now" "{}"])
      (auto simp: shard_get_def shardFor_item live_def purge_def fun_eq_iff split: option.splits if_splits)
qed

lemma shard_keys_dom:
  assumes c: "cache_inv hash c" and x: "x \<in> mkeys (sh_items (shardFor hash c k))"
  shows "x \<in> dom (cache_kv hash c)"
proof -
  have "shardIdx hash c k < length (c_shards c)" using c shardIdx_less by (simp add: cache_inv_def)
  from shard_key_idx [OF c this, of x] have "shardFor hash c x = shardFor hash c k"
    using x by (simp add: shardFor_def)
  moreover obtain it where "map_of (sh_items (shardFor hash c k)) x = Some it" using x mkeys_iff by metis
  ultimately show ?thesis by (simp add: cache_kv_def dom_def)
qed

lemma refines_Set: "cache_inv hash c \<Longrightarrow> refines hash (CSet k v ttl now) c"
proof -
  assume c: "cache_inv hash c"
  obtain t ks evs where g: "shard_set k v (expiry ttl now) (shardFor hash c k) = (t, ks, evs)"
    by (cases "shard_set k v (expiry ttl now) (shardFor hash c k)") auto
  obtain c' where ex: "cache_exec hash (CSet k v ttl now) c = (c', RUnit, evs)" "put_at (shardIdx hash c k) t c c'"
    using g by (auto simp: SetTTL_def Let_def)
  note sp = set_spec [OF shardFor_inv [OF c] g]
  have "x \<in> dom (cache_kv hash c)" if "x \<in> set ks" for x
    using shard_keys_dom [OF c] sp(3) that by blast
  then show ?thesis
    using g sp(2) by (intro refines_key [OF c ex(1) _ _ _ ex(2), of "SSet k v (expiry ttl now)" "set ks"])
      (auto simp: sp(8) apply_dels fun_eq_iff restrict_map_def)
qed

lemma refines_Del: "cache_inv hash c \<Longrightarrow> refines hash (CDel k) c"
proof -
  assume c: "cache_inv hash c"
  obtain t b evs where g: "shard_del k (shardFor hash c k) = (t, b, evs)"
    by (cases "shard_del k (shardFor hash c k)") auto
  obtain c' where ex: "cache_exec hash (CDel k) c = (c', RBool b, evs)" "put_at (shardIdx hash c k) t c c'"
    using g by (auto simp: Delete_def Let_def)
  show ?thesis
    using g by (intro refines_key [OF c ex(1) _ _ _ ex(2), of "SDel k" "{}"])
      (auto simp: shard_del_def shardFor_item fun_eq_iff split: option.splits if_splits)
qed

lemma refines_Exists: "cache_inv hash c \<Longrightarrow> refines hash (CExists k now) c"
proof -
  assume c: "cache_inv hash c"
  obtain t b ek evs where g: "shard_exists k now (shardFor hash c k) = (t, (b, ek), evs)"
    by (cases "shard_exists k now (shardFor hash c k)") auto
  obtain c' where ex: "cache_exec hash (CExists k now) c = (c', RBool b, evs)" "put_at (shardIdx hash c k) t c c'"
    using g by (auto simp: Exists_def Let_def)
  show ?thesis
    using g by (intro refines_key [OF c ex(1) _ _ _ ex(2), of "SExists k now" "{}"])
      (auto simp: shard_exists_def shardFor_item live_def purge_def fun_eq_iff split: option.splits if_splits)
qed

lemma refines_Expire: "cache_inv hash c \<Longrightarrow> refines hash (CExpire k ttl now1 now2) c"
proof -
  assume c: "cache_inv hash c"
  obtain t b ek evs where g: "shard_expire k (expiry ttl now1) now2 (shardFor hash c k) = (t, (b, ek), evs)"
    by (cases "shard_expire k (expiry ttl now1) now2 (shardFor hash c k)") auto
  obtain c' where ex: "cache_exec hash (CExpire k ttl now1 now2) c = (c', RBool b, evs)"
      "put_at (shardIdx hash c k) t c c'"
    using g by (auto simp: Expire_def Let_def)
  show ?thesis
    using g by (intro refines_key [OF c ex(1) _ _ _ ex(2), of "SExpire k (expiry ttl now1) now2" "{}"])
      (auto simp: shard_expire_def shardFor_item live_def purge_def fun_eq_iff split: option.splits if_splits)
qed

lemma refines_Ttl: "cache_inv hash c \<Longrightarrow> refines hash (CTtl k now) c"
proof -
  assume c: "cache_inv hash c"
  obtain t e ok ek evs where g: "shard_ttl k now (shardFor hash c k) = (t, (e, ok, ek), evs)"
    by (cases "shard_ttl k now (shardFor hash c k)") auto
  obtain c' d f p where ex: "cache_exec hash (CTtl k now) c = (c', RTtl d f p, evs)"
      "put_at (shardIdx hash c k) t c c'"
    and r: "(d, f, p) = (if \<not> ok then (0, False, False) else if e = 0 then (0, True, True)
                         else (wrap64 (e - now), True, False))"
    using g by (cases ok; cases "e = 0") (auto simp: TTL_def Let_def)
  show ?thesis
    using g r by (intro refines_key [OF c ex(1) _ _ _ ex(2), of "STtl k now" "{}"])
      (auto simp: shard_ttl_def shardFor_item live_def purge_def fun_eq_iff split: option.splits if_splits)
qed

lemma incrBy_cases:
  assumes s: "shard_inv s" and step: "shard_incrBy k d now s = (t, r, evs)"
  defines "b \<equiv> (case live now (map_of (sh_items s)) k of None \<Rightarrow> Some 0 | Some it \<Rightarrow> parse_int (str_of (it_value it)))"
  shows "(b = None \<and> r = Inl ErrNotInteger \<and> evs = []) \<or>
    (\<exists>n new. b = Some n \<and> r = Inr (wrap64 (n + d), new) \<and>
       evs = ev_set k (Some (format_int (wrap64 (n + d)))) 0 # map ev_del new \<and>
       k \<notin> set new \<and> set new \<subseteq> mkeys (sh_items s))"
proof -
  have new: "k \<notin> set ks \<and> set ks \<subseteq> mkeys (sh_items s)"
    if "shard_inv s0" "mkeys (sh_items s0) \<subseteq> mkeys (sh_items s)" "shard_set k v 0 s0 = (t, ks, evs)" for s0 v ks
    using set_spec(2,3) [OF that(1,3)] that(2) by blast
  show ?thesis
  proof (cases "live now (map_of (sh_items s)) k")
    case None
    then consider "map_of (sh_items s) k = None" |
      it where "map_of (sh_items s) k = Some it" "item_expired it now"
      by (auto simp: live_def split: option.splits if_splits)
    then show ?thesis
    proof cases
      case 1
      then show ?thesis using step None new [OF s] set_spec(8) [OF s]
        by (auto simp: b_def incrBy_fresh Let_def split: prod.splits)
    next
      case 2
      note rem = removeLocked_inv [OF s 2(1)]
      have sub: "mkeys (sh_items (removeLocked k it s)) \<subseteq> mkeys (sh_items s)" by auto
      show ?thesis using step None new [OF rem sub] set_spec(8) [OF rem]
        by (auto simp: b_def incrBy_expired [OF 2] Let_def split: prod.splits)
    qed
  next
    case (Some it)
    then have it: "map_of (sh_items s) k = Some it" "\<not> item_expired it now"
      by (auto simp: live_def split: option.splits if_splits)
    show ?thesis using step Some new [OF s] set_spec(8) [OF s]
      by (cases "parse_int (str_of (it_value it))")
        (auto simp: b_def incrBy_error [OF it] incrBy_set [OF it] Let_def split: prod.splits)
  qed
qed

lemma refines_IncrBy: "cache_inv hash c \<Longrightarrow> refines hash (CIncrBy k d now) c"
proof -
  assume c: "cache_inv hash c"
  obtain t r evs where g: "shard_incrBy k d now (shardFor hash c k) = (t, r, evs)"
    by (cases "shard_incrBy k d now (shardFor hash c k)") auto
  obtain c' where ex: "cache_exec hash (CIncrBy k d now) c = (c', RInt (map_sum id fst r), evs)"
      "put_at (shardIdx hash c k) t c c'"
    using g by (cases r) (auto simp: IncrBy_def Let_def)
  have lv: "live now (map_of (sh_items (shardFor hash c k))) k = live now (cache_kv hash c) k"
    by (simp add: live_def cache_kv_def)
  from incrBy_cases [OF shardFor_inv [OF c] g] show ?thesis
  proof (elim disjE exE conjE)
    assume "r = Inl ErrNotInteger" "evs = []"
      "(case live now (map_of (sh_items (shardFor hash c k))) k of None \<Rightarrow> Some 0
          | Some it \<Rightarrow> parse_int (str_of (it_value it))) = None"
    then show ?thesis
      using g by (intro refines_key [OF c ex(1) _ _ _ ex(2), of "SIncrBy k d now" "{}"]) (simp_all add: lv)
  next
    fix n new
    assume r: "r = Inr (wrap64 (n + d), new)" and new: "k \<notin> set new" "set new \<subseteq> mkeys (sh_items (shardFor hash c k))"
      and evs: "evs = ev_set k (Some (format_int (wrap64 (n + d)))) 0 # map ev_del new"
      and b: "(case live now (map_of (sh_items (shardFor hash c k))) k of None \<Rightarrow> Some 0
          | Some it \<Rightarrow> parse_int (str_of (it_value it))) = Some n"
    have "set new \<subseteq> dom (cache_kv hash c)" using shard_keys_dom [OF c] new(2) by blast
    moreover have "fold apply_ev evs (cache_kv hash c) = (cache_kv hash c |` (- set new))
        (k \<mapsto> \<lparr>it_value = Some (format_int (wrap64 (n + d))), it_expireAt = 0\<rparr>)"
      using new(1) by (auto simp: evs apply_dels fun_eq_iff restrict_map_def format_int_nonempty)
    ultimately show ?thesis
      using g r b new(1) by (intro refines_key [OF c ex(1) _ _ _ ex(2), of "SIncrBy k d now" "set new"])
        (auto simp: lv)
  qed
qed

lemma shards_all2:
  "orders_ok orders c \<Longrightarrow> length orders = length (c_shards c)"
  "orders_ok orders c \<Longrightarrow> i < length (c_shards c) \<Longrightarrow> visits (orders ! i) (c_shards c ! i)"
  by (auto simp: orders_ok_def list_all2_conv_all_nth)

text \<open>An operation on all shards: the invariant holds if each shard keeps its own and gains no key.\<close>

lemma all_shards_inv:
  assumes c: "cache_inv hash c" and len: "length (c_shards c') = length (c_shards c)" "c_mask c' = c_mask c"
    and each: "\<And>i. i < length (c_shards c) \<Longrightarrow> shard_inv (c_shards c' ! i) \<and>
      mkeys (sh_items (c_shards c' ! i)) \<subseteq> mkeys (sh_items (c_shards c ! i))"
  shows "cache_inv hash c'"
proof -
  have "shardIdx hash c' k = i" if "i < length (c_shards c)" "k \<in> mkeys (sh_items (c_shards c' ! i))" for i k
  proof -
    have "k \<in> mkeys (sh_items (c_shards c ! i))" using each [OF that(1)] that(2) by blast
    from shard_key_idx [OF c that(1) this] len(2) show ?thesis by (simp add: shardIdx_def)
  qed
  then have "shards_inv hash c'" using each len(1) unfolding shards_inv_def by simp
  then show ?thesis using c len by (simp add: cache_inv_def cache_shape_def)
qed

lemma replay_flushes: "0 < n \<Longrightarrow> fold apply_ev (replicate n ev_flush) m = Map.empty"
proof (induction n arbitrary: m)
  case (Suc n)
  then show ?case by (cases n) simp_all
qed simp

lemma refines_FlushAll:
  assumes c: "cache_inv hash c" and ok: "orders_ok orders c"
  shows "refines hash (CFlushAll orders) c"
proof -
  obtain c' evs where ex: "FlushAll orders c = (c', evs)" by (cases "FlushAll orders c")
  have sh: "c_shards c' = map (\<lambda>(order, s). flushSilent order s) (zip orders (c_shards c))" "c_mask c' = c_mask c"
    and evs: "evs = concat (map (\<lambda>_. [ev_flush]) (zip orders (c_shards c)))"
    using ex by (auto simp: FlushAll_def Let_def shard_flush_def comp_def case_prod_unfold)
  have evs: "evs = replicate (length (c_shards c)) ev_flush"
    using shards_all2(1) [OF ok] by (simp add: evs map_replicate_const flip: replicate_append_same)
  have nth: "c_shards c' ! i = flushSilent (orders ! i) (c_shards c ! i)" if "i < length (c_shards c)" for i
    using that shards_all2(1) [OF ok] sh(1) by simp
  have s: "shard_inv (c_shards c ! i)" if "i < length (c_shards c)" for i
    using c that by (simp add: cache_inv_def shards_inv_def)
  have inv: "cache_inv hash c'"
    using all_shards_inv [OF c _ sh(2)] nth shard_inv_flush [OF s] shards_all2 [OF ok] sh(1)
    by (simp add: visits_def flushSilent_def)
  have i: "shardIdx hash c' k < length (c_shards c)" for k
    using shardIdx_less [of c'] inv sh(1) shards_all2(1) [OF ok] by (simp add: cache_inv_def)
  have empty: "cache_kv hash c' = Map.empty"
    using nth [OF i] by (simp add: cache_kv_def shardFor_def flushSilent_def)
  have "0 < length (c_shards c)" using i [of "[]"] by linarith
  then have "fold apply_ev evs (cache_kv hash c) = Map.empty" using replay_flushes evs by blast
  then show ?thesis using ex inv empty by (simp add: refines_def)
qed

lemma refines_Tick:
  assumes c: "cache_inv hash c" and ok: "orders_ok orders c"
  shows "refines hash (CTick orders now) c"
proof -
  define sw where "sw i = sweep_loop now (take 32 (orders ! i)) (c_shards c ! i)" for i
  define n where "n = length (c_shards c)"
  have len: "length orders = n" using shards_all2(1) [OF ok] by (simp add: n_def)
  obtain c' evs where ex: "expiry_tick orders now c = (c', evs)" by (cases "expiry_tick orders now c")
  have zip: "map (\<lambda>(order, s). sweepExpired order now 32 s) (zip orders (c_shards c)) =
      map (\<lambda>i. (fst (sw i), snd (sw i), map ev_del (snd (sw i)))) [0..<n]"
    using len by (intro nth_equalityI) (auto simp: sw_def n_def sweepExpired_def Let_def split: prod.splits)
  have sh: "c_shards c' = map (\<lambda>i. fst (sw i)) [0..<n]" "c_mask c' = c_mask c"
    and evs: "evs = map ev_del (concat (map (\<lambda>i. snd (sw i)) [0..<n]))"
    using ex by (auto simp: expiry_tick_def Let_def zip comp_def map_concat)
  have s: "shard_inv (c_shards c ! i)" if "i < n" for i
    using c that by (simp add: cache_inv_def shards_inv_def n_def)
  have sp: "shard_inv (fst (sw i))"
      "map_of (sh_items (fst (sw i))) = map_of (sh_items (c_shards c ! i)) |` (- set (snd (sw i)))"
      "mkeys (sh_items (fst (sw i))) \<subseteq> mkeys (sh_items (c_shards c ! i))"
      "set (snd (sw i)) \<subseteq> mkeys (sh_items (c_shards c ! i))"
      "\<forall>k \<in> set (snd (sw i)). \<exists>it. map_of (sh_items (c_shards c ! i)) k = Some it \<and> item_expired it now" if "i < n" for i
    using sweep_loop_spec [OF s [OF that], of now "take 32 (orders ! i)" "fst (sw i)" "snd (sw i)"]
      sweep_within [OF s [OF that], of now "take 32 (orders ! i)" "fst (sw i)" "snd (sw i)"]
    by (simp_all add: sw_def)
  have inv: "cache_inv hash c'"
    using all_shards_inv [OF c _ sh(2)] sp(1,3) by (simp add: sh(1) n_def)
  have idx: "shardIdx hash c k < n" "shardIdx hash c' k = shardIdx hash c k" for k
    using shardIdx_less [of c] c sh(2) by (simp_all add: cache_inv_def n_def shardIdx_def)
  let ?E = "set (concat (map (\<lambda>i. snd (sw i)) [0..<n]))"
  have E: "k \<in> ?E \<longleftrightarrow> k \<in> set (snd (sw (shardIdx hash c k)))" for k
  proof
    assume "k \<in> ?E"
    then obtain i where i: "i < n" "k \<in> set (snd (sw i))" by auto
    then have "k \<in> mkeys (sh_items (c_shards c ! i))" using sp(4) by blast
    with i shard_key_idx [OF c, of i k] show "k \<in> set (snd (sw (shardIdx hash c k)))" by (simp add: n_def)
  qed (use idx(1) [of k] in auto)
  have kv: "cache_kv hash c' = cache_kv hash c |` (- ?E)"
  proof
    fix k
    show "cache_kv hash c' k = (cache_kv hash c |` (- ?E)) k"
      using sp(2) [OF idx(1)] idx E [of k] by (simp add: cache_kv_def shardFor_def sh(1) restrict_map_def del: set_concat)
  qed
  moreover have "?E \<subseteq> spec_may (CTick orders now) (cache_kv hash c)"
  proof
    fix k assume "k \<in> ?E"
    then have "k \<in> set (snd (sw (shardIdx hash c k)))" using E by blast
    then show "k \<in> spec_may (CTick orders now) (cache_kv hash c)"
      using sp(5) [OF idx(1)] by (fastforce simp: cache_kv_def shardFor_def live_def)
  qed
  ultimately show ?thesis using ex inv
    by (auto simp: refines_def evs apply_dels simp del: set_concat spec_may.simps intro!: exI [of _ ?E])
qed

lemma cache_exec_refines: "cache_inv hash c \<Longrightarrow> cache_op_ok x c \<Longrightarrow> refines hash x c"
  by (cases x) (simp_all add: refines_Set refines_Get refines_Del refines_Exists refines_IncrBy refines_Expire
      refines_Ttl refines_FlushAll refines_Tick)

definition cache_step :: "(string \<Rightarrow> u64) \<Rightarrow> cache_op \<Rightarrow> cache \<Rightarrow> cache \<times> event list" where
  "cache_step hash x c = (let (c', res, evs) = cache_exec hash x c in (c', evs))"

interpretation ca: event_store "cache_inv hash" "cache_kv hash" cache_op_ok "cache_step hash" for hash
  using cache_exec_refines by unfold_locales (fastforce simp: refines_def cache_step_def split: prod.splits)+

end
