(* ===== verification/Cache_Props.thy ===== *)
theory Cache_Props
  imports Cache_Spec
begin

section \<open>Construction, replay on another cache, and capacity\<close>

text \<open>
  A cache that \<open>New\<close> returns satisfies the invariant, is empty, and divides the caps among its shards.
  Applying the events of one cache to another that never evicts reproduces the contents. Under LRU
  and FIFO the number of entries stays within the caps of the shards.
\<close>

subsection \<open>Construction\<close>

lemma new_shards_Inr:
  "new_shards uni rs kind e m is = Inr ss \<Longrightarrow>
     length ss = length is \<and>
     (\<forall>j < length is. ss ! j = newShard (fst (Policy_New uni (rs (is ! j)) kind)) e m)"
proof (induction "is" arbitrary: ss)
  case (Cons i "is")
  then obtain pol ss' where "Policy_New uni (rs i) kind = (pol, None)"
      "new_shards uni rs kind e m is = Inr ss'" "ss = newShard pol e m # ss'"
    by (auto split: prod.splits option.splits sum.splits)
  with Cons.IH [of ss'] show ?case by (auto simp: nth_Cons split: nat.split)
qed simp

lemma withDefaults_Some:
  assumes "withDefaults cfg = Some cfg'"
  obtains m where "m \<le> 62" and "cfg_Shards cfg' = 2 ^ m"
    and "cfg_Policy cfg' = (if cfg_Policy cfg = '''' then ''noeviction'' else cfg_Policy cfg)"
    and "cfg_MaxEntries cfg' = cfg_MaxEntries cfg" and "cfg_MaxMemory cfg' = cfg_MaxMemory cfg"
    and "(if cfg_Shards cfg \<le> 0 then 256 else cfg_Shards cfg) \<le> 2 ^ m"
proof -
  let ?n = "if cfg_Shards cfg \<le> 0 then 256 else cfg_Shards cfg"
  obtain p where p: "nextPow2 ?n = Some p" "cfg_Shards cfg' = p"
    using assms by (auto simp: withDefaults_def Let_def bind_eq_Some_conv split: if_splits)
  have "1 \<le> ?n" by simp
  moreover have "?n \<le> 2 ^ 62" using nextPow2_None p(1) by (cases "?n \<le> 2 ^ 62") simp_all
  ultimately obtain m where "m \<le> 62" "nextPow2 ?n = Some (2 ^ m)" "?n \<le> 2 ^ m"
    using nextPow2_Some by blast
  with p that show ?thesis
    using assms by (auto simp: withDefaults_def Let_def bind_eq_Some_conv split: if_splits)
qed

lemma cache_New_props:
  assumes "cache_New uni rs cfg = Some (Inr c)"
  shows "cache_inv hash c" and "cache_kv hash c = Map.empty"
    and "cfg_MaxEntries (c_cfg c) = cfg_MaxEntries cfg" and "int (length (c_shards c)) = cfg_Shards (c_cfg c)"
    and "0 < cfg_Shards (c_cfg c)"
    and "cfg_Policy (c_cfg c) = (if cfg_Policy cfg = '''' then ''noeviction'' else cfg_Policy cfg)"
    and "\<forall>i < length (c_shards c). c_shards c ! i = newShard (fst (Policy_New uni (rs i) (cfg_Policy (c_cfg c))))
      (perShard (cfg_MaxEntries cfg) (cfg_Shards (c_cfg c))) (perShard (cfg_MaxMemory cfg) (cfg_Shards (c_cfg c)))"
proof -
  obtain cfg' where cfg': "withDefaults cfg = Some cfg'"
    using assms by (cases "withDefaults cfg") (simp_all add: cache_New_def)
  let ?ss = "new_shards uni rs (cfg_Policy cfg') (perShard (cfg_MaxEntries cfg') (cfg_Shards cfg'))
       (perShard (cfg_MaxMemory cfg') (cfg_Shards cfg')) [0..<nat (cfg_Shards cfg')]"
  obtain ss where ss: "?ss = Inr ss"
    and c: "c_cfg c = cfg'" "c_shards c = ss" "c_mask c = of_int (cfg_Shards cfg' - 1)"
    using assms cfg' by (cases ?ss) (auto simp: cache_New_def Let_def)
  obtain m where m: "m \<le> 62" "cfg_Shards cfg' = 2 ^ m"
    and pol: "cfg_Policy cfg' = (if cfg_Policy cfg = '''' then ''noeviction'' else cfg_Policy cfg)"
    and max: "cfg_MaxEntries cfg' = cfg_MaxEntries cfg" "cfg_MaxMemory cfg' = cfg_MaxMemory cfg"
    using withDefaults_Some [OF cfg'] by metis
  have len: "length ss = 2 ^ m" and nth: "\<forall>i < length ss. ss ! i = newShard (fst (Policy_New uni (rs i) (cfg_Policy cfg')))
      (perShard (cfg_MaxEntries cfg) (cfg_Shards cfg')) (perShard (cfg_MaxMemory cfg) (cfg_Shards cfg'))"
    using new_shards_Inr [OF ss] m(2) max by (simp_all add: nat_power_eq)
  show "\<forall>i < length (c_shards c). c_shards c ! i = newShard (fst (Policy_New uni (rs i) (cfg_Policy (c_cfg c))))
      (perShard (cfg_MaxEntries cfg) (cfg_Shards (c_cfg c))) (perShard (cfg_MaxMemory cfg) (cfg_Shards (c_cfg c)))"
    using nth c by simp
  have "(of_int (2 ^ m - 1) :: u64) = mask m" by (simp add: mask_eq_exp_minus_1)
  then have shape: "cache_shape c" using c len m by (auto simp: cache_shape_def)
  have "shard_inv (ss ! i) \<and> sh_items (ss ! i) = []" if "i < length ss" for i
    using nth that shard_inv_new [OF Policy_New_tracks] by (simp add: newShard_def)
  then have inv: "shards_inv hash c" and empty: "\<forall>i < length ss. sh_items (ss ! i) = []"
    using c by (simp_all add: shards_inv_def)
  show "cache_inv hash c" using shape inv by (simp add: cache_inv_def)
  show "cache_kv hash c = Map.empty"
    using shardIdx_less [OF shape] empty c by (simp add: cache_kv_def shardFor_def)
  show "cfg_MaxEntries (c_cfg c) = cfg_MaxEntries cfg" "int (length (c_shards c)) = cfg_Shards (c_cfg c)"
    "0 < cfg_Shards (c_cfg c)"
    "cfg_Policy (c_cfg c) = (if cfg_Policy cfg = '''' then ''noeviction'' else cfg_Policy cfg)"
    using c len m max pol by simp_all
qed

subsection \<open>Applying events\<close>

definition unlimited :: "shard \<Rightarrow> bool" where
  "unlimited s \<longleftrightarrow> sh_maxEntries s \<le> 0 \<and> sh_maxMemory s \<le> 0"

lemma enforce_unlimited: "unlimited s \<Longrightarrow> enforceLimitsLocked k s = (s, [])"
  by (simp add: enforceLimitsLocked_def overCapacityLocked_def unlimited_def)

fun apply_op :: "event \<Rightarrow> shard_op" where
  "apply_op ev =
     (if ev_Op ev = OpSet then SApplySet (ev_Key ev) (ev_Value ev) (ev_ExpireAt ev)
      else if ev_Op ev = OpDel then SApplyDel (ev_Key ev)
      else SApplyExpire (ev_Key ev) (ev_ExpireAt ev))"

definition known_op :: "event \<Rightarrow> bool" where
  "known_op ev \<longleftrightarrow> ev_Op ev \<in> {OpSet, OpDel, OpExpire, OpFlush}"

lemma ApplyEvent_flush:
  assumes c: "cache_inv hash c" and ok: "orders_ok orders c" and ev: "ev_Op ev = OpFlush"
  shows "cache_inv hash (ApplyEvent hash orders ev c)" and "cache_kv hash (ApplyEvent hash orders ev c) = Map.empty"
proof -
  have eq: "c_shards (ApplyEvent hash orders ev c) = c_shards (fst (FlushAll orders c))"
      "c_mask (ApplyEvent hash orders ev c) = c_mask (fst (FlushAll orders c))"
    using ev by (simp_all add: ApplyEvent_def FlushAll_def Let_def op_defs shard_flush_def comp_def case_prod_unfold)
  have r: "cache_inv hash (fst (FlushAll orders c))" "cache_kv hash (fst (FlushAll orders c)) = Map.empty"
    using refines_FlushAll [OF c ok] by (auto simp: refines_def split: prod.splits)
  show "cache_inv hash (ApplyEvent hash orders ev c)"
    using r(1) eq by (simp add: cache_inv_def cache_shape_def shards_inv_def shardIdx_def)
  show "cache_kv hash (ApplyEvent hash orders ev c) = Map.empty"
    using r(2) eq by (simp add: cache_kv_def shardFor_def shardIdx_def)
qed

lemma apply_op_shard:
  assumes s: "shard_inv s" and u: "unlimited s" and ev: "ev_Op ev \<in> {OpSet, OpDel, OpExpire}"
    and step: "shard_step (apply_op ev) s = (t, evs)"
  shows "map_of (sh_items t) (ev_Key ev) = ev_on (ev_Key ev) ev (map_of (sh_items s) (ev_Key ev))"
    and "k \<noteq> ev_Key ev \<Longrightarrow> map_of (sh_items t) k = map_of (sh_items s) k" and "unlimited t"
proof -
  have u': "unlimited (setLocked (ev_Key ev) v e s)" for v e using u by (simp add: unlimited_def)
  show "map_of (sh_items t) (ev_Key ev) = ev_on (ev_Key ev) ev (map_of (sh_items s) (ev_Key ev))"
    "k \<noteq> ev_Key ev \<Longrightarrow> map_of (sh_items t) k = map_of (sh_items s) k" "unlimited t"
    using step ev u enforce_unlimited [OF u']
    by (auto simp: ev_on_def op_defs applySet_def applyDel_def applyExpire_def unlimited_def
        split: if_splits option.splits)
qed

lemma ApplyEvent_sound:
  assumes c: "cache_inv hash c" and ok: "orders_ok orders c" and ev: "known_op ev"
    and u: "\<forall>s \<in> set (c_shards c). unlimited s"
  shows "cache_inv hash (ApplyEvent hash orders ev c)"
    and "cache_kv hash (ApplyEvent hash orders ev c) = apply_ev ev (cache_kv hash c)"
    and "\<forall>s \<in> set (c_shards (ApplyEvent hash orders ev c)). unlimited s"
proof -
  let ?c = "ApplyEvent hash orders ev c" and ?i = "shardIdx hash c (ev_Key ev)"
  have shape: "cache_shape c" using c by (simp add: cache_inv_def)
  have i: "?i < length (c_shards c)" by (rule shardIdx_less [OF shape])
  obtain t evs where step: "shard_step (apply_op ev) (shardFor hash c (ev_Key ev)) = (t, evs)"
    by (cases "shard_step (apply_op ev) (shardFor hash c (ev_Key ev))")
  have us: "unlimited (shardFor hash c (ev_Key ev))" using u i by (simp add: shardFor_def)
  have "cache_inv hash ?c \<and> cache_kv hash ?c = apply_ev ev (cache_kv hash c) \<and> (\<forall>s \<in> set (c_shards ?c). unlimited s)"
  proof (cases "ev_Op ev = OpFlush")
    case True
    have "\<forall>s \<in> set (c_shards ?c). unlimited s"
      using True u by (auto simp: ApplyEvent_def Let_def op_defs unlimited_def flushSilent_def dest!: set_zip_rightD)
    with True ApplyEvent_flush [OF c ok True] show ?thesis
      by (auto simp: fun_eq_iff apply_ev_on ev_on_def)
  next
    case False
    with ev have op: "ev_Op ev \<in> {OpSet, OpDel, OpExpire}" by (auto simp: known_op_def)
    have put: "put_at ?i t c ?c"
      using step op by (auto simp: ApplyEvent_def Let_def op_defs)
    have keys: "op_keys (apply_op ev) = {ev_Key ev}" by simp
    note sh = apply_op_shard [OF shardFor_inv [OF c] us op step]
    have "cache_kv hash ?c k = apply_ev ev (cache_kv hash c) k" for k
    proof (cases "k = ev_Key ev")
      case True
      then show ?thesis using put_at_kv [OF shape put, of hash k] sh(1) by (simp add: apply_ev_on cache_kv_def)
    next
      case neq: False
      then have "ev_on k ev v = v" for v using False by (simp add: ev_on_def)
      then show ?thesis
        using put_at_kv [OF shape put, of hash k] sh(2) [OF neq]
        by (cases "shardIdx hash c k = ?i") (simp_all add: apply_ev_on cache_kv_def shardFor_def)
    qed
    moreover have "\<forall>s \<in> set (c_shards ?c). unlimited s"
      using put u sh(3) by (auto simp: put_at_def dest!: subsetD [OF set_update_subset_insert])
    ultimately show ?thesis using key_op_sound(1) [OF c step keys put] by blast
  qed
  then show "cache_inv hash ?c" "cache_kv hash ?c = apply_ev ev (cache_kv hash c)"
    "\<forall>s \<in> set (c_shards ?c). unlimited s" by auto
qed

text \<open>A follower applies the events in order; each application carries the orders of its range loops.\<close>

fun apply_all :: "(string \<Rightarrow> u64) \<Rightarrow> (event \<times> string list list) list \<Rightarrow> cache \<Rightarrow> cache" where
  "apply_all hash [] c = c"
| "apply_all hash ((ev, orders) # evs) c = apply_all hash evs (ApplyEvent hash orders ev c)"

fun apply_all_ok :: "(string \<Rightarrow> u64) \<Rightarrow> (event \<times> string list list) list \<Rightarrow> cache \<Rightarrow> bool" where
  "apply_all_ok hash [] c = True"
| "apply_all_ok hash ((ev, orders) # evs) c =
     (orders_ok orders c \<and> apply_all_ok hash evs (ApplyEvent hash orders ev c))"

lemma apply_all_sound:
  "cache_inv hash c \<Longrightarrow> \<forall>s \<in> set (c_shards c). unlimited s \<Longrightarrow> apply_all_ok hash evs c \<Longrightarrow>
     \<forall>ev \<in> fst ` set evs. known_op ev \<Longrightarrow>
     cache_inv hash (apply_all hash evs c) \<and>
     cache_kv hash (apply_all hash evs c) = fold apply_ev (map fst evs) (cache_kv hash c)"
proof (induction evs arbitrary: c)
  case (Cons x evs)
  obtain ev orders where x: "x = (ev, orders)" by (cases x)
  have ok: "orders_ok orders c" "known_op ev" using Cons.prems x by auto
  note a = ApplyEvent_sound [OF Cons.prems(1) ok Cons.prems(2)]
  show ?case using Cons.IH [OF a(1,3)] Cons.prems(3,4) a(2) x by simp
qed simp

lemma known_simps [simp]: "known_op (ev_set k v e)" "known_op (ev_del k)" "known_op (ev_expire k e)" "known_op ev_flush"
  by (simp_all add: known_op_def ev_defs)

lemma shard_step_known: "shard_step x s = (t, evs) \<Longrightarrow> ev \<in> set evs \<Longrightarrow> known_op ev"
  by (cases x) (auto simp: shard_get_def shard_set_def shard_del_def shard_exists_def shard_expire_def shard_ttl_def
      shard_incrBy_def shard_flush_def sweepExpired_def Let_def split: option.splits if_splits prod.splits)

subsection \<open>Every cache operation is one shard operation per shard\<close>

definition steps_to :: "shard \<Rightarrow> shard \<Rightarrow> bool" where
  "steps_to s t \<longleftrightarrow> t = s \<or> (\<exists>x evs. op_order_ok x s \<and> shard_step x s = (t, evs))"

lemma put_at_steps:
  assumes "put_at i t c c'" and "steps_to (c_shards c ! i) t"
  shows "list_all2 steps_to (c_shards c) (c_shards c')"
proof -
  have "steps_to (c_shards c ! j) ((c_shards c)[i := t] ! j)" if "j < length (c_shards c)" for j
    using assms(2) that by (cases "j = i") (simp_all add: steps_to_def [of s s for s])
  then show ?thesis using assms(1) by (simp add: put_at_def list_all2_conv_all_nth)
qed

lemma key_op_steps:
  assumes "op_order_ok x (shardFor hash c k)"
    and put: "put_at (shardIdx hash c k) (fst (shard_step x (shardFor hash c k))) c c'"
  shows "list_all2 steps_to (c_shards c) (c_shards c')"
  using assms(1) by (intro put_at_steps [OF put]) (metis prod.collapse shardFor_def steps_to_def)

lemma cache_exec_steps:
  assumes ok: "cache_op_ok x c" and ex: "cache_exec hash x c = (c', res, evs)"
  shows "list_all2 steps_to (c_shards c) (c_shards c')"
proof (cases x)
  case (CSet k v ttl now)
  then show ?thesis using ex
    by (intro key_op_steps [of "SSet k v (expiry ttl now)" hash c k])
      (auto simp: SetTTL_def Let_def split: prod.splits)
next
  case (CGet k now)
  then show ?thesis using ex
    by (intro key_op_steps [of "SGet k now" hash c k]) (auto simp: Get_def Let_def split: prod.splits if_splits)
next
  case (CDel k)
  then show ?thesis using ex
    by (intro key_op_steps [of "SDel k" hash c k]) (auto simp: Delete_def Let_def split: prod.splits if_splits)
next
  case (CExists k now)
  then show ?thesis using ex
    by (intro key_op_steps [of "SExists k now" hash c k]) (auto simp: Exists_def Let_def split: prod.splits)
next
  case (CIncrBy k d now)
  then show ?thesis using ex
    by (intro key_op_steps [of "SIncrBy k d now" hash c k])
      (auto simp: IncrBy_def Let_def split: prod.splits sum.splits)
next
  case (CExpire k ttl now1 now2)
  then show ?thesis using ex
    by (intro key_op_steps [of "SExpire k (expiry ttl now1) now2" hash c k])
      (auto simp: Expire_def Let_def split: prod.splits)
next
  case (CTtl k now)
  then show ?thesis using ex
    by (intro key_op_steps [of "STtl k now" hash c k]) (auto simp: TTL_def Let_def split: prod.splits if_splits)
next
  case (CFlushAll orders)
  then have "orders_ok orders c" using ok by simp
  note v = shards_all2 [OF this]
  have "steps_to (c_shards c ! i) (flushSilent (orders ! i) (c_shards c ! i))" if "i < length (c_shards c)" for i
    unfolding steps_to_def using v(2) [OF that]
    by (intro disjI2 exI [of _ "SFlush (orders ! i)"] exI [of _ "[ev_flush]"]) (simp add: shard_flush_def)
  then show ?thesis using ex CFlushAll v(1)
    by (auto simp: FlushAll_def Let_def shard_flush_def list_all2_conv_all_nth)
next
  case (CTick orders now)
  then have "orders_ok orders c" using ok by simp
  note v = shards_all2 [OF this]
  have "steps_to (c_shards c ! i) (fst (sweepExpired (orders ! i) now 32 (c_shards c ! i)))"
    if "i < length (c_shards c)" for i
    unfolding steps_to_def
    by (intro disjI2 exI [of _ "SSweep (orders ! i) now 32"]) (auto split: prod.splits)
  then show ?thesis using ex CTick v(1)
    by (auto simp: expiry_tick_def Let_def list_all2_conv_all_nth)
qed

subsection \<open>The kind of the policy does not change\<close>

lemma Policy_Name_ops [simp]:
  "Policy_Name (Policy_Add k p) = Policy_Name p" "Policy_Name (Policy_Access k p) = Policy_Name p"
  "Policy_Name (Policy_Remove k p) = Policy_Name p" "Policy_Name (Policy_Note k e p) = Policy_Name p"
  by (cases p; simp)+

lemma Policy_Name_Evict: "Policy_Evict p = (q, r) \<Longrightarrow> Policy_Name q = Policy_Name p"
  by (cases p) (auto simp: map_prod_id_eq)

lemma enforce_loop_Name:
  "enforce_loop n k s acc = Some (t, new) \<Longrightarrow> Policy_Name (sh_policy t) = Policy_Name (sh_policy s)"
proof (induction n arbitrary: s acc)
  case (Suc n)
  then show ?case
    by (auto split: if_splits prod.splits option.splits dest: Policy_Name_Evict)
qed simp

lemma setLocked_Name [simp]: "Policy_Name (sh_policy (setLocked k v e s)) = Policy_Name (sh_policy s)"
  by (simp add: setLocked_def Let_def split: option.split)

lemma enforce_Name:
  "enforceLimitsLocked k (setLocked k v e s) = (t, new) \<Longrightarrow> Policy_Name (sh_policy t) = Policy_Name (sh_policy s)"
  by (auto simp: enforceLimitsLocked_def simp del: enforce_loop.simps split: option.splits dest!: enforce_loop_Name)

lemma applySet_Name [simp]: "Policy_Name (sh_policy (applySet k v e s)) = Policy_Name (sh_policy s)"
  using enforce_Name by (metis applySet_def prod.collapse)

lemma removeLocked_Name [simp]: "Policy_Name (sh_policy (removeLocked k it s)) = Policy_Name (sh_policy s)"
  by (simp add: removeLocked_def)

lemma sweep_Name: "sweep_loop now ks s = (t, ex) \<Longrightarrow> Policy_Name (sh_policy t) = Policy_Name (sh_policy s)"
proof (induction ks arbitrary: s t ex)
  case (Cons k ks)
  then show ?case by (auto split: option.splits if_splits prod.splits)
qed simp

lemma fold_Remove_Name: "Policy_Name (fold Policy_Remove ks p) = Policy_Name p"
  by (induction ks arbitrary: p) simp_all

lemma shard_step_Name: "shard_step x s = (t, evs) \<Longrightarrow> Policy_Name (sh_policy t) = Policy_Name (sh_policy s)"
  by (cases x) (auto simp: shard_get_def shard_set_def shard_del_def shard_exists_def shard_expire_def shard_ttl_def
      shard_incrBy_def shard_flush_def sweepExpired_def flushSilent_def applyDel_def applyExpire_def
      fold_Remove_Name Let_def split: option.splits if_splits prod.splits dest: enforce_Name sweep_Name)

subsection \<open>The cap on the number of entries\<close>

definition capped :: "shard \<Rightarrow> bool" where
  "capped s \<longleftrightarrow> (0 < sh_maxEntries s \<longrightarrow> int (shard_len s) \<le> sh_maxEntries s)"

definition lru_or_fifo :: "shard \<Rightarrow> bool" where
  "lru_or_fifo s \<longleftrightarrow> Policy_Name (sh_policy s) \<in> {''lru'', ''fifo''}"

lemma shard_len_mono:
  assumes "shard_inv s" and "shard_inv t" and "mkeys (sh_items t) \<subseteq> mkeys (sh_items s)"
  shows "shard_len t \<le> shard_len s"
  using assms by (simp add: shard_len_keys card_mono)

lemma capped_mono: "capped s \<Longrightarrow> sh_maxEntries t = sh_maxEntries s \<Longrightarrow> shard_len t \<le> shard_len s \<Longrightarrow> capped t"
  by (auto simp: capped_def)

text \<open>When the key is already stored, nothing is added; when the first victim is another key, its
  place is taken; the loop only removes.\<close>

lemma set_capped_update:
  assumes s: "shard_inv s" and cap: "capped s" and set: "shard_set k v e s = (t, evicted, evs)"
    and k: "k \<in> mkeys (sh_items s)"
  shows "capped t"
proof -
  note sp = set_spec [OF s set]
  have "x \<in> mkeys (sh_items s)" if "map_of (sh_items t) x \<noteq> None" for x
    using that sp(5) k by (auto simp: restrict_map_def split: if_splits dest!: mkeys_Some)
  then have "mkeys (sh_items t) \<subseteq> mkeys (sh_items s)" by (auto simp: map_of_None_iff)
  then show ?thesis using capped_mono [OF cap sp(6)] shard_len_mono [OF s sp(1)] by blast
qed

lemma enforce_len:
  assumes "shard_inv s" and "enforceLimitsLocked k s = (t, new)"
  shows "shard_len t + length new = shard_len s" and "shard_inv t" and "sh_maxEntries t = sh_maxEntries s"
proof -
  note sp = enforce_spec [OF assms]
  show t: "shard_inv t" "sh_maxEntries t = sh_maxEntries s" using sp by (simp_all add: enforce_result_def)
  have new: "distinct new" "set new \<subseteq> mkeys (sh_items s)" "map_of (sh_items t) = map_of (sh_items s) |` (- set new)"
    using sp by (auto simp: enforce_result_def)
  have "x \<in> mkeys (sh_items t) \<longleftrightarrow> x \<in> mkeys (sh_items s) - set new" for x
    using new(3) by (simp only: mkeys_iff Diff_iff) (auto simp: restrict_map_def)
  then have "mkeys (sh_items t) = mkeys (sh_items s) - set new" by (intro set_eqI) 
  then have "card (mkeys (sh_items t)) = card (mkeys (sh_items s)) - length new"
    using new(1,2) by (simp add: card_Diff_subset distinct_card)
  moreover have "length new \<le> card (mkeys (sh_items s))"
    using new(1,2) by (metis List.finite_set card_mono distinct_card finite_imageI)
  ultimately show "shard_len t + length new = shard_len s"
    using assms(1) t(1) by (simp add: shard_len_keys)
qed

lemma set_capped_evict:
  assumes s: "shard_inv s" and cap: "capped s" and set: "shard_set k v e s = (t, evicted, evs)"
    and k: "k \<notin> mkeys (sh_items s)"
    and ev: "overCapacityLocked (setLocked k v e s) \<Longrightarrow> evicted \<noteq> [] \<or> sh_items s = []"
  shows "capped t"
proof -
  have enf: "enforceLimitsLocked k (setLocked k v e s) = (t, evicted)"
    using set by (auto simp: shard_set_def split: prod.splits)
  note len = enforce_len [OF setLocked_inv [OF s] enf]
  have u: "shard_len (setLocked k v e s) = Suc (shard_len s)" using k by (simp add: shard_len_def)
  have max: "sh_maxEntries t = sh_maxEntries s" using len(3) by simp
  consider "\<not> overCapacityLocked (setLocked k v e s)" | "sh_items s = []" | "evicted \<noteq> []" using ev by blast
  then show ?thesis
  proof cases
    case 1
    then have "int (Suc (shard_len s)) \<le> sh_maxEntries s" if "0 < sh_maxEntries s"
      using that k by (simp add: overCapacityLocked_def shard_len_def)
    then show ?thesis using len(1) u max by (auto simp: capped_def)
  next
    case 2
    then show ?thesis using len(1) u max by (simp add: capped_def shard_len_def)
  next
    case 3
    then have "shard_len t \<le> shard_len s" using len(1) u by (cases evicted) simp_all
    then show ?thesis using capped_mono [OF cap max] by blast
  qed
qed

lemma enforce_loop_acc: "enforce_loop n k s acc = Some (t, new) \<Longrightarrow> \<exists>r. new = acc @ r"
proof (induction n arbitrary: s acc)
  case (Suc n)
  then show ?case by (auto split: if_splits prod.splits option.splits) (metis append_assoc)+
qed simp

lemma fifo_evicts:
  assumes s: "shard_inv s" and p: "sh_policy s = PFIFO p" and k: "k \<notin> mkeys (sh_items s)" "sh_items s \<noteq> []"
    and over: "overCapacityLocked (setLocked k v e s)" and set: "shard_set k v e s = (t, evicted, evs)"
  shows "evicted \<noteq> []"
proof -
  let ?u = "setLocked k v e s"
  have inv: "fifo_inv p" "set (fifo_order p) = mkeys (sh_items s)" using s p by (simp_all add: shard_inv_def)
  have pu: "sh_policy ?u = PFIFO (fifo_Add k p)" using k p by (simp add: setLocked_policy)
  have ord: "fifo_order (fifo_Add k p) = fifo_order p @ [k]"
    using fifo_Add_order(2) [OF inv(1), of k] inv(2) k by simp
  obtain x xs where x: "fifo_order p = x # xs" using k(2) inv(2) by (cases "fifo_order p") auto
  obtain p' v' where ev: "fifo_Evict (fifo_Add k p) = (p', Some v')"
    using ord fifo_Evict_None [of "fifo_Add k p"]
    by (cases "fifo_Evict (fifo_Add k p)"; cases "snd (fifo_Evict (fifo_Add k p))") auto
  have "v' = x" using fifo_Evict_Some(2) [OF fifo_Add_order(1) [OF inv(1)] ev] ord x by simp
  then have "v' \<noteq> k" using x k inv(2) by auto
  have pe: "Policy_Evict (sh_policy ?u) = (PFIFO p', Some v')" using pu ev by simp
  obtain it where it: "map_of (sh_items ?u) v' = Some it"
    using shard_inv_evict(1) [OF setLocked_inv [OF s] pe] by blast
  have enf: "enforce_loop (Suc (Policy_Len (sh_policy ?u))) k ?u [] = Some (t, evicted)"
    using set enforce_terminates [OF setLocked_inv [OF s, of k v e] lessI, where prot = k and acc = "[]"]
    by (auto simp: shard_set_def enforceLimitsLocked_def simp del: enforce_loop.simps split: option.splits)
  then show ?thesis using over pe it \<open>v' \<noteq> k\<close> by (auto dest: enforce_loop_acc)
qed

lemma set_capped:
  assumes s: "shard_inv s" and pol: "lru_or_fifo s" and cap: "capped s" and set: "shard_set k v e s = (t, evicted, evs)"
  shows "capped t"
proof (cases "sh_policy s")
  case (PLRU p)
  from lru_set(2) [OF s this set] set_spec(6) [OF s set] show ?thesis by (simp add: capped_def)
next
  case (PFIFO p)
  show ?thesis
  proof (cases "k \<in> mkeys (sh_items s)")
    case True
    with set_capped_update [OF s cap set] show ?thesis by blast
  next
    case False
    with set_capped_evict [OF s cap set] fifo_evicts [OF s PFIFO False _ _ set] show ?thesis by blast
  qed
qed (use pol in \<open>simp_all add: lru_or_fifo_def\<close>)

lemma removeLocked_len: "shard_len (removeLocked k it s) \<le> shard_len s"
  by (simp add: shard_len_def length_delete_le)

lemma incrBy_capped:
  assumes s: "shard_inv s" and pol: "lru_or_fifo s" and cap: "capped s" and step: "shard_incrBy k d now s = (t, r, evs)"
  shows "capped t"
proof (cases "map_of (sh_items s) k")
  case None
  with step set_capped [OF s pol cap] show ?thesis by (auto simp: incrBy_fresh Let_def split: prod.splits)
next
  case (Some it)
  have rem: "capped (removeLocked k it s)" "lru_or_fifo (removeLocked k it s)"
    using capped_mono [OF cap _ removeLocked_len] pol by (simp_all add: lru_or_fifo_def)
  show ?thesis
  proof (cases "item_expired it now")
    case True
    with step set_capped [OF removeLocked_inv [OF s Some] rem(2,1)] Some show ?thesis
      by (auto simp: incrBy_expired Let_def split: prod.splits)
  next
    case False
    with step Some cap set_capped [OF s pol cap] show ?thesis
      by (cases "parse_int (str_of (it_value it))") (auto simp: incrBy_error incrBy_set Let_def split: prod.splits)
  qed
qed

lemma length_update_Some: "map_of m k = Some v \<Longrightarrow> length (AList.update k w m) = length m"
  using mkeys_Some length_update_in by metis

lemma step_capped:
  assumes s: "shard_inv s" and pol: "lru_or_fifo s" and cap: "capped s" and ok: "op_order_ok x s"
    and step: "shard_step x s = (t, evs)"
  shows "capped t"
proof -
  have t: "shard_inv t" "sh_maxEntries t = sh_maxEntries s" using shard_step_sound [OF s ok step] by auto
  have rem: "capped (removeLocked k it s)" for k it by (rule capped_mono [OF cap _ removeLocked_len]) simp
  have same: "capped t" if "shard_len t \<le> shard_len s" using capped_mono [OF cap t(2) that] .
  show ?thesis
  proof (cases x)
    case (SSet k v e)
    then show ?thesis using step set_capped [OF s pol cap] by (auto split: prod.splits)
  next
    case (SIncrBy k d now)
    then show ?thesis using step incrBy_capped [OF s pol cap] by (auto split: prod.splits)
  next
    case (SSweep order now n)
    with step obtain ex where "sweep_loop now (take n order) s = (t, ex)"
      by (auto simp: sweepExpired_def split: prod.splits)
    with same shard_len_mono [OF s t(1)] sweep_within(1) [OF s] show ?thesis by blast
  next
    case (SApplySet k v e)
    obtain ks evs' where "shard_set k v e s = (applySet k v e s, ks, evs')"
      by (cases "enforceLimitsLocked k (setLocked k v e s)") (simp add: applySet_def shard_set_def)
    with set_capped [OF s pol cap] SApplySet step show ?thesis by auto
  qed (use step rem same cap in \<open>auto simp: shard_get_def shard_del_def shard_exists_def shard_expire_def
      shard_ttl_def shard_flush_def flushSilent_def applyDel_def applyExpire_def shard_len_def
      length_update_Some split: option.splits if_splits\<close>)
qed

definition cache_capped :: "cache \<Rightarrow> bool" where
  "cache_capped c \<longleftrightarrow> (\<forall>s \<in> set (c_shards c). lru_or_fifo s \<and> capped s)"

lemma exec_capped:
  assumes c: "cache_inv hash c" and cap: "cache_capped c" and ok: "cache_op_ok x c"
    and ex: "cache_exec hash x c = (c', res, evs)"
  shows "cache_capped c'" and "length (c_shards c') = length (c_shards c)"
    and "\<forall>i < length (c_shards c). sh_maxEntries (c_shards c' ! i) = sh_maxEntries (c_shards c ! i)"
proof -
  note st = cache_exec_steps [OF ok ex]
  then show len: "length (c_shards c') = length (c_shards c)" by (simp add: list_all2_lengthD)
  have each: "lru_or_fifo (c_shards c' ! i) \<and> capped (c_shards c' ! i) \<and>
      sh_maxEntries (c_shards c' ! i) = sh_maxEntries (c_shards c ! i)" if i: "i < length (c_shards c)" for i
  proof -
    have s: "shard_inv (c_shards c ! i)" using c i by (simp add: cache_inv_def shards_inv_def)
    have p: "lru_or_fifo (c_shards c ! i)" "capped (c_shards c ! i)" using cap i by (auto simp: cache_capped_def)
    from st i have "steps_to (c_shards c ! i) (c_shards c' ! i)" by (simp add: list_all2_conv_all_nth)
    with s p step_capped [OF s p] shard_step_sound [OF s] shard_step_Name show ?thesis
      unfolding steps_to_def lru_or_fifo_def by metis
  qed
  then show "cache_capped c'" using len by (auto simp: cache_capped_def in_set_conv_nth)
  show "\<forall>i < length (c_shards c). sh_maxEntries (c_shards c' ! i) = sh_maxEntries (c_shards c ! i)" using each by blast
qed

text \<open>Runs of operations.\<close>

abbreviation cache_run :: "(string \<Rightarrow> u64) \<Rightarrow> cache_op list \<Rightarrow> cache \<Rightarrow> cache \<times> event list" where
  "cache_run hash \<equiv> run_steps (cache_step hash)"

abbreviation cache_run_ok :: "(string \<Rightarrow> u64) \<Rightarrow> cache_op list \<Rightarrow> cache \<Rightarrow> bool" where
  "cache_run_ok hash \<equiv> run_ok (cache_step hash) cache_op_ok"

definition shard_caps :: "cache \<Rightarrow> int list" where
  "shard_caps c = map sh_maxEntries (c_shards c)"

lemma run_capped:
  "cache_inv hash c \<Longrightarrow> cache_capped c \<Longrightarrow> cache_run_ok hash xs c \<Longrightarrow> cache_run hash xs c = (c', evs) \<Longrightarrow>
     cache_capped c' \<and> shard_caps c' = shard_caps c"
proof (induction xs arbitrary: c evs)
  case (Cons x xs)
  obtain c1 res evs1 where ex: "cache_exec hash x c = (c1, res, evs1)" by (cases "cache_exec hash x c") auto
  then have st: "cache_step hash x c = (c1, evs1)" by (simp add: cache_step_def)
  have ok: "cache_op_ok x c" "cache_run_ok hash xs c1" using Cons.prems(3) st by auto
  obtain evs2 where run: "cache_run hash xs c1 = (c', evs2)" using Cons.prems(4) st by (auto split: prod.splits)
  note e = exec_capped [OF Cons.prems(1,2) ok(1) ex]
  have "cache_inv hash c1" using ca.step_inv [OF Cons.prems(1) ok(1) st] .
  from Cons.IH [OF this e(1) ok(2) run] e(2,3) show ?case
    by (simp add: shard_caps_def list_eq_iff_nth_eq)
qed simp

lemma sum_list_bound: "\<forall>x \<in> set xs. f x \<le> (n::nat) \<Longrightarrow> sum_list (map f xs) \<le> length xs * n"
  by (induction xs) auto

lemma perShard_total:
  assumes "0 < M" and "0 < n"
  shows "n * perShard M n \<le> max M n" and "0 < perShard M n"
proof -
  have q: "go_div M n = M div n" using assms by (simp add: go_div_nonneg)
  have "n * (M div n) \<le> M" using assms by (simp add: mult.commute minus_mod_eq_mult_div [symmetric])
  then show "n * perShard M n \<le> max M n" using assms q by (auto simp: perShard_def Let_def)
  show "0 < perShard M n" using assms by (auto simp: perShard_def Let_def)
qed

lemma cache_Len_capped:
  assumes "cache_capped c" and "\<forall>e \<in> set (shard_caps c). e = p" and "0 < p"
  shows "int (cache_Len c) \<le> int (length (c_shards c)) * p"
proof -
  have "\<forall>s \<in> set (c_shards c). shard_len s \<le> nat p"
    using assms by (auto simp: cache_capped_def capped_def shard_caps_def)
  from sum_list_bound [OF this] have "cache_Len c \<le> length (c_shards c) * nat p" by (simp add: cache_Len_def)
  then have "int (cache_Len c) \<le> int (length (c_shards c) * nat p)" by (simp only: of_nat_le_iff)
  then show ?thesis using assms(3) by simp
qed

lemma New_lru_or_fifo:
  "kind \<in> {''lru'', ''fifo''} \<Longrightarrow> Policy_Name (fst (Policy_New uni r kind)) \<in> {''lru'', ''fifo''}"
  by (auto simp: Policy_New_def to_lower_def is_ascii_def ascii_lower_def)

lemma New_capped:
  assumes new: "cache_New uni rs cfg = Some (Inr c)" and kind: "cfg_Policy cfg \<in> {''lru'', ''fifo''}"
    and max: "0 < cfg_MaxEntries cfg"
  shows "cache_capped c" and "\<forall>e \<in> set (shard_caps c). e = perShard (cfg_MaxEntries cfg) (cfg_Shards (c_cfg c))"
proof -
  note np = cache_New_props [OF new]
  have k: "cfg_Policy (c_cfg c) \<in> {''lru'', ''fifo''}" using np(6) kind by auto
  have sh: "lru_or_fifo s \<and> capped s \<and> sh_maxEntries s = perShard (cfg_MaxEntries cfg) (cfg_Shards (c_cfg c))"
    if s: "s \<in> set (c_shards c)" for s
  proof -
    obtain i where "i < length (c_shards c)" "c_shards c ! i = s" using s by (auto simp: in_set_conv_nth)
    then show ?thesis using np(7) New_lru_or_fifo [OF k, of uni "rs i"]
      by (auto simp: newShard_def lru_or_fifo_def capped_def shard_len_def)
  qed
  then show "cache_capped c" by (simp add: cache_capped_def)
  show "\<forall>e \<in> set (shard_caps c). e = perShard (cfg_MaxEntries cfg) (cfg_Shards (c_cfg c))"
    using sh by (auto simp: shard_caps_def)
qed

lemma exec_known: "cache_exec hash x c = (c', res, evs) \<Longrightarrow> ev \<in> set evs \<Longrightarrow> known_op ev"
proof (cases x)
  case (CTick orders now)
  assume "cache_exec hash x c = (c', res, evs)" "ev \<in> set evs"
  with CTick show ?thesis by (auto simp: expiry_tick_def sweepExpired_def Let_def case_prod_unfold)
qed (auto simp: SetTTL_def Get_def Delete_def Exists_def IncrBy_def Expire_def TTL_def FlushAll_def shard_get_def
    shard_set_def shard_del_def shard_exists_def shard_expire_def shard_ttl_def shard_incrBy_def shard_flush_def
    Let_def split: option.splits if_splits prod.splits sum.splits)

lemma run_known: "cache_run hash xs c = (c', evs) \<Longrightarrow> ev \<in> set evs \<Longrightarrow> known_op ev"
proof (induction xs arbitrary: c evs)
  case (Cons x xs)
  then show ?case by (auto simp: cache_step_def split: prod.splits dest: exec_known)
qed simp

end
