(* ===== verification/Cache_Thms.thy ===== *)
theory Cache_Thms
  imports Cache_Props
begin

section \<open>Properties of the cache\<close>

text \<open>
  The statements about internal/cache/cache.go that the development claims, each with an instance on a concrete
  cache of two shards.
\<close>

definition ex_cfg :: "string \<Rightarrow> int \<Rightarrow> config" where
  "ex_cfg kind maxE = \<lparr>cfg_Shards = 2, cfg_MaxEntries = maxE, cfg_MaxMemory = 0, cfg_Policy = kind,
     cfg_ActiveExpiry = 0, cfg_EventBuffer = 0\<rparr>"

definition ex_cache :: "string \<Rightarrow> policy \<Rightarrow> int \<Rightarrow> int \<Rightarrow> cache" where
  "ex_cache kind p maxE per =
     \<lparr>c_cfg = (ex_cfg kind maxE)\<lparr>cfg_EventBuffer := 4096\<rparr>, c_shards = [newShard p per 0, newShard p per 0], c_mask = 1,
      c_hits = 0, c_misses = 0, c_sets = 0, c_dels = 0, c_evictions = 0, c_expirations = 0\<rparr>"

definition ex_hash :: "string \<Rightarrow> u64" where
  "ex_hash k = of_nat (length k)"

lemmas new_cache_simps =
  cache_New_def ex_cfg_def ex_cache_def withDefaults_def nextPow2_def nextPow2_loop.simps wrap64_def perShard_def
  go_div_def Policy_New_def to_lower_def is_ascii_def ascii_lower_def upt_rec numeral_eq_Suc

lemma ex_lru_New: "cache_New id (\<lambda>_ _. 0) (ex_cfg ''lru'' 4) = Some (Inr (ex_cache ''lru'' (PLRU NewLRU) 4 2))"
  by (simp add: new_cache_simps)

lemma ex_none_New:
  "cache_New id (\<lambda>_ _. 0) (ex_cfg ''noeviction'' 0) = Some (Inr (ex_cache ''noeviction'' (PNoEviction NewNoEviction) 0 0))"
  by (simp add: new_cache_simps)

abbreviation ex_lru :: cache where "ex_lru \<equiv> ex_cache ''lru'' (PLRU NewLRU) 4 2"
abbreviation ex_none :: cache where "ex_none \<equiv> ex_cache ''noeviction'' (PNoEviction NewNoEviction) 0 0"

lemmas ex_lru_inv = cache_New_props(1,2) [OF ex_lru_New]
lemmas ex_none_inv = cache_New_props(1,2) [OF ex_none_New]

text \<open>C1: The cache refines a timed map. Every operation on a cache that satisfies the invariant keeps it, returns what
  the abstract map returns, and changes the contents as the abstract map does, for some set of keys that it may
  choose: the keys it evicts to store another, or expired keys that a tick removes. The events it emits are exactly
  the change.\<close>

theorem cache_refines:
  assumes "cache_inv hash c" and "cache_op_ok x c" and "cache_exec hash x c = (c', res, evs)"
  shows "cache_inv hash c' \<and> cache_kv hash c' = fold apply_ev evs (cache_kv hash c) \<and>
    (\<exists>E \<subseteq> spec_may x (cache_kv hash c). spec_step x E (cache_kv hash c) = (cache_kv hash c', res))"
  using cache_exec_refines [OF assms(1,2)] unfolding refines_def assms(3) prod.case .

theorem cache_refines_witness:
  "\<exists>c' evs. cache_exec ex_hash (CGet ''k'' 5) ex_lru = (c', RVal None False, evs) \<and> cache_inv ex_hash c'"
proof -
  obtain c' res evs where ex: "cache_exec ex_hash (CGet ''k'' 5) ex_lru = (c', res, evs)"
    by (cases "cache_exec ex_hash (CGet ''k'' 5) ex_lru") auto
  from cache_refines [OF ex_lru_inv(1) _ ex] ex show ?thesis by (auto simp: ex_lru_inv(2) live_def)
qed

text \<open>The events of any run of operations, replayed on the contents at its start, give the contents at its end.\<close>

theorem cache_run_replays:
  assumes "cache_inv hash c" and "cache_run_ok hash xs c" and "cache_run hash xs c = (c', evs)"
  shows "cache_inv hash c' \<and> cache_kv hash c' = fold apply_ev evs (cache_kv hash c)"
  by (rule ca.run_replay [OF assms])

theorem cache_run_replays_witness:
  "\<exists>c' evs. cache_run ex_hash [CSet ''k'' (Some ''v'') 0 1, CDel ''k''] ex_lru = (c', evs) \<and>
     cache_kv ex_hash c' = fold apply_ev evs Map.empty"
proof -
  obtain c' evs where r: "cache_run ex_hash [CSet ''k'' (Some ''v'') 0 1, CDel ''k''] ex_lru = (c', evs)"
    by (cases "cache_run ex_hash [CSet ''k'' (Some ''v'') 0 1, CDel ''k''] ex_lru")
  from cache_run_replays [OF ex_lru_inv(1) _ r] r show ?thesis by (auto simp: ex_lru_inv(2))
qed

text \<open>C2: Convergence of a follower. A cache without limits that starts empty and applies, in order, all the events of
  a run of another cache (with another hash, its own shards, its own orders of iteration) ends with the same contents.\<close>

theorem follower_converges:
  assumes "cache_New uni rs cfg = Some (Inr c)" and "cache_run_ok hash xs c" and "cache_run hash xs c = (c', evs)"
    and "cache_New uni' rs' cfg' = Some (Inr r)" and "cfg_MaxEntries cfg' \<le> 0" and "cfg_MaxMemory cfg' \<le> 0"
    and "map fst es = evs" and "apply_all_ok hash' es r"
  shows "cache_kv hash' (apply_all hash' es r) = cache_kv hash c'"
proof -
  note c = cache_New_props(1,2) [OF assms(1), of hash] and r = cache_New_props(1,2) [OF assms(4), of hash']
  have "unlimited s" if "s \<in> set (c_shards r)" for s
    using that cache_New_props(7) [OF assms(4)] assms(5,6) by (auto simp: in_set_conv_nth unlimited_def newShard_def perShard_def)
  then have u: "\<forall>s \<in> set (c_shards r). unlimited s" by blast
  have "fst ` set es = set evs" unfolding assms(7) [symmetric] by (rule set_map [symmetric])
  then have k: "\<forall>ev \<in> fst ` set es. known_op ev" using run_known [OF assms(3)] by simp
  from apply_all_sound [OF r(1) u assms(8) k] ca.run_replay [OF c(1) assms(2,3)] show ?thesis
    by (simp add: assms(7) c(2) r(2))
qed

theorem follower_converges_witness:
  "\<exists>c' evs. cache_run ex_hash [CSet ''k'' (Some ''v'') 0 1] ex_lru = (c', evs) \<and>
     cache_kv ex_hash (apply_all ex_hash (map (\<lambda>ev. (ev, [[], []])) evs) ex_none) = cache_kv ex_hash c'"
proof -
  obtain c' evs where r: "cache_run ex_hash [CSet ''k'' (Some ''v'') 0 1] ex_lru = (c', evs)"
    by (cases "cache_run ex_hash [CSet ''k'' (Some ''v'') 0 1] ex_lru")
  have "snd (cache_run ex_hash [CSet ''k'' (Some ''v'') 0 1] ex_lru) = [ev_set ''k'' (Some ''v'') 0]" by code_simp
  then have evs: "evs = [ev_set ''k'' (Some ''v'') 0]" using r by simp
  have o: "orders_ok [[], []] ex_none" by (simp add: orders_ok_def ex_cache_def visits_def newShard_def)
  have "map fst (map (\<lambda>ev. (ev, [[], []])) evs) = evs" by (simp add: comp_def)
  from follower_converges [OF ex_lru_New _ r ex_none_New _ _ this] o evs r show ?thesis by (auto simp: ex_cfg_def)
qed

text \<open>C16: Capacity. A cache with LRU or FIFO and a positive cap on its entries never holds more of them than the cap, or
  than its number of shards if that is more (each shard may hold one), after any run of operations.\<close>

theorem cache_capacity:
  assumes "cache_New uni rs cfg = Some (Inr c)" and "cfg_Policy cfg \<in> {''lru'', ''fifo''}" and "0 < cfg_MaxEntries cfg"
    and "cache_run_ok hash xs c" and "cache_run hash xs c = (c', evs)"
  shows "int (cache_Len c') \<le> max (cfg_MaxEntries cfg) (cfg_Shards (c_cfg c))"
proof -
  note np = cache_New_props [OF assms(1)] and cap = New_capped [OF assms(1-3)]
  let ?p = "perShard (cfg_MaxEntries cfg) (cfg_Shards (c_cfg c))"
  have p: "cfg_Shards (c_cfg c) * ?p \<le> max (cfg_MaxEntries cfg) (cfg_Shards (c_cfg c))" "0 < ?p"
    using perShard_total [OF assms(3) np(5)] by auto
  have r: "cache_capped c'" "shard_caps c' = shard_caps c"
    using run_capped [OF np(1) cap(1) assms(4,5)] by auto
  have "length (c_shards c') = length (c_shards c)" using r(2) by (metis length_map shard_caps_def)
  moreover have "int (cache_Len c') \<le> int (length (c_shards c')) * ?p"
    using cache_Len_capped [OF r(1) _ p(2)] cap(2) r(2) by simp
  ultimately show ?thesis using p(1) np(4) by simp
qed

theorem cache_capacity_witness:
  "int (cache_Len (fst (cache_run ex_hash
     [CSet ''a'' (Some ''1'') 0 0, CSet ''b'' (Some ''2'') 0 0, CSet ''c'' (Some ''3'') 0 0] ex_lru))) \<le> 4"
proof -
  let ?xs = "[CSet ''a'' (Some ''1'') 0 0, CSet ''b'' (Some ''2'') 0 0, CSet ''c'' (Some ''3'') 0 0]"
  obtain c' evs where r: "cache_run ex_hash ?xs ex_lru = (c', evs)" by (cases "cache_run ex_hash ?xs ex_lru")
  have "cfg_Shards (c_cfg ex_lru) = 2" by (simp add: ex_cache_def ex_cfg_def)
  with cache_capacity [OF ex_lru_New _ _ _ r] r show ?thesis by (simp add: ex_cfg_def)
qed

text \<open>The number of shards. For a request from 1 to 2 to the 62 the loop ends with the least power of two that is not
  below it; for a larger request the doubling overflows to zero and the loop never ends.\<close>

theorem nextPow2_spec:
  "(1 \<le> n \<and> n \<le> 2 ^ 62 \<longrightarrow> (\<exists>m. nextPow2 n = Some (2 ^ m) \<and> n \<le> 2 ^ m \<and> 2 ^ m < 2 * n)) \<and>
   (2 ^ 62 < n \<longrightarrow> nextPow2 n = None)"
  using nextPow2_None [of n] by (auto elim: nextPow2_Some [of n])

theorem nextPow2_spec_witness: "nextPow2 (2 ^ 62 + 1) = None \<and> (\<exists>m. nextPow2 5 = Some (2 ^ m) \<and> (5::int) \<le> 2 ^ m \<and> 2 ^ m < (10::int))"
  using nextPow2_spec [of "2 ^ 62 + 1"] nextPow2_spec [of 5] by simp

end
