(* ===== verification/Events.thy ===== *)
theory Events
  imports Shard
begin

section \<open>The event stream\<close>

text \<open>
  The channel of events of internal/cache/cache.go and the goroutines around it: \<open>emit\<close> sends an
  event unless the cache is closed, \<open>Sync\<close> sends an acknowledgement and waits for it, \<open>dispatch\<close> numbers
  the events and calls the subscribers, \<open>Close\<close> closes the \<open>done\<close> channel. The step relation interleaves
  them. A send waits for room in the channel (\<open>cfg_EventBuffer\<close> places); the test of \<open>closed\<close> in \<open>emit\<close> may have
  been made before \<open>Close\<close> ran, so a send can still succeed after it. \<open>bs_emitted\<close> (the events sent so far) and
  \<open>bs_marks\<close> (how many there were when an acknowledgement was sent) only record the history.
\<close>

datatype chan_item = CEvent event | CAck nat

record bus =
  bs_events :: "chan_item list"
  bs_closed :: bool
  bs_done :: bool
  bs_running :: bool
  bs_dseq :: u64
  bs_fanned :: bool
  bs_seq :: u64
  bs_subscribers :: "event list list"
  bs_acks :: "nat set"
  bs_delivered :: "event list"
  bs_emitted :: "event list"
  bs_marks :: "(nat \<times> nat) list"

definition bus_new :: bus where
  "bus_new = \<lparr>bs_events = [], bs_closed = False, bs_done = False, bs_running = True, bs_dseq = 0, bs_fanned = False,
     bs_seq = 0, bs_subscribers = [], bs_acks = {}, bs_delivered = [], bs_emitted = [], bs_marks = []\<rparr>"

definition emit_send :: "event \<Rightarrow> bus \<Rightarrow> bus" where
  "emit_send ev b = b\<lparr>bs_events := bs_events b @ [CEvent ev], bs_emitted := bs_emitted b @ [ev]\<rparr>"

definition sync_send :: "nat \<Rightarrow> bus \<Rightarrow> bus" where
  "sync_send n b = b\<lparr>bs_events := bs_events b @ [CAck n], bs_marks := (n, length (bs_emitted b)) # bs_marks b\<rparr>"

text \<open>\<open>fan\<close>: an acknowledgement is closed; an event is numbered and handed to every subscriber, and then
  the number is published.\<close>

definition fan :: "chan_item \<Rightarrow> bus \<Rightarrow> bus" where
  "fan x b =
     (case x of
        CAck n \<Rightarrow> b\<lparr>bs_acks := insert n (bs_acks b)\<rparr>
      | CEvent ev \<Rightarrow>
          (let seq = bs_dseq b + 1; ev' = ev\<lparr>ev_Seq := seq\<rparr> in
           b\<lparr>bs_dseq := seq, bs_subscribers := map (\<lambda>s. s @ [ev']) (bs_subscribers b),
             bs_delivered := bs_delivered b @ [ev'], bs_fanned := True\<rparr>))"

definition publish_seq :: "bus \<Rightarrow> bus" where
  "publish_seq b = b\<lparr>bs_seq := bs_dseq b, bs_fanned := False\<rparr>"

definition Subscribe :: "bus \<Rightarrow> bus" where
  "Subscribe b = b\<lparr>bs_subscribers := bs_subscribers b @ [[]]\<rparr>"

definition bus_Close :: "bus \<Rightarrow> bus" where
  "bus_Close b = b\<lparr>bs_closed := True, bs_done := True\<rparr>"

inductive bus_step :: "nat \<Rightarrow> bus \<Rightarrow> bus \<Rightarrow> bool" for cap where
  emit: "length (bs_events b) < cap \<Longrightarrow> bus_step cap b (emit_send ev b)"
| emit_drop: "bs_closed b \<or> bs_done b \<Longrightarrow> bus_step cap b b"
| sync: "length (bs_events b) < cap \<Longrightarrow> n \<notin> fst ` set (bs_marks b) \<Longrightarrow> bus_step cap b (sync_send n b)"
| receive: "bs_running b \<Longrightarrow> \<not> bs_fanned b \<Longrightarrow> bs_events b = x # xs \<Longrightarrow> bus_step cap b (fan x (b\<lparr>bs_events := xs\<rparr>))"
| publish: "bs_fanned b \<Longrightarrow> bus_step cap b (publish_seq b)"
| stop: "bs_running b \<Longrightarrow> \<not> bs_fanned b \<Longrightarrow> bs_done b \<Longrightarrow> bs_events b = [] \<Longrightarrow> bus_step cap b (b\<lparr>bs_running := False\<rparr>)"
| subscribe: "\<not> bs_fanned b \<Longrightarrow> bus_step cap b (Subscribe b)"
| close: "bus_step cap b (bus_Close b)"

inductive bus_reach :: "nat \<Rightarrow> bus \<Rightarrow> bool" for cap where
  init: "bus_reach cap bus_new"
| step: "bus_reach cap b \<Longrightarrow> bus_step cap b b' \<Longrightarrow> bus_reach cap b'"

inductive_cases bus_stepE: "bus_step cap b b'"

subsection \<open>What a reachable state satisfies\<close>

definition unnumbered :: "event \<Rightarrow> event" where
  "unnumbered ev = ev\<lparr>ev_Seq := 0\<rparr>"

fun chan_events :: "chan_item list \<Rightarrow> event list" where
  "chan_events [] = []"
| "chan_events (CEvent ev # xs) = ev # chan_events xs"
| "chan_events (CAck n # xs) = chan_events xs"

lemma chan_events_append [simp]: "chan_events (xs @ ys) = chan_events xs @ chan_events ys"
proof (induction xs)
  case (Cons x xs)
  then show ?case by (cases x) simp_all
qed simp

definition numbered :: "event list \<Rightarrow> bool" where
  "numbered evs \<longleftrightarrow> (\<forall>i < length evs. ev_Seq (evs ! i) = of_nat (Suc i))"

lemma numbered_snoc: "numbered evs \<Longrightarrow> ev_Seq ev = of_nat (Suc (length evs)) \<Longrightarrow> numbered (evs @ [ev])"
  by (auto simp: numbered_def nth_append less_Suc_eq)

text \<open>Nothing is lost or reordered between the senders and the subscribers, and the numbers are
  consecutive.\<close>

definition stream_inv :: "bus \<Rightarrow> bool" where
  "stream_inv b \<longleftrightarrow>
     map unnumbered (bs_emitted b) = map unnumbered (bs_delivered b) @ map unnumbered (chan_events (bs_events b)) \<and>
     numbered (bs_delivered b) \<and> bs_dseq b = of_nat (length (bs_delivered b)) \<and>
     bs_seq b = bs_dseq b - (if bs_fanned b then 1 else 0) \<and> (bs_fanned b \<longrightarrow> bs_delivered b \<noteq> []) \<and>
     (\<forall>s \<in> set (bs_subscribers b). \<exists>n \<le> length (bs_delivered b). s = drop n (bs_delivered b))"

lemma stream_inv_new: "stream_inv bus_new"
  by (simp add: stream_inv_def bus_new_def numbered_def)

lemma stream_inv_step: "bus_step cap b b' \<Longrightarrow> stream_inv b \<Longrightarrow> stream_inv b'"
proof (induction rule: bus_step.induct)
  case (receive b x xs)
  show ?case
  proof (cases x)
    case (CEvent ev)
    let ?ev = "ev\<lparr>ev_Seq := bs_dseq b + 1\<rparr>"
    have subs: "\<exists>n \<le> Suc (length (bs_delivered b)). s @ [?ev] = drop n (bs_delivered b @ [?ev])"
      if s: "s \<in> set (bs_subscribers b)" for s
    proof -
      obtain n where "n \<le> length (bs_delivered b)" "s = drop n (bs_delivered b)"
        using s receive.prems by (auto simp: stream_inv_def)
      then show ?thesis by (intro exI [of _ n]) simp
    qed
    have "numbered (bs_delivered b @ [?ev])"
      using receive.prems by (intro numbered_snoc) (simp_all add: stream_inv_def)
    then show ?thesis
      using receive subs CEvent by (auto simp: stream_inv_def fan_def Let_def unnumbered_def)
  next
    case (CAck n)
    with receive show ?thesis by (simp add: stream_inv_def fan_def)
  qed
qed (auto simp: stream_inv_def emit_send_def sync_send_def publish_seq_def Subscribe_def bus_Close_def)

lemma stream_inv_reach: "bus_reach cap b \<Longrightarrow> stream_inv b"
  by (induction rule: bus_reach.induct) (auto intro: stream_inv_new stream_inv_step)

text \<open>An acknowledgement is behind the events that were sent before it, so it is closed after they
  have been delivered.\<close>

definition published :: "bus \<Rightarrow> nat" where
  "published b = length (bs_delivered b) - (if bs_fanned b then 1 else 0)"

lemma published_simps [simp]:
    "published (b\<lparr>bs_events := x0\<rparr>) = published b" "published (b\<lparr>bs_emitted := x1\<rparr>) = published b"
    "published (b\<lparr>bs_marks := x2\<rparr>) = published b" "published (b\<lparr>bs_subscribers := x3\<rparr>) = published b"
    "published (b\<lparr>bs_closed := x4\<rparr>) = published b" "published (b\<lparr>bs_done := x5\<rparr>) = published b"
    "published (b\<lparr>bs_running := x6\<rparr>) = published b" "published (b\<lparr>bs_acks := x7\<rparr>) = published b"
  by (simp_all add: published_def)

definition sync_inv :: "bus \<Rightarrow> bool" where
  "sync_inv b \<longleftrightarrow>
     length (bs_emitted b) = length (bs_delivered b) + length (chan_events (bs_events b)) \<and>
     wf_map (bs_marks b) \<and>
     (\<forall>xs n ys. bs_events b = xs @ CAck n # ys \<longrightarrow>
        map_of (bs_marks b) n = Some (length (bs_delivered b) + length (chan_events xs))) \<and>
     (\<forall>n \<in> bs_acks b. \<exists>m. map_of (bs_marks b) n = Some m \<and> m \<le> published b)"

lemma sync_inv_new: "sync_inv bus_new"
  by (simp add: sync_inv_def bus_new_def)

lemma snoc_split:
  "xs @ [x] = ys @ y # zs \<longleftrightarrow> (zs = [] \<and> x = y \<and> xs = ys) \<or> (\<exists>zs'. zs = zs' @ [x] \<and> xs = ys @ y # zs')"
  by (cases zs rule: rev_cases) auto

lemma sync_inv_step: "bus_step cap b b' \<Longrightarrow> sync_inv b \<Longrightarrow> sync_inv b'"
proof (induction rule: bus_step.induct)
  case (emit b ev)
  then show ?case by (auto simp: sync_inv_def emit_send_def snoc_split)
next
  case (sync b n)
  let ?b = "sync_send n b"
  have n: "map_of (bs_marks b) n = None" using sync(2) by (simp add: map_of_None_iff)
  have old: "map_of (bs_marks ?b) m = Some v" if "map_of (bs_marks b) m = Some v" for m v
    using n that by (auto simp: sync_send_def)
  have inv: "length (bs_emitted b) = length (bs_delivered b) + length (chan_events (bs_events b))"
    "wf_map (bs_marks b)"
    "\<And>xs n ys. bs_events b = xs @ CAck n # ys \<Longrightarrow>
       map_of (bs_marks b) n = Some (length (bs_delivered b) + length (chan_events xs))"
    "\<And>n. n \<in> bs_acks b \<Longrightarrow> \<exists>m. map_of (bs_marks b) n = Some m \<and> m \<le> published b"
    using sync(3) by (auto simp: sync_inv_def)
  have "map_of (bs_marks ?b) m = Some (length (bs_delivered b) + length (chan_events xs))"
    if "bs_events ?b = xs @ CAck m # ys" for xs m ys
  proof -
    from that consider "m = n" "xs = bs_events b" | ys' where "bs_events b = xs @ CAck m # ys'"
      by (auto simp: sync_send_def snoc_split)
    then show ?thesis by cases (use inv old in \<open>simp_all add: sync_send_def\<close>)
  qed
  moreover have "\<exists>v. map_of (bs_marks ?b) m = Some v \<and> v \<le> published b"
    if "m \<in> bs_acks b" for m
    using inv(4) [OF that] old by blast
  ultimately show ?case using inv(1,2) sync(2) by (simp add: sync_inv_def) (simp add: sync_send_def)
next
  case (receive b x xs)
  have chan: "x # xs = (x # ys) @ CAck n # zs \<longleftrightarrow> xs = ys @ CAck n # zs" for ys n zs by simp
  have marks: "map_of (bs_marks b) n = Some (length (bs_delivered b) + length (chan_events (x # ys)))"
    if "xs = ys @ CAck n # zs" for ys n zs
    using receive.prems receive.hyps(3) that unfolding sync_inv_def by (metis chan)
  let ?b = "fan x (b\<lparr>bs_events := xs\<rparr>)"
  have pub: "published b = length (bs_delivered b)" "published ?b = length (bs_delivered b)"
    using receive.hyps(2) by (simp_all add: published_def fan_def Let_def split: chan_item.split)
  have same: "bs_marks ?b = bs_marks b" "bs_events ?b = xs" "bs_emitted ?b = bs_emitted b"
    by (simp_all add: fan_def Let_def split: chan_item.split)
  define d where "d = length (chan_events [x])"
  have len: "length (bs_delivered ?b) = length (bs_delivered b) + d"
    by (simp add: d_def fan_def Let_def split: chan_item.split)
  have split: "length (chan_events (x # ys)) = d + length (chan_events ys)" for ys
    by (cases x) (simp_all add: d_def)
  have m: "map_of (bs_marks b) n = Some (length (bs_delivered ?b) + length (chan_events ys))" if "xs = ys @ CAck n # zs" for ys n zs
    using marks [OF that] by (simp only: len split add.assoc)
  have inv: "length (bs_emitted b) = length (bs_delivered b) + length (chan_events (x # xs))" "wf_map (bs_marks b)"
    using receive.prems receive.hyps(3) by (simp_all add: sync_inv_def)
  then have emitted: "length (bs_emitted b) = length (bs_delivered ?b) + length (chan_events xs)"
    by (simp only: len split add.assoc)
  have acks: "\<exists>m. map_of (bs_marks b) n = Some m \<and> m \<le> length (bs_delivered b)" if n: "n \<in> bs_acks ?b" for n
  proof (cases "n \<in> bs_acks b")
    case True
    then show ?thesis using receive.prems unfolding sync_inv_def pub by blast
  next
    case False
    with n have "x = CAck n" by (auto simp: fan_def Let_def split: chan_item.splits)
    then have "bs_events b = [] @ CAck n # xs" using receive.hyps(3) by simp
    then have "map_of (bs_marks b) n = Some (length (bs_delivered b) + length (chan_events []))"
      using receive.prems unfolding sync_inv_def by blast
    then show ?thesis by simp
  qed
  show ?case unfolding sync_inv_def same pub using emitted inv(2) m acks by blast
next
  case (publish b)
  let ?b = "publish_seq b"
  have same: "bs_marks ?b = bs_marks b" "bs_events ?b = bs_events b" "bs_emitted ?b = bs_emitted b"
      "bs_delivered ?b = bs_delivered b" "bs_acks ?b = bs_acks b" by (simp_all add: publish_seq_def)
  have "published b \<le> published ?b" by (simp add: published_def publish_seq_def)
  with publish(2) show ?case unfolding sync_inv_def same by (metis order_trans)
qed (auto simp: sync_inv_def Subscribe_def bus_Close_def)

lemma sync_inv_reach: "bus_reach cap b \<Longrightarrow> sync_inv b"
  by (induction rule: bus_reach.induct) (auto intro: sync_inv_new sync_inv_step)

lemma chan_cap: "bus_reach cap b \<Longrightarrow> length (bs_events b) \<le> cap"
proof (induction rule: bus_reach.induct)
  case (step b b')
  from step(2,3) show ?case
    by (induction rule: bus_step.induct)
      (auto simp: emit_send_def sync_send_def fan_def publish_seq_def Subscribe_def bus_Close_def Let_def
        split: chan_item.split)
qed (simp add: bus_new_def)

end
