(* ===== verification/Events_Thms.thy ===== *)
theory Events_Thms
  imports Events
begin

section \<open>Properties of the event stream\<close>

text \<open>
  What a subscriber of internal/cache/cache.go sees, in every interleaving of the senders, \<open>Sync\<close>,
  \<open>Subscribe\<close>, \<open>Close\<close> and the dispatcher.
\<close>






subsection \<open>Progress\<close>


lemma fan_events [simp]: "bs_events (fan x b) = bs_events b"
  and fan_running [simp]: "bs_running (fan x b) = bs_running b"
  and fan_emitted [simp]: "bs_emitted (fan x b) = bs_emitted b"
  and fan_marks [simp]: "bs_marks (fan x b) = bs_marks b"
  by (simp_all add: fan_def Let_def split: chan_item.split)






end
