(* ===== verification/Framing.thy ===== *)
theory Framing
  imports Prelude
begin

section \<open>Items on a byte stream\<close>

text \<open>
  The interface between the encoders and decoders of internal/resp, internal/persistence and internal/replication and those
  that write and read streams with them. A decoder takes one encoded item off the front of the input, whatever follows
  it; \<open>img\<close> is what the item is read as, and \<open>ok\<close> says which items the format can carry. So a stream of items
  is read back item by item, and no two different streams have the same bytes.
\<close>

fun read_n :: "(string \<Rightarrow> 'b \<times> string) \<Rightarrow> nat \<Rightarrow> string \<Rightarrow> 'b list \<times> string" where
  "read_n dec 0 inp = ([], inp)"
| "read_n dec (Suc n) inp = (let (x, r) = dec inp; (xs, r') = read_n dec n r in (x # xs, r'))"

locale framing =
  fixes enc :: "'a \<Rightarrow> string" and dec :: "string \<Rightarrow> ('e + 'b) \<times> string" and img :: "'a \<Rightarrow> 'b" and ok :: "'a \<Rightarrow> bool"
  assumes dec_enc: "ok x \<Longrightarrow> dec (enc x @ r) = (Inr (img x), r)"
begin

lemma read_all: "list_all ok xs \<Longrightarrow> read_n dec (length xs) (concat (map enc xs) @ r) = (map (Inr \<circ> img) xs, r)"
  by (induction xs) (simp_all add: dec_enc)

lemma item_unique: "ok x \<Longrightarrow> ok y \<Longrightarrow> enc x @ r = enc y @ r' \<Longrightarrow> img x = img y \<and> r = r'"
  using dec_enc [of x r] dec_enc [of y r'] by simp

end

text \<open>When every item takes at least one byte, a stream determines its items even if their number is not known.\<close>

locale nonempty_framing = framing +
  assumes enc_nonempty: "ok x \<Longrightarrow> enc x \<noteq> []"
begin

lemma stream_unique:
  "list_all ok xs \<Longrightarrow> list_all ok ys \<Longrightarrow> concat (map enc xs) = concat (map enc ys) \<Longrightarrow> map img xs = map img ys"
proof (induction xs arbitrary: ys)
  case Nil
  then show ?case using enc_nonempty by (cases ys) auto
next
  case (Cons x xs)
  show ?case
  proof (cases ys)
    case Nil
    then show ?thesis using Cons.prems enc_nonempty by auto
  next
    case (Cons y ys')
    with Cons.prems item_unique [of x y "concat (map enc xs)" "concat (map enc ys')"]
    have "img x = img y" "concat (map enc xs) = concat (map enc ys')" by simp_all
    with Cons.IH [of ys'] Cons.prems Cons show ?thesis by simp
  qed
qed

end

end
