(* ===== verification/Resp.thy ===== *)
theory Resp
  imports Framing
begin

section \<open>The wire protocol\<close>

text \<open>
  internal/resp/resp.go and reply.go. A reader is the list of the bytes that are still to come; its end is
  the end of the stream. A read returns the result and the rest of the input. The limits say how
  large a slice \<open>make\<close> can allocate before it panics. \<open>strings.Fields\<close> depends on the Unicode tables for
  lines that are not ASCII, where it is the parameter \<open>uni\<close>.
\<close>

datatype resp_error = ErrProtocol | ErrEOF | ErrUnexpectedEOF | Panic

definition maxBulkLen :: int where
  "maxBulkLen = 256 * 2 ^ 20"

record limits =
  lim_args :: int
  lim_values :: int
  lim_bytes :: int

abbreviation CR :: char where "CR \<equiv> CHR 0x0D"
abbreviation LF :: char where "LF \<equiv> CHR 0x0A"
abbreviation CRLF :: string where "CRLF \<equiv> [CR, LF]"

subsection \<open>Reading\<close>

fun trimCRLF_rev :: "string \<Rightarrow> string" where
  "trimCRLF_rev [] = []"
| "trimCRLF_rev (c # cs) = (if c = LF \<or> c = CR then trimCRLF_rev cs else c # cs)"

text \<open>The loop shortens the slice from its end.\<close>

definition trimCRLF :: "string \<Rightarrow> string" where
  "trimCRLF b = rev (trimCRLF_rev (rev b))"

text \<open>\<open>ReadBytes('\n')\<close>: the bytes up to and including the first newline, or the error at the end of
  the stream, which discards what was read.\<close>

fun readBytes :: "string \<Rightarrow> string option \<times> string" where
  "readBytes [] = (None, [])"
| "readBytes (c # cs) =
     (if c = LF then (Some [c], cs)
      else (case readBytes cs of (None, r) \<Rightarrow> (None, r) | (Some l, r) \<Rightarrow> (Some (c # l), r)))"

definition readLine :: "string \<Rightarrow> (resp_error + string) \<times> string" where
  "readLine inp =
     (case readBytes inp of (None, r) \<Rightarrow> (Inl ErrEOF, r) | (Some l, r) \<Rightarrow> (Inr (trimCRLF l), r))"

definition readFull :: "nat \<Rightarrow> string \<Rightarrow> (resp_error + string) \<times> string" where
  "readFull n inp =
     (if n \<le> length inp then (Inr (take n inp), drop n inp)
      else if inp = [] then (Inl ErrEOF, []) else (Inl ErrUnexpectedEOF, []))"

fun ascii_fields :: "string \<Rightarrow> string \<Rightarrow> string list" where
  "ascii_fields cur [] = (if cur = [] then [] else [cur])"
| "ascii_fields cur (c # cs) =
     (if is_space c then (if cur = [] then ascii_fields [] cs else cur # ascii_fields [] cs)
      else ascii_fields (cur @ [c]) cs)"

definition Fields :: "(string \<Rightarrow> string list) \<Rightarrow> string \<Rightarrow> string list" where
  "Fields uni s = (if is_ascii s then ascii_fields [] s else uni s)"

definition parseInline :: "(string \<Rightarrow> string list) \<Rightarrow> string \<Rightarrow> resp_error + string list" where
  "parseInline uni line = (let fields = Fields uni line in if fields = [] then Inl ErrProtocol else Inr fields)"

fun read_args :: "limits \<Rightarrow> nat \<Rightarrow> string list \<Rightarrow> string \<Rightarrow> (resp_error + string list) \<times> string" where
  "read_args lim 0 args inp = (Inr args, inp)"
| "read_args lim (Suc n) args inp =
     (case readLine inp of
        (Inl e, r) \<Rightarrow> (Inl e, r)
      | (Inr typ, r) \<Rightarrow>
          (case typ of
             [] \<Rightarrow> (Inl ErrProtocol, r)
           | c # rest \<Rightarrow>
               if c \<noteq> CHR ''$'' then (Inl ErrProtocol, r)
               else
                 (case parse_int rest of
                    None \<Rightarrow> (Inl ErrProtocol, r)
                  | Some blen \<Rightarrow>
                      if blen < 0 \<or> blen > maxBulkLen then (Inl ErrProtocol, r)
                      else if blen + 2 > lim_bytes lim then (Inl Panic, r)
                      else
                        (case readFull (nat (blen + 2)) r of
                           (Inl e, r') \<Rightarrow> (Inl e, r')
                         | (Inr buf, r') \<Rightarrow> read_args lim n (args @ [take (nat blen) buf]) r'))))"

lemma readBytes_shorter: "readBytes inp = (Some l, r) \<Longrightarrow> length r < length inp"
  by (induction inp arbitrary: l) (auto split: if_splits prod.splits option.splits)

lemma readLine_shorter: "readLine inp = (Inr l, r) \<Longrightarrow> length r < length inp"
  by (auto simp: readLine_def split: prod.splits option.splits dest: readBytes_shorter)

function ReadCommand ::
  "limits \<Rightarrow> (string \<Rightarrow> string list) \<Rightarrow> string \<Rightarrow> (resp_error + string list) \<times> string" where
  "ReadCommand lim uni inp =
     (case readLine inp of
        (Inl e, r) \<Rightarrow> (Inl e, r)
      | (Inr line, r) \<Rightarrow>
          (case line of
             [] \<Rightarrow> ReadCommand lim uni r
           | c # rest \<Rightarrow>
               if c \<noteq> CHR ''*'' then (parseInline uni line, r)
               else
                 (case parse_int rest of
                    None \<Rightarrow> (Inl ErrProtocol, r)
                  | Some n \<Rightarrow>
                      if n < 0 then (Inl ErrProtocol, r)
                      else if n > lim_args lim then (Inl Panic, r)
                      else read_args lim (nat n) [] r)))"
  by pat_completeness auto
termination
  by (relation "measure (\<lambda>(lim, uni, inp). length inp)") (auto dest: sym [THEN readLine_shorter])

declare ReadCommand.simps [simp del]

subsection \<open>Replies\<close>

datatype Value =
  Value (v_Type: char) (v_Str: string) (v_Int: int) (v_Bulk: bytes) (v_IsNil: bool) (v_Array: "Value list")

abbreviation v_simple :: "string \<Rightarrow> Value" where "v_simple s \<equiv> Value (CHR ''+'') s 0 None False []"
abbreviation v_error :: "string \<Rightarrow> Value" where "v_error s \<equiv> Value (CHR ''-'') s 0 None False []"
abbreviation v_int :: "int \<Rightarrow> Value" where "v_int n \<equiv> Value (CHR '':'') [] n None False []"
abbreviation v_bulk :: "string \<Rightarrow> Value" where "v_bulk b \<equiv> Value (CHR ''$'') [] 0 (Some b) False []"
abbreviation v_nil :: Value where "v_nil \<equiv> Value (CHR ''$'') [] 0 None True []"
abbreviation v_array :: "Value list \<Rightarrow> Value" where "v_array vs \<equiv> Value (CHR ''*'') [] 0 None False vs"
abbreviation v_nilarray :: Value where "v_nilarray \<equiv> Value (CHR ''*'') [] 0 None True []"

text \<open>\<open>ReadReply\<close> calls itself for the elements of an array. The fuel bounds the depth of the nesting;
  \<^const>\<open>None\<close> is running out of it. Each level reads a line, so more fuel than the input has bytes is
  enough (\<open>ReadReply_fuel\<close>).\<close>

function (sequential) read_reply :: "limits \<Rightarrow> nat \<Rightarrow> string \<Rightarrow> ((resp_error + Value) \<times> string) option"
  and read_array :: "limits \<Rightarrow> nat \<Rightarrow> nat \<Rightarrow> Value list \<Rightarrow> string \<Rightarrow> ((resp_error + Value) \<times> string) option" where
  "read_reply lim 0 inp = None"
| "read_reply lim (Suc f) inp =
     (case readLine inp of
        (Inl e, r) \<Rightarrow> Some (Inl e, r)
      | (Inr [], r) \<Rightarrow> Some (Inl ErrProtocol, r)
      | (Inr (typ # rest), r) \<Rightarrow>
          if typ = CHR ''+'' then Some (Inr (v_simple rest), r)
          else if typ = CHR ''-'' then Some (Inr (v_error rest), r)
          else if typ = CHR '':'' then
            (case parse_int rest of
               None \<Rightarrow> Some (Inl ErrProtocol, r)
             | Some n \<Rightarrow> Some (Inr (v_int n), r))
          else if typ = CHR ''$'' then
            (case parse_int rest of
               None \<Rightarrow> Some (Inl ErrProtocol, r)
             | Some n \<Rightarrow>
                 if n < 0 then Some (Inr v_nil, r)
                 else if wrap64 (n + 2) < 0 \<or> wrap64 (n + 2) > lim_bytes lim then Some (Inl Panic, r)
                 else
                   (case readFull (nat (wrap64 (n + 2))) r of
                      (Inl e, r') \<Rightarrow> Some (Inl e, r')
                    | (Inr buf, r') \<Rightarrow> Some (Inr (v_bulk (take (nat n) buf)), r')))
          else if typ = CHR ''*'' then
            (case parse_int rest of
               None \<Rightarrow> Some (Inl ErrProtocol, r)
             | Some n \<Rightarrow>
                 if n < 0 then Some (Inr v_nilarray, r)
                 else if n > lim_values lim then Some (Inl Panic, r)
                 else read_array lim f (nat n) [] r)
          else Some (Inl ErrProtocol, r))"
| "read_array lim f 0 arr inp = Some (Inr (v_array arr), inp)"
| "read_array lim f (Suc n) arr inp =
     (case read_reply lim f inp of
        None \<Rightarrow> None
      | Some (Inl e, r) \<Rightarrow> Some (Inl e, r)
      | Some (Inr v, r) \<Rightarrow> read_array lim f n (arr @ [v]) r)"
  by pat_completeness auto
termination
  by (relation "inv_image (less_than <*lex*> less_than)
        (case_sum (\<lambda>(lim, f, inp). (f, 0)) (\<lambda>(lim, f, n, arr, inp). (f, Suc n)))") auto

definition ReadReply :: "limits \<Rightarrow> string \<Rightarrow> ((resp_error + Value) \<times> string) option" where
  "ReadReply lim inp = read_reply lim (Suc (length inp)) inp"

subsection \<open>Writing\<close>

text \<open>What a writer sends.\<close>

definition WriteSimple :: "string \<Rightarrow> string" where
  "WriteSimple s = ''+'' @ s @ CRLF"

definition WriteError :: "string \<Rightarrow> string" where
  "WriteError msg = ''-'' @ msg @ CRLF"

definition WriteInt :: "int \<Rightarrow> string" where
  "WriteInt n = '':'' @ format_int n @ CRLF"

definition WriteNil :: string where
  "WriteNil = ''$-1'' @ CRLF"

definition WriteBulk :: "bytes \<Rightarrow> string" where
  "WriteBulk b =
     (case b of
        None \<Rightarrow> WriteNil
      | Some s \<Rightarrow> ''$'' @ format_int (int (length s)) @ CRLF @ s @ CRLF)"

definition WriteBulkString :: "string \<Rightarrow> string" where
  "WriteBulkString s = WriteBulk (Some s)"

definition WriteArrayHeader :: "int \<Rightarrow> string" where
  "WriteArrayHeader n = (if n < 0 then ''*-1'' @ CRLF else ''*'' @ format_int n @ CRLF)"

definition write_arg :: "string \<Rightarrow> string" where
  "write_arg a = ''$'' @ format_int (int (length a)) @ CRLF @ a @ CRLF"

definition WriteCommand :: "string list \<Rightarrow> string" where
  "WriteCommand args = WriteArrayHeader (int (length args)) @ concat (map write_arg args)"

subsection \<open>Lines\<close>

lemma readBytes_line: "LF \<notin> set l \<Longrightarrow> readBytes (l @ LF # r) = (Some (l @ [LF]), r)"
  by (induction l) auto

lemma trimCRLF_eol [simp]: "trimCRLF (l @ [CR, LF]) = trimCRLF l"
  by (simp add: trimCRLF_def)

lemma trimCRLF_id: "l = [] \<or> last l \<notin> {CR, LF} \<Longrightarrow> trimCRLF l = l"
  by (cases l rule: rev_cases) (auto simp: trimCRLF_def)

text \<open>A line that has no newline in it and does not end in a carriage return is read back.\<close>

definition line_ok :: "string \<Rightarrow> bool" where
  "line_ok l \<longleftrightarrow> LF \<notin> set l \<and> (l = [] \<or> last l \<noteq> CR)"

lemma readLine_line [codec_simps]: "line_ok l \<Longrightarrow> readLine (l @ CR # LF # r) = (Inr l, r)"
proof -
  assume l: "line_ok l"
  then have "last l \<noteq> LF" if "l \<noteq> []" using that by (metis last_in_set line_ok_def)
  with l have "trimCRLF l = l" by (intro trimCRLF_id) (auto simp: line_ok_def)
  moreover have "readBytes ((l @ [CR]) @ LF # r) = (Some ((l @ [CR]) @ [LF]), r)"
    using l by (intro readBytes_line) (simp add: line_ok_def)
  ultimately show ?thesis by (simp add: readLine_def)
qed

lemma format_int_chars: "c \<in> set (format_int n) \<Longrightarrow> c \<notin> {CR, LF}"
proof -
  have dig: "digit_val CR = None" "digit_val LF = None" by (simp_all add: digit_val_def)
  assume "c \<in> set (format_int n)"
  then have "c = CHR ''-'' \<or> (\<exists>m. c \<in> set (format_nat m))" by (auto simp: format_int_def split: if_splits)
  then show ?thesis using set_format_nat digit_val_digit_char dig by fastforce
qed

lemma line_ok_format [codec_simps]: "line_ok (c # format_int n) \<longleftrightarrow> c \<noteq> LF \<and> (format_int n = [] \<longrightarrow> c \<noteq> CR)"
proof -
  have "LF \<notin> set (format_int n)" using format_int_chars by blast
  moreover have "last (format_int n) \<noteq> CR" if "format_int n \<noteq> []"
    using format_int_chars [of "last (format_int n)" n] that by auto
  ultimately show ?thesis by (auto simp: line_ok_def)
qed

lemma readLine_number [codec_simps]:
  "c \<notin> {CR, LF} \<Longrightarrow> readLine (c # format_int n @ CR # LF # r) = (Inr (c # format_int n), r)"
  using readLine_line [of "c # format_int n" r] by (simp add: line_ok_format)

lemma readFull_exact [codec_simps]: "n = length s \<Longrightarrow> readFull n (s @ r) = (Inr s, r)"
  by (simp add: readFull_def)

subsection \<open>Commands\<close>

definition arg_ok :: "limits \<Rightarrow> string \<Rightarrow> bool" where
  "arg_ok lim a \<longleftrightarrow> int (length a) \<le> maxBulkLen \<and> int (length a) + 2 \<le> lim_bytes lim"

lemma maxBulkLen_int64: "int n \<le> maxBulkLen \<Longrightarrow> int64 (int n)"
  by (simp add: maxBulkLen_def int64_def)

lemma read_args_write:
  "\<forall>a \<in> set args. arg_ok lim a \<Longrightarrow>
     read_args lim (length args) acc (concat (map write_arg args) @ r) = (Inr (acc @ args), r)"
proof (induction args arbitrary: acc)
  case (Cons a args)
  have a: "int64 (int (length a))" "int (length a) \<le> maxBulkLen" "int (length a) + 2 \<le> lim_bytes lim"
    using Cons.prems maxBulkLen_int64 by (auto simp: arg_ok_def)
  let ?r = "concat (map write_arg args) @ r"
  have n: "nat (int (length a) + 2) = Suc (Suc (length a))" by linarith
  have full: "readFull (nat (int (length a) + 2)) (a @ CR # LF # ?r) = (Inr (a @ [CR, LF]), ?r)"
    using readFull_exact [of "Suc (Suc (length a))" "a @ [CR, LF]" ?r] by (simp add: n)
  show ?case using Cons a full by (simp add: write_arg_def [of a] readLine_number)
qed simp

lemma ReadCommand_write:
  assumes "\<forall>a \<in> set args. arg_ok lim a" and "int (length args) \<le> lim_args lim" and "lim_args lim < 2 ^ 63"
  shows "ReadCommand lim uni (WriteCommand args @ r) = (Inr args, r)"
proof -
  have "int64 (int (length args))" using assms(2,3) by (simp add: int64_def)
  then show ?thesis using assms(2) read_args_write [OF assms(1), of "[]" r]
    by (subst ReadCommand.simps) (simp add: WriteCommand_def WriteArrayHeader_def readLine_number)
qed

definition command_ok :: "limits \<Rightarrow> string list \<Rightarrow> bool" where
  "command_ok lim args \<longleftrightarrow> lim_args lim < 2 ^ 63 \<and> int (length args) \<le> lim_args lim \<and> (\<forall>a \<in> set args. arg_ok lim a)"

interpretation cmds: nonempty_framing WriteCommand "ReadCommand lim uni" id "command_ok lim" for lim uni
  by unfold_locales (simp add: command_ok_def ReadCommand_write, simp add: WriteCommand_def WriteArrayHeader_def)

lemma ReadCommand_panics:
  assumes "0 \<le> n" and "int64 n" and "lim_args lim < n"
  shows "ReadCommand lim uni (''*'' @ format_int n @ CRLF @ r) = (Inl Panic, r)"
  using assms by (subst ReadCommand.simps) (simp add: readLine_number)

subsection \<open>Replies are read back\<close>

lemma readFull_shorter: "readFull n inp = (x, r) \<Longrightarrow> length r \<le> length inp"
  by (auto simp: readFull_def split: if_splits)

lemma readLine_rest: "readLine inp = (x, r) \<Longrightarrow> length r \<le> length inp"
proof -
  have "readBytes inp = (None, r) \<Longrightarrow> r = []" for r
    by (induction inp arbitrary: r) (auto split: if_splits prod.splits option.splits)
  then show "readLine inp = (x, r) \<Longrightarrow> length r \<le> length inp"
    by (auto simp: readLine_def split: prod.splits option.splits dest: readBytes_shorter)
qed

lemma read_fuel:
  "length inp < f \<Longrightarrow> \<exists>x r. read_reply lim f inp = Some (x, r) \<and> length r \<le> length inp"
  "length inp < f \<Longrightarrow> \<exists>x r. read_array lim f n arr inp = Some (x, r) \<and> length r \<le> length inp"
proof (induction lim f inp and lim f n arr inp rule: read_reply_read_array.induct)
  case (2 lim f inp)
  obtain x r where rl: "readLine inp = (x, r)" by (cases "readLine inp")
  show ?case
  proof (cases x)
    case (Inl e)
    with rl readLine_rest [OF rl] show ?thesis by simp
  next
    case (Inr l)
    then have short: "length r < length inp" using readLine_shorter rl by blast
    show ?thesis
    proof (cases l)
      case Nil
      with rl Inr short show ?thesis by simp
    next
      case (Cons c rest)
      show ?thesis using rl Inr Cons short "2.IH" [of x r l c rest] "2.prems"
        by (auto split: option.splits prod.splits sum.splits dest!: readFull_shorter)
    qed
  qed
next
  case (4 lim f n arr inp)
  obtain x r where "read_reply lim f inp = Some (x, r)" "length r \<le> length inp" using "4.IH"(1) "4.prems" by blast
  with "4.IH"(2) [of "(x, r)" x r] "4.prems" show ?case by (cases x) (fastforce+)
qed auto

lemma ReadReply_fuel: "\<exists>x r. ReadReply lim inp = Some (x, r) \<and> length r \<le> length inp"
  using read_fuel(1) [of inp "Suc (length inp)" lim] by (simp add: ReadReply_def)

lemma ReadReply_simple: "line_ok (CHR ''+'' # s) \<Longrightarrow> ReadReply lim (WriteSimple s @ r) = Some (Inr (v_simple s), r)"
  using readLine_line [of "CHR ''+'' # s" r] by (simp add: ReadReply_def WriteSimple_def)

lemma ReadReply_error: "line_ok (CHR ''-'' # s) \<Longrightarrow> ReadReply lim (WriteError s @ r) = Some (Inr (v_error s), r)"
  using readLine_line [of "CHR ''-'' # s" r] by (simp add: ReadReply_def WriteError_def)

lemma ReadReply_int: "int64 n \<Longrightarrow> ReadReply lim (WriteInt n @ r) = Some (Inr (v_int n), r)"
  by (simp add: ReadReply_def WriteInt_def readLine_number)

lemma ReadReply_nil: "ReadReply lim (WriteNil @ r) = Some (Inr v_nil, r)"
proof -
  have "format_int (-1) = ''-1''" by (simp add: format_int_def format_nat.simps digit_char_def char_of_def bit_0)
  with parse_format_int [of "-1"] have "parse_int ''-1'' = Some (-1)" by (simp add: int64_def)
  moreover have "readLine (''$-1'' @ CRLF @ r) = (Inr ''$-1'', r)"
    using readLine_line [of "''$-1''" r] by (simp add: line_ok_def)
  ultimately show ?thesis by (simp add: ReadReply_def WriteNil_def)
qed

lemma ReadReply_bulk:
  assumes "int (length s) + 2 < 2 ^ 63" and "int (length s) + 2 \<le> lim_bytes lim"
  shows "ReadReply lim (WriteBulk (Some s) @ r) = Some (Inr (v_bulk s), r)"
proof -
  have "int64 (int (length s))" "wrap64 (int (length s) + 2) = int (length s) + 2"
    using assms(1) by (simp_all add: int64_def wrap64_def)
  moreover have n: "nat (int (length s) + 2) = Suc (Suc (length s))" by linarith
  moreover have "readFull (Suc (Suc (length s))) (s @ CR # LF # r) = (Inr (s @ [CR, LF]), r)"
    using readFull_exact [of "Suc (Suc (length s))" "s @ [CR, LF]" r] by simp
  ultimately show ?thesis using assms(2)
    by (simp add: ReadReply_def WriteBulk_def readLine_number)
qed

end
