(* ===== verification/Resp_Thms.thy ===== *)
theory Resp_Thms
  imports Resp
begin

section \<open>Properties of the wire protocol\<close>

text \<open>
  The two directions of internal/resp: what the client writes is what the server reads, and what the server writes is
  what the client reads.
\<close>

text \<open>C23: A pipeline of commands, each of arguments with any bytes in them that are not longer than the bound on a bulk
  string, is read back as those commands, and the bytes after it are left for the next reader.\<close>

theorem pipeline_roundtrip:
  assumes "list_all (command_ok lim) cmds"
  shows "read_n (ReadCommand lim uni) (length cmds) (concat (map WriteCommand cmds) @ r) = (map Inr cmds, r)"
  using cmds.read_all [OF assms, of uni r] by simp

definition ex_lim :: limits where
  "ex_lim = \<lparr>lim_args = 2 ^ 58, lim_values = 2 ^ 57, lim_bytes = 2 ^ 62\<rparr>"

theorem pipeline_roundtrip_witness:
  "read_n (ReadCommand ex_lim (\<lambda>s. [])) 2 (WriteCommand [''GET'', ''a b''] @ WriteCommand [''PING''] @ ''*'') =
     ([Inr [''GET'', ''a b''], Inr [''PING'']], ''*'')"
  using pipeline_roundtrip [of ex_lim "[[''GET'', ''a b''], [''PING'']]" "\<lambda>s. []" "''*''"]
  by (simp add: ex_lim_def command_ok_def arg_ok_def maxBulkLen_def numeral_2_eq_2)

text \<open>Every reply that the server writes is read back by the client: a status or an error whose text has no newline
  and does not end in a carriage return, any 64-bit integer, nil, and any bulk string.\<close>

theorem replies_roundtrip:
  assumes "line_ok (CHR ''+'' # s)" and "line_ok (CHR ''-'' # e)" and "int64 n"
    and "int (length v) + 2 < 2 ^ 63" and "int (length v) + 2 \<le> lim_bytes lim"
  shows "ReadReply lim (WriteSimple s @ r) = Some (Inr (v_simple s), r) \<and>
    ReadReply lim (WriteError e @ r) = Some (Inr (v_error e), r) \<and>
    ReadReply lim (WriteInt n @ r) = Some (Inr (v_int n), r) \<and>
    ReadReply lim (WriteNil @ r) = Some (Inr v_nil, r) \<and>
    ReadReply lim (WriteBulk (Some v) @ r) = Some (Inr (v_bulk v), r) \<and>
    ReadReply lim (WriteBulk None @ r) = Some (Inr v_nil, r)"
  using ReadReply_simple [OF assms(1)] ReadReply_error [OF assms(2)] ReadReply_int [OF assms(3)] ReadReply_nil
    ReadReply_bulk [OF assms(4,5)] by (simp add: WriteBulk_def)

theorem replies_roundtrip_witness:
  "ReadReply ex_lim (WriteSimple ''OK'' @ ''x'') = Some (Inr (v_simple ''OK''), ''x'') \<and>
   ReadReply ex_lim (WriteBulk (Some ''a b'') @ ''x'') = Some (Inr (v_bulk ''a b''), ''x'')"
  using replies_roundtrip [of "''OK''" "''ERR''" 3 "''a b''" ex_lim "''x''"]
  by (simp add: line_ok_def int64_def ex_lim_def)

text \<open>The reader of replies returns on every input, however deeply arrays are nested in it, and never reads past it.\<close>

theorem ReadReply_total: "\<exists>x r. ReadReply lim inp = Some (x, r) \<and> length r \<le> length inp"
  by (rule ReadReply_fuel)

text \<open>A request whose array header asks for more elements than a slice can hold makes the reader of commands panic
  before it has read any of them.\<close>

theorem huge_array_panics:
  assumes "0 \<le> n" and "int64 n" and "lim_args lim < n"
  shows "ReadCommand lim uni (''*'' @ format_int n @ CRLF @ r) = (Inl Panic, r)"
  by (rule ReadCommand_panics [OF assms])

theorem huge_array_panics_witness:
  "ReadCommand ex_lim (\<lambda>s. []) (''*'' @ format_int (2 ^ 59) @ CRLF) = (Inl Panic, [])"
  using huge_array_panics [of "2 ^ 59" ex_lim "\<lambda>s. []" "[]"] by (simp add: int64_def ex_lim_def)

end
