(* ===== verification/Locks.thy ===== *)
theory Locks
  imports Prelude "HOL-Library.AList"
begin

section \<open>Leases on named locks\<close>

text \<open>
  internal/locks/locks.go. A manager maps each key to a lease. Every method runs under the mutex;
  the clock is read before it is taken. The random token that \<open>newToken\<close> draws is an argument of
  \<open>Acquire\<close>. \<open>AcquireBlocking\<close> is the sequence of its attempts; between two of them other clients
  act on the manager.
\<close>

record lease =
  ls_token :: string
  ls_owner :: string
  ls_expireAt :: int

type_synonym locks = "(string \<times> lease) list"

definition locks_New :: locks where
  "locks_New = []"

definition Acquire :: "string \<Rightarrow> string \<Rightarrow> int \<Rightarrow> int \<Rightarrow> string \<Rightarrow> locks \<Rightarrow> locks \<times> string \<times> bool" where
  "Acquire key owner ttl now tok m =
     (let grant = (AList.update key \<lparr>ls_token = tok, ls_owner = owner, ls_expireAt = wrap64 (now + ttl)\<rparr> m, tok, True) in
      case map_of m key of
        None \<Rightarrow> grant
      | Some l \<Rightarrow> if now < ls_expireAt l \<and> ls_owner l \<noteq> owner then (m, '''', False) else grant)"

definition Release :: "string \<Rightarrow> string \<Rightarrow> locks \<Rightarrow> locks \<times> bool" where
  "Release key token m =
     (case map_of m key of
        None \<Rightarrow> (m, False)
      | Some l \<Rightarrow> if ls_token l \<noteq> token then (m, False) else (AList.delete key m, True))"

definition Renew :: "string \<Rightarrow> string \<Rightarrow> int \<Rightarrow> int \<Rightarrow> locks \<Rightarrow> locks \<times> bool" where
  "Renew key token ttl now m =
     (case map_of m key of
        None \<Rightarrow> (m, False)
      | Some l \<Rightarrow>
          if ls_token l \<noteq> token \<or> now \<ge> ls_expireAt l then (m, False)
          else (AList.update key (l\<lparr>ls_expireAt := wrap64 (now + ttl)\<rparr>) m, True))"

definition IsLocked :: "string \<Rightarrow> int \<Rightarrow> locks \<Rightarrow> bool" where
  "IsLocked key now m = (case map_of m key of None \<Rightarrow> False | Some l \<Rightarrow> now < ls_expireAt l)"

text \<open>An attempt: what the others did since the last one, the clock and the token of its \<open>Acquire\<close>,
  and whether the deadline has passed after it. \<^const>\<open>None\<close> is a caller that still waits.\<close>

record attempt =
  at_others :: "locks \<Rightarrow> locks"
  at_now :: int
  at_tok :: string
  at_late :: bool

fun AcquireBlocking :: "string \<Rightarrow> string \<Rightarrow> int \<Rightarrow> attempt list \<Rightarrow> locks \<Rightarrow> (locks \<times> string \<times> bool) option" where
  "AcquireBlocking key owner ttl [] m = None"
| "AcquireBlocking key owner ttl (a # as) m =
     (let (m1, tok, ok) = Acquire key owner ttl (at_now a) (at_tok a) (at_others a m) in
      if ok then Some (m1, tok, True)
      else if at_late a then Some (m1, '''', False)
      else AcquireBlocking key owner ttl as m1)"

text \<open>The operations of all clients, in the order in which they take the mutex.\<close>

datatype lock_op =
    LAcquire string string int int string
  | LRelease string string
  | LRenew string string int int

fun lock_step :: "lock_op \<Rightarrow> locks \<Rightarrow> locks \<times> bool" where
  "lock_step (LAcquire key owner ttl now tok) m = (let (m1, t, ok) = Acquire key owner ttl now tok m in (m1, ok))"
| "lock_step (LRelease key token) m = Release key token m"
| "lock_step (LRenew key token ttl now) m = Renew key token ttl now m"

fun lock_run :: "lock_op list \<Rightarrow> locks \<Rightarrow> locks" where
  "lock_run [] m = m"
| "lock_run (x # xs) m = lock_run xs (fst (lock_step x m))"

text \<open>The operations that may change the lease \<open>l\<close> of \<open>key\<close>: its owner's acquisition, or the use of its
  token. The acquisition by another changes it from its expiry on.\<close>

fun touches :: "string \<Rightarrow> lease \<Rightarrow> lock_op \<Rightarrow> bool" where
  "touches key l (LAcquire k owner ttl now tok) \<longleftrightarrow> k = key \<and> (owner = ls_owner l \<or> ls_expireAt l \<le> now)"
| "touches key l (LRelease k token) \<longleftrightarrow> k = key \<and> token = ls_token l"
| "touches key l (LRenew k token ttl now) \<longleftrightarrow> k = key \<and> token = ls_token l"

subsection \<open>Leases are exclusive\<close>

lemma lease_step:
  "map_of m key = Some l \<Longrightarrow> \<not> touches key l x \<Longrightarrow> map_of (fst (lock_step x m)) key = Some l"
  by (cases x) (auto simp: Acquire_def Release_def Renew_def Let_def split: option.splits if_splits)

lemma lease_run:
  "map_of m key = Some l \<Longrightarrow> \<forall>x \<in> set xs. \<not> touches key l x \<Longrightarrow> map_of (lock_run xs m) key = Some l"
  by (induction xs arbitrary: m) (simp_all add: lease_step)

lemma Acquire_lease:
  "Acquire key owner ttl now tok m = (m', t, True) \<Longrightarrow>
     t = tok \<and> map_of m' key = Some \<lparr>ls_token = tok, ls_owner = owner, ls_expireAt = wrap64 (now + ttl)\<rparr>"
  by (auto simp: Acquire_def Let_def split: option.splits if_splits)

lemma Acquire_refused:
  "map_of m key = Some l \<Longrightarrow> now < ls_expireAt l \<Longrightarrow> owner \<noteq> ls_owner l \<Longrightarrow>
     Acquire key owner ttl now tok m = (m, '''', False)"
  by (simp add: Acquire_def Let_def)

lemma Acquire_granted:
  "map_of m key = None \<or> (\<exists>l. map_of m key = Some l \<and> (ls_expireAt l \<le> now \<or> ls_owner l = owner)) \<Longrightarrow>
     \<exists>m'. Acquire key owner ttl now tok m = (m', tok, True)"
  by (auto simp: Acquire_def Let_def)

text \<open>A token that was replaced neither releases nor renews.\<close>

lemma stale_token:
  assumes "map_of m key = Some l" and "token \<noteq> ls_token l"
  shows "Release key token m = (m, False)" and "Renew key token ttl now m = (m, False)"
  using assms by (simp_all add: Release_def Renew_def)

lemma Release_held:
  "map_of m key = Some l \<Longrightarrow> Release key (ls_token l) m = (AList.delete key m, True)"
  by (simp add: Release_def)

lemma Renew_held:
  "map_of m key = Some l \<Longrightarrow> now < ls_expireAt l \<Longrightarrow>
     Renew key (ls_token l) ttl now m = (AList.update key (l\<lparr>ls_expireAt := wrap64 (now + ttl)\<rparr>) m, True)"
  by (simp add: Renew_def)

text \<open>A blocking caller that reports failure has not taken the lock, and one attempt after the
  lease's expiry is enough.\<close>

lemma AcquireBlocking_Some:
  "AcquireBlocking key owner ttl as m = Some (m', tok, ok) \<Longrightarrow>
     (ok \<longrightarrow> (\<exists>a \<in> set as. map_of m' key = Some \<lparr>ls_token = tok, ls_owner = owner, ls_expireAt = wrap64 (at_now a + ttl)\<rparr>)) \<and>
     (\<not> ok \<longrightarrow> tok = '''' \<and> (\<exists>l. map_of m' key = Some l \<and> ls_owner l \<noteq> owner))"
proof (induction "as" arbitrary: m)
  case (Cons a "as")
  obtain m1 t b where acq: "Acquire key owner ttl (at_now a) (at_tok a) (at_others a m) = (m1, t, b)"
    by (cases "Acquire key owner ttl (at_now a) (at_tok a) (at_others a m)") auto
  show ?case
  proof (cases b)
    case True
    with Cons.prems acq Acquire_lease [of key owner ttl "at_now a" "at_tok a" "at_others a m" m1 t] show ?thesis by auto
  next
    case False
    then have "\<exists>l. map_of m1 key = Some l \<and> ls_owner l \<noteq> owner"
      using acq by (auto simp: Acquire_def Let_def split: option.splits if_splits)
    with Cons False acq show ?thesis by (auto split: if_splits)
  qed
qed simp

lemma AcquireBlocking_returns: "\<exists>a \<in> set as. at_late a \<Longrightarrow> AcquireBlocking key owner ttl as m \<noteq> None"
proof (induction "as" arbitrary: m)
  case (Cons a "as")
  then show ?case by (cases "at_late a") (auto simp: Let_def simp del: not_None_eq split: prod.splits)
qed simp

end
