(* ===== verification/Locks_Thms.thy ===== *)
theory Locks_Thms
  imports Locks
begin

section \<open>Properties of the locks\<close>

text \<open>
  Exclusion, fencing and the blocking acquisition of internal/locks/locks.go, over every sequence of operations of all
  clients.
\<close>

text \<open>C28: Mutual exclusion. From a granted acquisition until the expiry of its lease, whatever the other clients do in
  between without its token, the key is locked and no other owner obtains it.\<close>

theorem lock_exclusive:
  assumes "Acquire key owner ttl now tok m = (m1, t, True)"
    and "\<forall>x \<in> set xs. \<not> touches key \<lparr>ls_token = tok, ls_owner = owner, ls_expireAt = wrap64 (now + ttl)\<rparr> x"
    and "owner' \<noteq> owner" and "now' < wrap64 (now + ttl)"
  shows "IsLocked key now' (lock_run xs m1) \<and> Acquire key owner' ttl' now' tok' (lock_run xs m1) = (lock_run xs m1, '''', False)"
proof -
  have l: "map_of (lock_run xs m1) key = Some \<lparr>ls_token = tok, ls_owner = owner, ls_expireAt = wrap64 (now + ttl)\<rparr>"
    using Acquire_lease [OF assms(1)] assms(2) by (intro lease_run) simp_all
  from Acquire_refused [OF this] l assms(3,4) show ?thesis by (simp add: IsLocked_def)
qed

theorem lock_exclusive_witness:
  "IsLocked ''k'' 5 (lock_run [LRelease ''k'' ''zz''] [(''k'', \<lparr>ls_token = ''t'', ls_owner = ''a'', ls_expireAt = 10\<rparr>)])"
proof -
  have "Acquire ''k'' ''a'' 10 0 ''t'' [] = ([(''k'', \<lparr>ls_token = ''t'', ls_owner = ''a'', ls_expireAt = 10\<rparr>)], ''t'', True)"
    by (simp add: Acquire_def wrap64_def)
  from lock_exclusive [OF this, of "[LRelease ''k'' ''zz'']" "''b''" 5 1 "''u''"] show ?thesis by (simp add: wrap64_def)
qed

text \<open>Fencing. Once the lock has been granted under a new token, an older token neither releases nor renews it,
  whatever happens in between without the new one.\<close>

theorem stale_token_refused:
  assumes "Acquire key owner ttl now tok m = (m1, t, True)" and "token \<noteq> tok"
    and "\<forall>x \<in> set xs. \<not> touches key \<lparr>ls_token = tok, ls_owner = owner, ls_expireAt = wrap64 (now + ttl)\<rparr> x"
  shows "Release key token (lock_run xs m1) = (lock_run xs m1, False) \<and>
    Renew key token ttl' now' (lock_run xs m1) = (lock_run xs m1, False)"
proof -
  have "map_of (lock_run xs m1) key = Some \<lparr>ls_token = tok, ls_owner = owner, ls_expireAt = wrap64 (now + ttl)\<rparr>"
    using Acquire_lease [OF assms(1)] assms(3) by (intro lease_run) simp_all
  from stale_token [OF this] assms(2) show ?thesis by simp
qed

theorem stale_token_refused_witness:
  "snd (Release ''k'' ''old'' (fst (Acquire ''k'' ''b'' 10 20 ''new''
     [(''k'', \<lparr>ls_token = ''old'', ls_owner = ''a'', ls_expireAt = 10\<rparr>)]))) = False"
proof -
  let ?m = "[(''k'', \<lparr>ls_token = ''old'', ls_owner = ''a'', ls_expireAt = 10\<rparr>)]"
  have "Acquire ''k'' ''b'' 10 20 ''new'' ?m = (fst (Acquire ''k'' ''b'' 10 20 ''new'' ?m), ''new'', True)"
    by (simp add: Acquire_def)
  from stale_token_refused [OF this, of "''old''" "[]"] show ?thesis by simp
qed

text \<open>A blocking acquisition returns once its deadline has passed. If it reports success the caller holds the lease
  under the returned token; if it reports failure another owner holds it and the token is empty.\<close>

theorem blocking_acquire:
  assumes "\<exists>a \<in> set as. at_late a"
  shows "\<exists>m' tok ok. AcquireBlocking key owner ttl as m = Some (m', tok, ok) \<and>
    (if ok then \<exists>l. map_of m' key = Some l \<and> ls_owner l = owner \<and> ls_token l = tok
     else tok = '''' \<and> (\<exists>l. map_of m' key = Some l \<and> ls_owner l \<noteq> owner))"
proof -
  obtain x where "AcquireBlocking key owner ttl as m = Some x"
    using AcquireBlocking_returns [OF assms, of key owner ttl m] unfolding not_None_eq by (rule exE)
  moreover obtain m' tok ok where "x = (m', tok, ok)" by (rule prod_cases3)
  ultimately have r: "AcquireBlocking key owner ttl as m = Some (m', tok, ok)" by (simp only:)
  show ?thesis using AcquireBlocking_Some [OF r] r by (cases ok) force+
qed

theorem blocking_acquire_witness:
  "\<exists>m' tok ok. AcquireBlocking ''k'' ''a'' 5 [\<lparr>at_others = id, at_now = 0, at_tok = ''t'', at_late = True\<rparr>] [] = Some (m', tok, ok)"
  using blocking_acquire [of "[\<lparr>at_others = id, at_now = 0, at_tok = ''t'', at_late = True\<rparr>]" "''k''" "''a''" 5 "[]"]
  by auto

end
