(* ===== verification/Txn.thy ===== *)
theory Txn
  imports Shard
begin

section \<open>Optimistic transactions\<close>

text \<open>
  internal/txn/txn.go. The coordinator counts, per watched key, the events it has been handed
  since somebody began to watch it. A transaction remembers the counts and gives up at \<open>EXEC\<close> when one has
  changed. A queued command is a function on the cache, of any type \<open>'c\<close>, with a result of type \<open>'r\<close>.
  Looking up an absent key of a Go map gives zero. The increments of a range loop over a map
  commute, so the model makes them in the order of the list.
\<close>

datatype txn_error = ErrAborted | ErrNoMulti | ErrWatchInMulti | ErrNestedMulti

record coordinator =
  co_versions :: "(string \<times> u64) list"
  co_watchers :: "(string \<times> int) list"

record ('c, 'r) tx =
  tx_watched :: "(string \<times> u64) list"
  tx_queued :: "('c \<Rightarrow> 'c \<times> 'r) list"
  tx_inMulti :: bool

definition NewCoordinator :: coordinator where
  "NewCoordinator = \<lparr>co_versions = [], co_watchers = []\<rparr>"

definition lookup0 :: "('k \<times> 'v::zero) list \<Rightarrow> 'k \<Rightarrow> 'v" where
  "lookup0 m k = (case map_of m k of None \<Rightarrow> 0 | Some v \<Rightarrow> v)"

definition bump :: "string \<Rightarrow> coordinator \<Rightarrow> coordinator" where
  "bump k co = co\<lparr>co_versions := AList.update k (lookup0 (co_versions co) k + 1) (co_versions co)\<rparr>"

definition onEvent :: "event \<Rightarrow> coordinator \<Rightarrow> coordinator" where
  "onEvent ev co =
     (if ev_Op ev = OpFlush then fold bump (map fst (co_watchers co)) co
      else if ev_Key ev \<noteq> '''' \<and> lookup0 (co_watchers co) (ev_Key ev) > 0 then bump (ev_Key ev) co
      else co)"

definition Begin :: "('c, 'r) tx" where
  "Begin = \<lparr>tx_watched = [], tx_queued = [], tx_inMulti = False\<rparr>"

fun watch_keys :: "string list \<Rightarrow> coordinator \<times> ('c, 'r) tx \<Rightarrow> coordinator \<times> ('c, 'r) tx" where
  "watch_keys [] (co, tx) = (co, tx)"
| "watch_keys (k # ks) (co, tx) =
     (if k \<in> mkeys (tx_watched tx) then watch_keys ks (co, tx)
      else
        (let co1 = co\<lparr>co_watchers := AList.update k (lookup0 (co_watchers co) k + 1) (co_watchers co)\<rparr>;
             tx1 = tx\<lparr>tx_watched := AList.update k (lookup0 (co_versions co1) k) (tx_watched tx)\<rparr>
         in watch_keys ks (co1, tx1)))"

text \<open>\<open>Watch\<close> after its \<open>Sync\<close>: the coordinator is the one that has seen all events sent before.\<close>

definition Watch :: "string list \<Rightarrow> coordinator \<Rightarrow> ('c, 'r) tx \<Rightarrow> txn_error + coordinator \<times> ('c, 'r) tx" where
  "Watch keys co tx = (if tx_inMulti tx then Inl ErrWatchInMulti else Inr (watch_keys keys (co, tx)))"

definition Multi :: "('c, 'r) tx \<Rightarrow> txn_error + ('c, 'r) tx" where
  "Multi tx = (if tx_inMulti tx then Inl ErrNestedMulti else Inr (tx\<lparr>tx_inMulti := True\<rparr>))"

definition Queue :: "('c \<Rightarrow> 'c \<times> 'r) \<Rightarrow> ('c, 'r) tx \<Rightarrow> txn_error + ('c, 'r) tx" where
  "Queue cmd tx = (if \<not> tx_inMulti tx then Inl ErrNoMulti else Inr (tx\<lparr>tx_queued := tx_queued tx @ [cmd]\<rparr>))"

definition unwatch_key :: "string \<Rightarrow> coordinator \<Rightarrow> coordinator" where
  "unwatch_key k co =
     (if lookup0 (co_watchers co) k > 0 then
        (let n = lookup0 (co_watchers co) k - 1;
             co1 = co\<lparr>co_watchers := AList.update k n (co_watchers co)\<rparr>
         in if n = 0
            then co1\<lparr>co_watchers := AList.delete k (co_watchers co1), co_versions := AList.delete k (co_versions co1)\<rparr>
            else co1)
      else co)"

definition release :: "coordinator \<Rightarrow> ('c, 'r) tx \<Rightarrow> coordinator \<times> ('c, 'r) tx" where
  "release co tx =
     (if tx_watched tx = [] then (co, tx)
      else (fold unwatch_key (map fst (tx_watched tx)) co, tx\<lparr>tx_watched := []\<rparr>))"

definition tx_changed :: "coordinator \<Rightarrow> ('c, 'r) tx \<Rightarrow> bool" where
  "tx_changed co tx = list_ex (\<lambda>(k, snap). lookup0 (co_versions co) k \<noteq> snap) (tx_watched tx)"

fun run_queued :: "('c \<Rightarrow> 'c \<times> 'r) list \<Rightarrow> 'c \<Rightarrow> 'c \<times> 'r list" where
  "run_queued [] c = (c, [])"
| "run_queued (cmd # cmds) c = (let (c1, r) = cmd c; (c2, rs) = run_queued cmds c1 in (c2, r # rs))"

definition Exec ::
  "coordinator \<Rightarrow> ('c, 'r) tx \<Rightarrow> 'c \<Rightarrow> coordinator \<times> ('c, 'r) tx \<times> 'c \<times> (txn_error + 'r list)" where
  "Exec co tx c =
     (if \<not> tx_inMulti tx then (co, tx, c, Inl ErrNoMulti)
      else if tx_changed co tx then (let (co1, tx1) = release co tx in (co1, tx1, c, Inl ErrAborted))
      else
        (let (c1, results) = run_queued (tx_queued tx) c;
             (co1, tx1) = release co (tx\<lparr>tx_inMulti := False, tx_queued := []\<rparr>)
         in (co1, tx1, c1, Inr results)))"

definition Discard :: "coordinator \<Rightarrow> ('c, 'r) tx \<Rightarrow> coordinator \<times> ('c, 'r) tx" where
  "Discard co tx = (let (co1, tx1) = release co tx in (co1, tx1\<lparr>tx_inMulti := False, tx_queued := []\<rparr>))"

subsection \<open>All transactions of a coordinator\<close>

text \<open>\<open>sy_hits\<close> records, per transaction and key, how many events on the key it was handed since the
  transaction began to watch it.\<close>

record ('c, 'r) txsys =
  sy_co :: coordinator
  sy_txs :: "('c, 'r) tx list"
  sy_cache :: 'c
  sy_hits :: "nat \<Rightarrow> string \<Rightarrow> nat"

definition hits_key :: "event \<Rightarrow> string \<Rightarrow> bool" where
  "hits_key ev k \<longleftrightarrow> ev_Op ev = OpFlush \<or> (ev_Key ev = k \<and> k \<noteq> '''')"

inductive tx_step :: "('c, 'r) txsys \<Rightarrow> ('c, 'r) txsys \<Rightarrow> bool" where
  deliver: "tx_step s (s\<lparr>sy_co := onEvent ev (sy_co s),
      sy_hits := (\<lambda>i k. sy_hits s i k + (if hits_key ev k then 1 else 0))\<rparr>)"
| other: "tx_step s (s\<lparr>sy_cache := c\<rparr>)"
| tbegin: "tx_step s (s\<lparr>sy_txs := sy_txs s @ [Begin]\<rparr>)"
| twatch: "i < length (sy_txs s) \<Longrightarrow> Watch keys (sy_co s) (sy_txs s ! i) = Inr (co, tx) \<Longrightarrow>
    tx_step s (s\<lparr>sy_co := co, sy_txs := (sy_txs s)[i := tx],
      sy_hits := (sy_hits s)(i := (\<lambda>k. if k \<in> mkeys (tx_watched (sy_txs s ! i)) then sy_hits s i k else 0))\<rparr>)"
| tmulti: "i < length (sy_txs s) \<Longrightarrow> Multi (sy_txs s ! i) = Inr tx \<Longrightarrow> tx_step s (s\<lparr>sy_txs := (sy_txs s)[i := tx]\<rparr>)"
| tqueue: "i < length (sy_txs s) \<Longrightarrow> Queue cmd (sy_txs s ! i) = Inr tx \<Longrightarrow> tx_step s (s\<lparr>sy_txs := (sy_txs s)[i := tx]\<rparr>)"
| texec: "i < length (sy_txs s) \<Longrightarrow> Exec (sy_co s) (sy_txs s ! i) (sy_cache s) = (co, tx, c, res) \<Longrightarrow>
    tx_step s (s\<lparr>sy_co := co, sy_txs := (sy_txs s)[i := tx], sy_cache := c\<rparr>)"
| tdiscard: "i < length (sy_txs s) \<Longrightarrow> Discard (sy_co s) (sy_txs s ! i) = (co, tx) \<Longrightarrow>
    tx_step s (s\<lparr>sy_co := co, sy_txs := (sy_txs s)[i := tx]\<rparr>)"

definition tx_init :: "'c \<Rightarrow> ('c, 'r) txsys" where
  "tx_init c = \<lparr>sy_co = NewCoordinator, sy_txs = [], sy_cache = c, sy_hits = (\<lambda>i k. 0)\<rparr>"

inductive tx_reach :: "('c, 'r) txsys \<Rightarrow> bool" where
  tx_reach_init: "tx_reach (tx_init c)"
| tx_reach_step: "tx_reach s \<Longrightarrow> tx_step s t \<Longrightarrow> tx_reach t"

definition watch_count :: "string \<Rightarrow> ('c, 'r) tx list \<Rightarrow> nat" where
  "watch_count k txs = sum_list (map (\<lambda>tx. if k \<in> mkeys (tx_watched tx) then 1 else 0) txs)"

text \<open>The counters of watchers are right, and a version is the remembered one plus the events since.\<close>

definition co_inv :: "coordinator \<Rightarrow> (string \<Rightarrow> nat) \<Rightarrow> bool" where
  "co_inv co n \<longleftrightarrow> wf_map (co_watchers co) \<and> wf_map (co_versions co) \<and>
     (\<forall>k. map_of (co_watchers co) k = (if n k = 0 then None else Some (int (n k))))"

definition snap_ok :: "coordinator \<Rightarrow> (string \<Rightarrow> nat) \<Rightarrow> ('c, 'r) tx \<Rightarrow> bool" where
  "snap_ok co hits tx \<longleftrightarrow> wf_map (tx_watched tx) \<and>
     (\<forall>k snap. map_of (tx_watched tx) k = Some snap \<longrightarrow> lookup0 (co_versions co) k = snap + of_nat (hits k))"

definition tx_inv :: "('c, 'r) txsys \<Rightarrow> bool" where
  "tx_inv s \<longleftrightarrow> co_inv (sy_co s) (\<lambda>k. watch_count k (sy_txs s)) \<and>
     (\<forall>i < length (sy_txs s). snap_ok (sy_co s) (sy_hits s i) (sy_txs s ! i))"

subsection \<open>The operations on the coordinator\<close>

lemma lookup0_update [simp]: "lookup0 (AList.update k v m) k' = (if k' = k then v else lookup0 m k')"
  by (simp add: lookup0_def)

lemma lookup0_delete [simp]: "lookup0 (AList.delete k m) k' = (if k' = k then 0 else lookup0 m k')"
  by (simp add: lookup0_def)

lemma co_inv_watchers: "co_inv co n \<Longrightarrow> lookup0 (co_watchers co) k = int (n k)"
  by (simp add: co_inv_def lookup0_def)

lemma co_inv_mkeys: "co_inv co n \<Longrightarrow> k \<in> mkeys (co_watchers co) \<longleftrightarrow> 0 < n k"
  by (simp add: co_inv_def mkeys_iff del: map_of_eq_Some_iff)

lemma fold_bump:
  "distinct ks \<Longrightarrow> co_watchers (fold bump ks co) = co_watchers co \<and>
     (wf_map (co_versions co) \<longrightarrow> wf_map (co_versions (fold bump ks co))) \<and>
     lookup0 (co_versions (fold bump ks co)) k = lookup0 (co_versions co) k + (if k \<in> set ks then 1 else 0)"
  by (induction ks arbitrary: co) (auto simp: bump_def)

lemma onEvent_co:
  assumes "co_inv co n"
  shows "co_inv (onEvent ev co) n"
    and "0 < n k \<Longrightarrow> lookup0 (co_versions (onEvent ev co)) k = lookup0 (co_versions co) k + (if hits_key ev k then 1 else 0)"
proof -
  have d: "distinct (map fst (co_watchers co))" using assms by (simp add: co_inv_def)
  have b: "co_watchers (bump k' co) = co_watchers co" "wf_map (co_versions co) \<Longrightarrow> wf_map (co_versions (bump k' co))" for k'
    by (simp_all add: bump_def)
  show "co_inv (onEvent ev co) n"
    using assms fold_bump [OF d, of co] b by (auto simp: co_inv_def onEvent_def)
  assume n: "0 < n k"
  then have "k \<in> mkeys (co_watchers co)" using co_inv_mkeys [OF assms] by simp
  then show "lookup0 (co_versions (onEvent ev co)) k = lookup0 (co_versions co) k + (if hits_key ev k then 1 else 0)"
    using n fold_bump [OF d, of co k] co_inv_watchers [OF assms]
    by (auto simp: onEvent_def hits_key_def bump_def)
qed

lemma watch_one:
  assumes "co_inv co n"
  shows "co_inv (co\<lparr>co_watchers := AList.update k (lookup0 (co_watchers co) k + 1) (co_watchers co)\<rparr>) (n(k := Suc (n k)))"
  using assms co_inv_watchers [OF assms, of k] by (auto simp: co_inv_def)

lemma watch_keys_co:
  "watch_keys ks (co, tx) = (co', tx') \<Longrightarrow> co_inv co n \<Longrightarrow> wf_map (tx_watched tx) \<Longrightarrow>
     co_inv co' (\<lambda>k. n k + (if k \<in> mkeys (tx_watched tx') \<and> k \<notin> mkeys (tx_watched tx) then 1 else 0)) \<and>
     co_versions co' = co_versions co \<and> wf_map (tx_watched tx') \<and>
     mkeys (tx_watched tx) \<subseteq> mkeys (tx_watched tx') \<and> set ks \<subseteq> mkeys (tx_watched tx') \<and>
     (\<forall>k snap. map_of (tx_watched tx') k = Some snap \<longrightarrow>
        (if k \<in> mkeys (tx_watched tx) then map_of (tx_watched tx) k = Some snap else snap = lookup0 (co_versions co) k))"
proof (induction ks arbitrary: co tx n)
  case Nil
  then show ?case using mkeys_Some [of "tx_watched tx"] by (auto simp del: map_of_eq_Some_iff)
next
  case (Cons k ks)
  show ?case
  proof (cases "k \<in> mkeys (tx_watched tx)")
    case True
    then have "watch_keys ks (co, tx) = (co', tx')" using Cons.prems(1) by simp
    from Cons.IH [OF this Cons.prems(2,3)] True show ?thesis by (simp add: subset_iff)
  next
    case False
    let ?co = "co\<lparr>co_watchers := AList.update k (lookup0 (co_watchers co) k + 1) (co_watchers co)\<rparr>"
    let ?tx = "tx\<lparr>tx_watched := AList.update k (lookup0 (co_versions co) k) (tx_watched tx)\<rparr>"
    have w: "watch_keys ks (?co, ?tx) = (co', tx')" using Cons.prems(1) False by (simp add: Let_def)
    have wf: "wf_map (tx_watched ?tx)" using Cons.prems(3) by simp
    note IH = Cons.IH [OF w watch_one [OF Cons.prems(2)] wf]
    from IH have ih: "co_inv co' (\<lambda>k'. (n(k := Suc (n k))) k' +
          (if k' \<in> mkeys (tx_watched tx') \<and> k' \<notin> mkeys (tx_watched ?tx) then 1 else 0))"
        "co_versions co' = co_versions ?co" "wf_map (tx_watched tx')"
        "mkeys (tx_watched ?tx) \<subseteq> mkeys (tx_watched tx')" "set ks \<subseteq> mkeys (tx_watched tx')"
      by blast+
    from IH have snap: "if k' \<in> mkeys (tx_watched ?tx) then map_of (tx_watched ?tx) k' = Some snap
        else snap = lookup0 (co_versions ?co) k'" if "map_of (tx_watched tx') k' = Some snap" for k' snap
      using that by blast
    have k: "k \<in> mkeys (tx_watched tx')" using ih(4) by (simp add: subset_iff)
    have "(\<lambda>k'. (n(k := Suc (n k))) k' + (if k' \<in> mkeys (tx_watched tx') \<and> k' \<notin> mkeys (tx_watched ?tx) then 1 else 0)) =
        (\<lambda>k'. n k' + (if k' \<in> mkeys (tx_watched tx') \<and> k' \<notin> mkeys (tx_watched tx) then 1 else 0))"
      using False k by (simp add: fun_eq_iff)
    moreover have "if k' \<in> mkeys (tx_watched tx) then map_of (tx_watched tx) k' = Some snap else snap = lookup0 (co_versions co) k'"
      if "map_of (tx_watched tx') k' = Some snap" for k' snap
      using snap [OF that] False by (cases "k' = k") (simp_all split: if_splits)
    moreover have "mkeys (tx_watched tx) \<subseteq> mkeys (tx_watched tx')" using ih(4) by simp
    ultimately show ?thesis using ih(1,2,3,5) k by simp
  qed
qed

lemma unwatch_key_co:
  assumes "co_inv co n" and "0 < n k"
  shows "co_inv (unwatch_key k co) (n(k := n k - 1))"
    and "0 < (n(k := n k - 1)) k' \<Longrightarrow> lookup0 (co_versions (unwatch_key k co)) k' = lookup0 (co_versions co) k'"
  using assms co_inv_watchers [OF assms(1), of k]
  by (auto simp: unwatch_key_def co_inv_def Let_def of_nat_diff split: if_splits)

lemma unwatch_keys_co:
  "distinct ks \<Longrightarrow> co_inv co n \<Longrightarrow> \<forall>k \<in> set ks. 0 < n k \<Longrightarrow>
     co_inv (fold unwatch_key ks co) (\<lambda>k. n k - (if k \<in> set ks then 1 else 0)) \<and>
     (\<forall>k. 0 < n k - (if k \<in> set ks then 1 else 0) \<longrightarrow>
        lookup0 (co_versions (fold unwatch_key ks co)) k = lookup0 (co_versions co) k)"
proof (induction ks arbitrary: co n)
  case (Cons k ks)
  let ?n = "n(k := n k - 1)"
  have k: "0 < n k" "k \<notin> set ks" "distinct ks" "\<forall>k \<in> set ks. 0 < ?n k" using Cons.prems by auto
  note one = unwatch_key_co [OF Cons.prems(2) k(1)]
  have eq: "?n k' - (if k' \<in> set ks then 1 else 0) = n k' - (if k' \<in> set (k # ks) then 1 else 0)" for k'
    using k(2) by simp
  note IH = Cons.IH [OF k(3) one(1) k(4)]
  have pos: "0 < ?n k'" if "0 < n k' - (if k' \<in> set (k # ks) then 1 else 0)" for k'
    using that by (auto split: if_splits)
  show ?case using IH one(2) pos unfolding eq by simp
qed simp

lemma release_co:
  assumes "release co tx = (co', tx')" and "co_inv co n" and "wf_map (tx_watched tx)"
    and "\<forall>k \<in> mkeys (tx_watched tx). 0 < n k"
  shows "co_inv co' (\<lambda>k. n k - (if k \<in> mkeys (tx_watched tx) then 1 else 0))"
    and "0 < n k - (if k \<in> mkeys (tx_watched tx) then 1 else 0) \<Longrightarrow> lookup0 (co_versions co') k = lookup0 (co_versions co) k"
    and "tx' = tx\<lparr>tx_watched := []\<rparr>"
proof -
  let ?ks = "map fst (tx_watched tx)"
  have eq: "co' = fold unwatch_key ?ks co" using assms(1) by (auto simp: release_def split: if_splits)
  have set: "set ?ks = mkeys (tx_watched tx)" by simp
  have "\<forall>k \<in> set ?ks. 0 < n k" using assms(4) set by simp
  note u = unwatch_keys_co [OF assms(3) assms(2) this, unfolded set, folded eq]
  show "co_inv co' (\<lambda>k. n k - (if k \<in> mkeys (tx_watched tx) then 1 else 0))" using u by blast
  show "0 < n k - (if k \<in> mkeys (tx_watched tx) then 1 else 0) \<Longrightarrow> lookup0 (co_versions co') k = lookup0 (co_versions co) k"
    using u by blast
  show "tx' = tx\<lparr>tx_watched := []\<rparr>" using assms(1) by (auto simp: release_def split: if_splits)
qed

subsection \<open>The invariant\<close>

lemma watch_count_update:
  "i < length txs \<Longrightarrow> watch_count k (txs[i := tx]) =
     watch_count k txs + (if k \<in> mkeys (tx_watched tx) then 1 else 0) - (if k \<in> mkeys (tx_watched (txs ! i)) then 1 else 0)"
  by (simp add: watch_count_def map_update sum_list_update)

lemma watch_count_pos: "i < length txs \<Longrightarrow> k \<in> mkeys (tx_watched (txs ! i)) \<Longrightarrow> 0 < watch_count k txs"
  using elem_le_sum_list [of i "map (\<lambda>tx. if k \<in> mkeys (tx_watched tx) then 1 else (0::nat)) txs"]
  by (simp add: watch_count_def)

lemma watch_count_two:
  assumes "i < length txs" "j < length txs" "i \<noteq> j" "k \<in> mkeys (tx_watched (txs ! i))" "k \<in> mkeys (tx_watched (txs ! j))"
  shows "1 < watch_count k txs"
proof -
  have "0 < watch_count k (txs[i := Begin])"
    using assms by (intro watch_count_pos [of j]) simp_all
  then show ?thesis using watch_count_update [OF assms(1), of k Begin] assms(4) by (simp add: Begin_def)
qed

lemma snap_ok_cong:
  assumes "snap_ok co hits tx" and "\<And>k. k \<in> mkeys (tx_watched tx) \<Longrightarrow>
      lookup0 (co_versions co') k = lookup0 (co_versions co) k + of_nat (hits' k) - of_nat (hits k)"
  shows "snap_ok co' hits' tx"
proof -
  have "lookup0 (co_versions co') k = snap + of_nat (hits' k)" if "map_of (tx_watched tx) k = Some snap" for k snap
  proof -
    have "lookup0 (co_versions co) k = snap + of_nat (hits k)" using assms(1) that by (simp only: snap_ok_def)
    then show ?thesis using assms(2) [OF mkeys_Some [OF that]] by simp
  qed
  then show ?thesis using assms(1) by (simp only: snap_ok_def) blast
qed

lemma snap_ok_Nil: "tx_watched tx = [] \<Longrightarrow> snap_ok co hits tx"
  by (simp add: snap_ok_def)

lemma tx_inv_update:
  assumes inv: "tx_inv s" and i: "i < length (sy_txs s)" and new: "tx_watched new = tx_watched (sy_txs s ! i)"
  shows "tx_inv (s\<lparr>sy_txs := (sy_txs s)[i := new]\<rparr>)"
proof -
  have "watch_count k ((sy_txs s)[i := new]) = watch_count k (sy_txs s)" for k
    using watch_count_update [OF i, of k new] new watch_count_pos [OF i, of k] by simp
  moreover have "snap_ok (sy_co s) (sy_hits s j) ((sy_txs s)[i := new] ! j)" if "j < length (sy_txs s)" for j
    using that inv new by (cases "j = i") (simp_all add: tx_inv_def snap_ok_def)
  ultimately show ?thesis using inv by (simp add: tx_inv_def)
qed

lemma tx_inv_release:
  assumes inv: "tx_inv s" and i: "i < length (sy_txs s)" and rel: "release (sy_co s) tx = (co, tx')"
    and tx: "tx_watched tx = tx_watched (sy_txs s ! i)" and new: "tx_watched new = []"
  shows "tx_inv (s\<lparr>sy_co := co, sy_txs := (sy_txs s)[i := new]\<rparr>)"
proof -
  let ?W = "tx_watched (sy_txs s ! i)" and ?n = "\<lambda>k. watch_count k (sy_txs s)"
  have co: "co_inv (sy_co s) ?n" using inv by (simp add: tx_inv_def)
  have wf: "wf_map (tx_watched tx)" using inv i tx by (simp add: tx_inv_def snap_ok_def)
  have pos: "\<forall>k \<in> mkeys (tx_watched tx). 0 < ?n k" using watch_count_pos [OF i] tx by auto
  note r = release_co [OF rel co wf pos, unfolded tx]
  have cnt: "watch_count k ((sy_txs s)[i := new]) = ?n k - (if k \<in> mkeys ?W then 1 else 0)" for k
    using watch_count_update [OF i, of k new] new by simp
  have same: "lookup0 (co_versions co) k = lookup0 (co_versions (sy_co s)) k"
    if "j < length (sy_txs s)" "j \<noteq> i" "k \<in> mkeys (tx_watched (sy_txs s ! j))" for j k
    using that watch_count_two [OF i that(1)] watch_count_pos [OF that(1,3)] by (intro r(2)) auto
  have "snap_ok co (sy_hits s j) ((sy_txs s)[i := new] ! j)" if j: "j < length (sy_txs s)" for j
  proof (cases "j = i")
    case True
    with j new show ?thesis by (simp add: snap_ok_Nil)
  next
    case False
    have "snap_ok (sy_co s) (sy_hits s j) (sy_txs s ! j)" using inv j by (simp add: tx_inv_def)
    from snap_ok_cong [OF this, of co "sy_hits s j"] same [OF j False] have "snap_ok co (sy_hits s j) (sy_txs s ! j)"
      by simp
    with False show ?thesis by simp
  qed
  with r(1) show ?thesis by (simp add: tx_inv_def cnt)
qed

lemma tx_inv_deliver:
  assumes inv: "tx_inv s"
  shows "tx_inv (s\<lparr>sy_co := onEvent ev (sy_co s),
      sy_hits := (\<lambda>i k. sy_hits s i k + (if hits_key ev k then 1 else 0))\<rparr>)"
proof -
  have co: "co_inv (sy_co s) (\<lambda>k. watch_count k (sy_txs s))" using inv by (simp add: tx_inv_def)
  have "snap_ok (onEvent ev (sy_co s)) (\<lambda>k. sy_hits s i k + (if hits_key ev k then 1 else 0)) (sy_txs s ! i)"
    if i: "i < length (sy_txs s)" for i
  proof (rule snap_ok_cong)
    show "snap_ok (sy_co s) (sy_hits s i) (sy_txs s ! i)" using inv i by (simp add: tx_inv_def)
    fix k assume "k \<in> mkeys (tx_watched (sy_txs s ! i))"
    from onEvent_co(2) [OF co watch_count_pos [OF i this], of ev]
    show "lookup0 (co_versions (onEvent ev (sy_co s))) k = lookup0 (co_versions (sy_co s)) k +
        of_nat (sy_hits s i k + (if hits_key ev k then 1 else 0)) - of_nat (sy_hits s i k)" by simp
  qed
  with onEvent_co(1) [OF co] show ?thesis by (simp add: tx_inv_def)
qed

lemma tx_inv_watch:
  assumes inv: "tx_inv s" and i: "i < length (sy_txs s)" and w: "watch_keys keys (sy_co s, sy_txs s ! i) = (co, tx)"
  shows "tx_inv (s\<lparr>sy_co := co, sy_txs := (sy_txs s)[i := tx],
    sy_hits := (sy_hits s)(i := (\<lambda>k. if k \<in> mkeys (tx_watched (sy_txs s ! i)) then sy_hits s i k else 0))\<rparr>)"
proof -
  let ?W = "tx_watched (sy_txs s ! i)"
  have co: "co_inv (sy_co s) (\<lambda>k. watch_count k (sy_txs s))" using inv by (simp add: tx_inv_def)
  have old: "snap_ok (sy_co s) (sy_hits s j) (sy_txs s ! j)" if "j < length (sy_txs s)" for j
    using inv that by (simp add: tx_inv_def)
  have wf: "wf_map ?W" using old [OF i] by (simp add: snap_ok_def)
  note wk = watch_keys_co [OF w co wf]
  then have v: "co_versions co = co_versions (sy_co s)" by blast
  have "watch_count k ((sy_txs s)[i := tx]) =
      watch_count k (sy_txs s) + (if k \<in> mkeys (tx_watched tx) \<and> k \<notin> mkeys ?W then 1 else 0)" for k
    using watch_count_update [OF i, of k tx] watch_count_pos [OF i, of k] wk by (auto simp: subset_iff)
  then have cinv: "co_inv co (\<lambda>k. watch_count k ((sy_txs s)[i := tx]))" using wk by simp
  have me: "snap_ok co (\<lambda>k. if k \<in> mkeys ?W then sy_hits s i k else 0) tx"
    unfolding snap_ok_def
  proof (intro conjI allI impI)
    show "wf_map (tx_watched tx)" using wk by blast
    fix k snap assume k: "map_of (tx_watched tx) k = Some snap"
    with wk have "if k \<in> mkeys ?W then map_of ?W k = Some snap else snap = lookup0 (co_versions (sy_co s)) k" by blast
    then show "lookup0 (co_versions co) k = snap + of_nat (if k \<in> mkeys ?W then sy_hits s i k else 0)"
      using old [OF i] v by (simp add: snap_ok_def split: if_splits)
  qed
  have "snap_ok co (sy_hits s j) (sy_txs s ! j)" if "j < length (sy_txs s)" for j
    using old [OF that] v by (simp add: snap_ok_def)
  with me cinv show ?thesis by (simp add: tx_inv_def nth_list_update)
qed

lemma release_watched: "release co tx = (co', tx') \<Longrightarrow> tx_watched tx' = []"
  by (auto simp: release_def split: if_splits)

lemma tx_inv_step: "tx_step s t \<Longrightarrow> tx_inv s \<Longrightarrow> tx_inv t"
proof (induction rule: tx_step.induct)
  case (deliver s ev)
  then show ?case by (rule tx_inv_deliver)
next
  case (other s c)
  then show ?case by (simp add: tx_inv_def)
next
  case (tbegin s)
  have "watch_count k (sy_txs s @ [Begin]) = watch_count k (sy_txs s)" for k by (simp add: watch_count_def Begin_def)
  with tbegin show ?case by (auto simp: tx_inv_def nth_append less_Suc_eq snap_ok_Nil Begin_def)
next
  case (twatch i s keys co tx)
  then show ?case by (intro tx_inv_watch) (auto simp: Watch_def split: if_splits)
next
  case (tmulti i s tx)
  then show ?case by (intro tx_inv_update) (auto simp: Multi_def split: if_splits)
next
  case (tqueue i s cmd tx)
  then show ?case by (intro tx_inv_update) (auto simp: Queue_def split: if_splits)
next
  case (texec i s co tx c res)
  let ?t = "sy_txs s ! i"
  have other: "tx_inv (u\<lparr>sy_cache := c\<rparr>)" if "tx_inv u" for u :: "('a, 'b) txsys" using that by (simp add: tx_inv_def)
  consider "\<not> tx_inMulti ?t" | "tx_inMulti ?t" "tx_changed (sy_co s) ?t" | "tx_inMulti ?t" "\<not> tx_changed (sy_co s) ?t" by blast
  then show ?case
  proof cases
    case 1
    then have "co = sy_co s" "tx = ?t" "c = sy_cache s" using texec(2) by (simp_all add: Exec_def)
    then show ?thesis using texec(3) by (simp add: tx_inv_def)
  next
    case 2
    then have r: "release (sy_co s) ?t = (co, tx)" using texec(2) by (auto simp: Exec_def split: prod.splits)
    from other [OF tx_inv_release [OF texec(3,1) r refl release_watched [OF r]]] show ?thesis by simp
  next
    case 3
    then have r: "release (sy_co s) (?t\<lparr>tx_inMulti := False, tx_queued := []\<rparr>) = (co, tx)"
      using texec(2) by (auto simp: Exec_def split: prod.splits)
    have "tx_watched (?t\<lparr>tx_inMulti := False, tx_queued := []\<rparr>) = tx_watched ?t" by simp
    from other [OF tx_inv_release [OF texec(3,1) r this release_watched [OF r]]] show ?thesis by simp
  qed
next
  case (tdiscard i s co tx)
  obtain tx1 where r: "release (sy_co s) (sy_txs s ! i) = (co, tx1)" "tx = tx1\<lparr>tx_inMulti := False, tx_queued := []\<rparr>"
    using tdiscard(2) by (auto simp: Discard_def split: prod.splits)
  then show ?case using tx_inv_release [OF tdiscard(3,1) r(1) refl] release_watched [OF r(1)] by simp
qed

lemma tx_inv_reach: "tx_reach s \<Longrightarrow> tx_inv s"
proof (induction rule: tx_reach.induct)
  case (tx_reach_init c)
  then show ?case by (simp add: tx_inv_def tx_init_def co_inv_def NewCoordinator_def watch_count_def)
qed (rule tx_inv_step)

subsection \<open>The verdict of Exec\<close>

lemma tx_changed_iff:
  assumes "snap_ok co hits tx"
  shows "tx_changed co tx \<longleftrightarrow> (\<exists>k \<in> mkeys (tx_watched tx). (of_nat (hits k) :: u64) \<noteq> 0)"
proof -
  have wf: "wf_map (tx_watched tx)" using assms by (simp add: snap_ok_def)
  have eq: "lookup0 (co_versions co) k \<noteq> snap \<longleftrightarrow> (of_nat (hits k) :: u64) \<noteq> 0" if "(k, snap) \<in> set (tx_watched tx)" for k snap
  proof -
    have "map_of (tx_watched tx) k = Some snap" using that wf_map_in_set [OF wf] by simp
    then have "lookup0 (co_versions co) k = snap + of_nat (hits k)" using assms by (simp only: snap_ok_def)
    then show ?thesis by simp
  qed
  then show ?thesis unfolding tx_changed_def list_ex_iff by force
qed

lemma Exec_ok:
  assumes "tx_inMulti tx" and "\<not> tx_changed co tx" and "run_queued (tx_queued tx) c = (c', rs)"
  shows "\<exists>co'. Exec co tx c = (co', Begin, c', Inr rs)"
proof (cases "release co (tx\<lparr>tx_inMulti := False, tx_queued := []\<rparr>)")
  case (Pair co' tx')
  then have "tx' = Begin"
    by (auto simp: release_def Begin_def split: if_splits)
  with Pair assms show ?thesis by (simp add: Exec_def)
qed

lemma Exec_aborts:
  assumes "tx_inMulti tx" and "tx_changed co tx"
  shows "\<exists>co'. Exec co tx c = (co', tx\<lparr>tx_watched := []\<rparr>, c, Inl ErrAborted)"
  using assms by (auto simp: Exec_def release_def tx_changed_def)

end
