(* ===== verification/Txn_Thms.thy ===== *)
theory Txn_Thms
  imports Txn
begin

section \<open>Properties of transactions\<close>

text \<open>
  The verdict of \<open>Exec\<close> of internal/txn/txn.go in every interleaving of the transactions of a coordinator.
\<close>


definition ex_tx :: "(nat, nat) tx" where
  "ex_tx = Begin\<lparr>tx_watched := [(''k'', 0)], tx_queued := [\<lambda>c. (c + 1, c)], tx_inMulti := True\<rparr>"

definition ex_sys :: "event list \<Rightarrow> (nat, nat) txsys" where
  "ex_sys evs = \<lparr>sy_co = fold onEvent evs \<lparr>co_versions = [], co_watchers = [(''k'', 1)]\<rparr>, sy_txs = [ex_tx], sy_cache = 7,
     sy_hits = (\<lambda>i k. length (filter (\<lambda>ev. hits_key ev k) evs))\<rparr>"

lemma ex_sys_reach: "tx_reach (ex_sys [])" "tx_reach (ex_sys [ev_del ''k''])"
proof -
  let ?s1 = "tx_init 7 :: (nat, nat) txsys"
  let ?s2 = "?s1\<lparr>sy_txs := sy_txs ?s1 @ [Begin]\<rparr>"
  let ?co = "\<lparr>co_versions = [], co_watchers = [(''k'', 1)]\<rparr>" and ?t = "Begin\<lparr>tx_watched := [(''k'', 0)]\<rparr>"
  have s2: "tx_reach ?s2" by (rule tx_reach_step [OF tx_reach_init tbegin])
  let ?s3 = "?s2\<lparr>sy_co := ?co, sy_txs := (sy_txs ?s2)[0 := ?t],
      sy_hits := (sy_hits ?s2)(0 := (\<lambda>k. if k \<in> mkeys (tx_watched (sy_txs ?s2 ! 0)) then sy_hits ?s2 0 k else 0))\<rparr>"
  have s3: "tx_reach ?s3"
    by (rule tx_reach_step [OF s2 twatch [where keys = "[''k'']"]])
      (simp_all add: tx_init_def Watch_def Begin_def NewCoordinator_def lookup0_def)
  let ?s4 = "?s3\<lparr>sy_txs := (sy_txs ?s3)[0 := ?t\<lparr>tx_inMulti := True\<rparr>]\<rparr>"
  have s4: "tx_reach ?s4"
    by (rule tx_reach_step [OF s3 tmulti]) (simp_all add: tx_init_def Multi_def Begin_def)
  let ?s5 = "?s4\<lparr>sy_txs := (sy_txs ?s4)[0 := ex_tx]\<rparr>"
  have "tx_reach ?s5"
    by (rule tx_reach_step [OF s4 tqueue [where cmd = "\<lambda>c. (c + 1, c)"]]) (simp_all add: tx_init_def Queue_def Begin_def ex_tx_def)
  moreover have "?s5 = ex_sys []" by (simp add: ex_sys_def tx_init_def fun_eq_iff)
  ultimately show e: "tx_reach (ex_sys [])" by simp
  from tx_reach_step [OF this deliver [of _ "ev_del ''k''"]]
  have "tx_reach ((ex_sys [])\<lparr>sy_co := onEvent (ev_del ''k'') (sy_co (ex_sys [])),
      sy_hits := (\<lambda>i k. sy_hits (ex_sys []) i k + (if hits_key (ev_del ''k'') k then 1 else 0))\<rparr>)" .
  then show "tx_reach (ex_sys [ev_del ''k''])" by (simp add: ex_sys_def fun_eq_iff if_distrib cong: if_cong)
qed


text \<open>Nothing is counted for ever: in every reachable state a key has a watch counter exactly when some transaction
  watches it, and the counter is the number of those transactions.\<close>

theorem watch_counters:
  assumes "tx_reach s"
  shows "map_of (co_watchers (sy_co s)) k =
    (if watch_count k (sy_txs s) = 0 then None else Some (int (watch_count k (sy_txs s))))"
  using tx_inv_reach [OF assms] by (simp add: tx_inv_def co_inv_def)

theorem watch_counters_witness: "map_of (co_watchers (sy_co (ex_sys []))) ''k'' = Some 1"
  using watch_counters [OF ex_sys_reach(1), of "''k''"] by (simp add: ex_sys_def ex_tx_def watch_count_def)

end
