(* ===== verification/Hashring.thy ===== *)
theory Hashring
  imports Prelude "HOL-Library.AList" "HOL-Library.Word" "HOL-Library.Char_ord" "HOL-Library.List_Lexorder"
begin

section \<open>The consistent-hash ring\<close>

text \<open>
  internal/hashring/hashring.go. The hash is the IEEE CRC-32 of \<open>hash/crc32\<close>; the ring is the sorted
  list of the virtual nodes' hashes; \<open>sort.Search\<close> is the binary search of package \<open>sort\<close>. The methods run
  under the lock.
\<close>

unbundle bit_operations_syntax

declare map_of_eq_Some_iff [simp del]

subsection \<open>CRC-32 and binary search\<close>

definition crc32_bit :: "u32 \<Rightarrow> u32" where
  "crc32_bit c = (if bit c 0 then drop_bit 1 c XOR 0xEDB88320 else drop_bit 1 c)"

definition crc32_byte :: "u32 \<Rightarrow> char \<Rightarrow> u32" where
  "crc32_byte c b = (crc32_bit ^^ 8) (c XOR of_nat (of_char b))"

definition crc32_ChecksumIEEE :: "string \<Rightarrow> u32" where
  "crc32_ChecksumIEEE s = NOT (fold (\<lambda>b c. crc32_byte c b) s 0xFFFFFFFF)"

function search_loop :: "(nat \<Rightarrow> bool) \<Rightarrow> nat \<Rightarrow> nat \<Rightarrow> nat" where
  "search_loop f i j =
     (if i < j then (let h = (i + j) div 2 in if \<not> f h then search_loop f (h + 1) j else search_loop f i h) else i)"
  by pat_completeness auto
termination
  by (relation "measure (\<lambda>(f, i, j). j - i)") (auto simp: Let_def)

declare search_loop.simps [simp del]

definition sort_Search :: "nat \<Rightarrow> (nat \<Rightarrow> bool) \<Rightarrow> nat" where
  "sort_Search n f = search_loop f 0 n"

subsection \<open>The ring\<close>

record ring =
  rg_replicas :: int
  rg_ring :: "u32 list"
  rg_owners :: "(u32 \<times> string) list"
  rg_nodes :: "(string \<times> bool) list"

definition ring_New :: "int \<Rightarrow> ring" where
  "ring_New replicas =
     \<lparr>rg_replicas = (if replicas \<le> 0 then 100 else replicas), rg_ring = [], rg_owners = [], rg_nodes = []\<rparr>"

definition hashKey :: "string \<Rightarrow> u32" where
  "hashKey s = crc32_ChecksumIEEE s"

definition vnodeKey :: "string \<Rightarrow> int \<Rightarrow> string" where
  "vnodeKey node i = node @ ''#'' @ format_int i"

definition vnodes :: "ring \<Rightarrow> string \<Rightarrow> u32 list" where
  "vnodes r node = map (\<lambda>i. hashKey (vnodeKey node (int i))) [0..<nat (rg_replicas r)]"

definition add_vnode :: "string \<Rightarrow> u32 \<Rightarrow> ring \<Rightarrow> ring" where
  "add_vnode node h r = r\<lparr>rg_owners := AList.update h node (rg_owners r), rg_ring := rg_ring r @ [h]\<rparr>"

definition add_node :: "string \<Rightarrow> ring \<Rightarrow> ring" where
  "add_node node r =
     (if map_of (rg_nodes r) node = Some True then r
      else fold (add_vnode node) (vnodes r node) (r\<lparr>rg_nodes := AList.update node True (rg_nodes r)\<rparr>))"

definition ring_Add :: "string list \<Rightarrow> ring \<Rightarrow> ring" where
  "ring_Add nodes r = (let r1 = fold add_node nodes r in r1\<lparr>rg_ring := sort (rg_ring r1)\<rparr>)"

definition ring_Remove :: "string \<Rightarrow> ring \<Rightarrow> ring" where
  "ring_Remove node r =
     (if map_of (rg_nodes r) node \<noteq> Some True then r
      else
        (let owners = fold AList.delete (vnodes r node) (rg_owners r) in
         r\<lparr>rg_nodes := AList.delete node (rg_nodes r), rg_owners := owners,
           rg_ring := filter (\<lambda>h. map_of owners h \<noteq> None) (rg_ring r)\<rparr>))"

definition ring_search :: "u32 \<Rightarrow> ring \<Rightarrow> nat" where
  "ring_search h r =
     (let i = sort_Search (length (rg_ring r)) (\<lambda>i. rg_ring r ! i \<ge> h) in
      if i = length (rg_ring r) then 0 else i)"

definition owner_of :: "ring \<Rightarrow> u32 \<Rightarrow> string" where
  "owner_of r h = (case map_of (rg_owners r) h of None \<Rightarrow> '''' | Some n \<Rightarrow> n)"

definition ring_Get :: "string \<Rightarrow> ring \<Rightarrow> string \<times> bool" where
  "ring_Get key r =
     (if rg_ring r = [] then ('''', False)
      else (owner_of r (rg_ring r ! ring_search (hashKey key) r), True))"

text \<open>The loop of \<open>GetN\<close>: \<open>todo\<close> are the indices that are still to be visited; \<open>seen\<close> holds the nodes of \<open>out\<close>.\<close>

fun getn_loop :: "ring \<Rightarrow> nat \<Rightarrow> nat list \<Rightarrow> string list \<Rightarrow> string list" where
  "getn_loop r n [] out = out"
| "getn_loop r n (i # todo) out =
     (if length out < n then
        (let node = owner_of r (rg_ring r ! (i mod length (rg_ring r))) in
         if node \<notin> set out then getn_loop r n todo (out @ [node]) else getn_loop r n todo out)
      else out)"

definition ring_GetN :: "string \<Rightarrow> int \<Rightarrow> ring \<Rightarrow> string list" where
  "ring_GetN key n r =
     (if rg_ring r = [] \<or> n \<le> 0 then []
      else
        (let n1 = (if n > int (length (rg_nodes r)) then length (rg_nodes r) else nat n);
             start = ring_search (hashKey key) r
         in getn_loop r n1 (map (\<lambda>i. start + i) [0..<length (rg_ring r)]) []))"

definition ring_Nodes :: "ring \<Rightarrow> string list" where
  "ring_Nodes r = sort (map fst (rg_nodes r))"

definition ring_Len :: "ring \<Rightarrow> nat" where
  "ring_Len r = length (rg_nodes r)"

subsection \<open>Binary search finds the first index\<close>

lemma search_loop_spec:
  assumes "mono f"
  shows "i \<le> j \<Longrightarrow> \<forall>x < i. \<not> f x \<Longrightarrow> f j \<Longrightarrow>
    search_loop f i j \<le> j \<and> (\<forall>x < search_loop f i j. \<not> f x) \<and> f (search_loop f i j)"
proof (induction "j - i" arbitrary: i j rule: less_induct)
  case less
  show ?case
  proof (cases "i < j")
    case False
    then have "search_loop f i j = i" by (subst search_loop.simps) simp
    with less.prems False show ?thesis by (cases "i = j") simp_all
  next
    case True
    let ?h = "(i + j) div 2"
    have h: "i \<le> ?h" "?h < j" using True by linarith+
    show ?thesis
    proof (cases "f ?h")
      case fh: True
      then have eq: "search_loop f i j = search_loop f i ?h" using True by (subst search_loop.simps) simp
      have "?h - i < j - i" using h by linarith
      from less.hyps [OF this h(1) less.prems(2) fh] h(2) show ?thesis unfolding eq by (meson less_imp_le order_trans)
    next
      case fh: False
      then have eq: "search_loop f i j = search_loop f (?h + 1) j" using True by (subst search_loop.simps) simp
      have below: "\<forall>x < ?h + 1. \<not> f x"
      proof (intro allI impI)
        fix x assume "x < ?h + 1"
        then have "x \<le> ?h" by simp
        from monoD [OF assms this] fh show "\<not> f x" by (simp add: le_bool_def)
      qed
      have "j - (?h + 1) < j - i" "?h + 1 \<le> j" using h by linarith+
      from less.hyps [OF this below less.prems(3)] show ?thesis unfolding eq by blast
    qed
  qed
qed

text \<open>On a predicate that stays true the search returns the first index that satisfies it, or the
  length.\<close>

lemma sort_Search_first:
  assumes mono: "\<forall>x y. x \<le> y \<longrightarrow> y < n \<longrightarrow> f x \<longrightarrow> f y"
  shows "sort_Search n f \<le> n" and "x < sort_Search n f \<Longrightarrow> \<not> f x" and "sort_Search n f < n \<Longrightarrow> f (sort_Search n f)"
proof -
  let ?g = "\<lambda>x. n \<le> x \<or> f x"
  have agree: "j \<le> n \<Longrightarrow> search_loop f i j = search_loop ?g i j" for i j
  proof (induction "j - i" arbitrary: i j rule: less_induct)
    case less
    show ?case
    proof (cases "i < j")
      case True
      let ?h = "(i + j) div 2"
      have h: "?h < n" "i \<le> ?h" "?h < j" using True less.prems by linarith+
      have "search_loop f (?h + 1) j = search_loop ?g (?h + 1) j" using h less.prems by (intro less.hyps) linarith+
      moreover have "search_loop f i ?h = search_loop ?g i ?h" using h by (intro less.hyps) linarith+
      ultimately show ?thesis using h(1)
        by (subst search_loop.simps, subst (2) search_loop.simps) (simp add: Let_def)
    qed (subst search_loop.simps, subst (2) search_loop.simps, simp)
  qed
  have "mono ?g"
  proof (rule monoI)
    fix x y :: nat assume "x \<le> y"
    then show "?g x \<le> ?g y" using mono by (cases "y < n") auto
  qed
  from search_loop_spec [OF this, of 0 n]
  have *: "search_loop ?g 0 n \<le> n \<and> (\<forall>x < search_loop ?g 0 n. \<not> ?g x) \<and> ?g (search_loop ?g 0 n)" by blast
  have "sort_Search n f = search_loop ?g 0 n" using agree [of n 0] by (simp only: sort_Search_def order_refl)
  with * show "sort_Search n f \<le> n" "x < sort_Search n f \<Longrightarrow> \<not> f x" "sort_Search n f < n \<Longrightarrow> f (sort_Search n f)"
    by (metis, metis, metis not_le)
qed

subsection \<open>The successor of a hash\<close>

text \<open>What the search looks for: the least virtual node that is not before the hash, or the least of
  all when there is none.\<close>

definition succ_of :: "u32 set \<Rightarrow> u32 \<Rightarrow> u32" where
  "succ_of S h = (if \<exists>x \<in> S. h \<le> x then Min {x \<in> S. h \<le> x} else Min S)"

lemma succ_of_in: "finite S \<Longrightarrow> S \<noteq> {} \<Longrightarrow> succ_of S h \<in> S"
  using Min_in [of "{x \<in> S. h \<le> x}"] by (auto simp: succ_of_def)

lemma succ_of_subset:
  assumes "finite S'" and "S \<subseteq> S'" and "succ_of S' h \<in> S"
  shows "succ_of S h = succ_of S' h"
proof (cases "\<exists>x \<in> S'. h \<le> x")
  case True
  let ?T = "{x \<in> S. h \<le> x}" and ?T' = "{x \<in> S'. h \<le> x}"
  have fin: "finite ?T'" using assms(1) by simp
  have m: "succ_of S' h = Min ?T'" using True by (simp add: succ_of_def)
  have "?T' \<noteq> {}" using True by blast
  then have "succ_of S' h \<in> ?T'" unfolding m by (rule Min_in [OF fin])
  then have in_T: "Min ?T' \<in> ?T" using assms(3) m by simp
  then have "Min ?T = Min ?T'" using assms(2) fin by (intro Min_eqI) (auto intro: finite_subset [of _ ?T'])
  with in_T m show ?thesis by (auto simp: succ_of_def)
next
  case False
  then have "succ_of S' h = Min S'" "\<not> (\<exists>x \<in> S. h \<le> x)" using assms(2) by (auto simp: succ_of_def)
  moreover have "Min S = Min S'"
    using calculation assms by (intro Min_eqI) (auto intro: finite_subset)
  ultimately show ?thesis by (simp add: succ_of_def)
qed

lemma ring_search_succ:
  assumes sorted: "sorted (rg_ring r)" and ne: "rg_ring r \<noteq> []"
  shows "ring_search h r < length (rg_ring r)" and "rg_ring r ! ring_search h r = succ_of (set (rg_ring r)) h"
proof -
  let ?xs = "rg_ring r" and ?f = "\<lambda>i. rg_ring r ! i \<ge> h"
  let ?i = "sort_Search (length ?xs) ?f"
  have mono: "\<forall>x y. x \<le> y \<longrightarrow> y < length ?xs \<longrightarrow> ?f x \<longrightarrow> ?f y"
    using sorted_nth_mono [OF sorted] by (meson order_trans)
  note first = sort_Search_first [OF mono]
  show "ring_search h r < length ?xs"
    using first(1) ne by (simp add: ring_search_def Let_def)
  show "?xs ! ring_search h r = succ_of (set ?xs) h"
  proof (cases "?i = length ?xs")
    case True
    then have "\<not> h \<le> ?xs ! x" if "x < length ?xs" for x using first(2) [of x] that by simp
    then have "\<not> (\<exists>x \<in> set ?xs. h \<le> x)" by (auto simp: in_set_conv_nth)
    moreover have "Min (set ?xs) = ?xs ! 0"
      using sorted ne sorted_nth_mono [OF sorted, of 0] by (intro Min_eqI) (auto simp: in_set_conv_nth)
    ultimately show ?thesis using True by (simp add: ring_search_def succ_of_def)
  next
    case False
    then have i: "?i < length ?xs" using first(1) by linarith
    then have hi: "h \<le> ?xs ! ?i" using first(3) by blast
    have least: "?xs ! ?i \<le> ?xs ! x" if "x < length ?xs" "h \<le> ?xs ! x" for x
      using that first(2) [of x] sorted_nth_mono [OF sorted, of ?i x] by (meson not_le)
    have "Min {x \<in> set ?xs. h \<le> x} = ?xs ! ?i"
      using i hi least by (intro Min_eqI) (auto simp: in_set_conv_nth)
    then show ?thesis using False i hi by (auto simp: ring_search_def succ_of_def Let_def)
  qed
qed

subsection \<open>The invariant\<close>

definition ring_core :: "ring \<Rightarrow> bool" where
  "ring_core r \<longleftrightarrow> 0 < rg_replicas r \<and> set (rg_ring r) = mkeys (rg_owners r) \<and>
     wf_map (rg_owners r) \<and> wf_map (rg_nodes r) \<and> (\<forall>n. map_of (rg_nodes r) n \<noteq> Some False) \<and>
     (\<forall>h n. map_of (rg_owners r) h = Some n \<longrightarrow> n \<in> mkeys (rg_nodes r) \<and> h \<in> set (vnodes r n))"

definition ring_inv :: "ring \<Rightarrow> bool" where
  "ring_inv r \<longleftrightarrow> ring_core r \<and> sorted (rg_ring r)"

lemma ring_inv_New: "ring_inv (ring_New n)"
  by (simp add: ring_inv_def ring_core_def ring_New_def)

lemma ring_core_true: "ring_core r \<Longrightarrow> map_of (rg_nodes r) n = Some b \<Longrightarrow> b"
  unfolding ring_core_def by (cases b) simp_all

lemma ring_core_owner:
  "ring_core r \<Longrightarrow> map_of (rg_owners r) h = Some n \<Longrightarrow> n \<in> mkeys (rg_nodes r) \<and> h \<in> set (vnodes r n)"
  unfolding ring_core_def by blast

lemma ring_core_ring: "ring_core r \<Longrightarrow> x \<in> set (rg_ring r) \<longleftrightarrow> (\<exists>v. map_of (rg_owners r) x = Some v)"
  unfolding ring_core_def by (simp only: mkeys_iff)

lemma ring_member: "ring_core r \<Longrightarrow> map_of (rg_nodes r) n = Some True \<longleftrightarrow> n \<in> mkeys (rg_nodes r)"
proof -
  assume r: "ring_core r"
  then have "b" if "map_of (rg_nodes r) n = Some b" for b using ring_core_true that by blast
  then show ?thesis by (auto simp: mkeys_iff simp del: map_of_eq_Some_iff)
qed

text \<open>Adding the virtual nodes of one node.\<close>

lemma add_vnodes:
  "rg_replicas (fold (add_vnode n) hs r) = rg_replicas r \<and> rg_nodes (fold (add_vnode n) hs r) = rg_nodes r \<and>
   rg_ring (fold (add_vnode n) hs r) = rg_ring r @ hs \<and>
   (wf_map (rg_owners r) \<longrightarrow> wf_map (rg_owners (fold (add_vnode n) hs r))) \<and>
   map_of (rg_owners (fold (add_vnode n) hs r)) h = (if h \<in> set hs then Some n else map_of (rg_owners r) h)"
  by (induction hs arbitrary: r) (auto simp: add_vnode_def)

lemma vnodes_cong: "rg_replicas r = rg_replicas r' \<Longrightarrow> vnodes r n = vnodes r' n"
  by (simp add: vnodes_def)

lemma add_node_owners:
  "map_of (rg_owners (add_node n r)) h =
     (if map_of (rg_nodes r) n \<noteq> Some True \<and> h \<in> set (vnodes r n) then Some n else map_of (rg_owners r) h)"
  "rg_replicas (add_node n r) = rg_replicas r"
  "rg_ring (add_node n r) = rg_ring r @ (if map_of (rg_nodes r) n = Some True then [] else vnodes r n)"
  "map_of (rg_nodes (add_node n r)) k = (if k = n then Some True else map_of (rg_nodes r) k)"
  by (auto simp: add_node_def add_vnodes)

lemma add_node_core:
  assumes r: "ring_core r"
  shows "ring_core (add_node n r)"
proof (cases "map_of (rg_nodes r) n = Some True")
  case True
  then show ?thesis using r by (simp add: add_node_def)
next
  case False
  let ?r = "add_node n r"
  note o = add_node_owners [of n r]
  have wf: "wf_map (rg_owners ?r)" "wf_map (rg_nodes ?r)"
    using r False by (simp_all add: add_node_def add_vnodes ring_core_def)
  have "x \<in> set (rg_ring ?r) \<longleftrightarrow> x \<in> mkeys (rg_owners ?r)" for x
    using ring_core_ring [OF r, of x] False by (simp only: mkeys_iff o) auto
  then have ring: "set (rg_ring ?r) = mkeys (rg_owners ?r)" by (intro set_eqI)
  have nodes: "b" if "map_of (rg_nodes ?r) k = Some b" for k b
  proof (cases "k = n")
    case True
    then show ?thesis using that by (simp add: o)
  next
    case False
    then have "map_of (rg_nodes r) k = Some b" using that by (simp only: o if_False)
    then show ?thesis using ring_core_true [OF r] by blast
  qed
  have own: "m \<in> mkeys (rg_nodes ?r) \<and> h \<in> set (vnodes ?r m)" if m: "map_of (rg_owners ?r) h = Some m" for h m
  proof -
    have v: "vnodes ?r m = vnodes r m" by (rule vnodes_cong) (simp add: o)
    have "map_of (rg_owners ?r) h = (if h \<in> set (vnodes r n) then Some n else map_of (rg_owners r) h)"
      using o(1) False by simp
    with m consider "h \<in> set (vnodes r n)" "m = n" | "map_of (rg_owners r) h = Some m"
      by (cases "h \<in> set (vnodes r n)") auto
    then show ?thesis
    proof cases
      case 1
      then show ?thesis unfolding v by (simp only: mkeys_iff o) auto
    next
      case 2
      then have "m \<in> mkeys (rg_nodes r)" "h \<in> set (vnodes r m)" using ring_core_owner [OF r] by blast+
      then show ?thesis unfolding v by (simp only: mkeys_iff o) auto
    qed
  qed
  show ?thesis using r wf ring nodes own by (simp only: ring_core_def o) blast
qed

lemma add_nodes_core: "ring_core r \<Longrightarrow> ring_core (fold add_node ns r)"
  by (induction ns arbitrary: r) (simp_all add: add_node_core)

lemma add_nodes_owners:
  "map_of (rg_owners (fold add_node ns r)) h = map_of (rg_owners r) h \<or>
     (\<exists>n \<in> set ns. map_of (rg_nodes r) n \<noteq> Some True \<and> map_of (rg_owners (fold add_node ns r)) h = Some n)"
proof (induction ns arbitrary: r)
  case (Cons n ns)
  from Cons.IH [of "add_node n r"] show ?case
    by (auto simp: add_node_owners split: if_splits)
qed simp

lemma add_nodes_keys: "map_of (rg_owners r) h \<noteq> None \<Longrightarrow> map_of (rg_owners (fold add_node ns r)) h \<noteq> None"
  using add_nodes_owners [of ns r h] by auto

lemma ring_core_sort: "ring_core r \<Longrightarrow> ring_core (r\<lparr>rg_ring := sort (rg_ring r)\<rparr>)"
  by (simp add: ring_core_def vnodes_def)

lemma ring_Add_inv: "ring_inv r \<Longrightarrow> ring_inv (ring_Add ns r)"
  using ring_core_sort [OF add_nodes_core [of r ns]] by (simp add: ring_inv_def ring_Add_def Let_def)

lemma fold_delete: "map_of (fold AList.delete hs m) h = (if h \<in> set hs then None else map_of m h)"
  by (induction hs arbitrary: m) auto

lemma wf_fold_delete: "wf_map m \<Longrightarrow> wf_map (fold AList.delete hs m)"
  by (induction hs arbitrary: m) simp_all

lemma ring_Remove_owners:
  assumes "map_of (rg_nodes r) n = Some True"
  shows "map_of (rg_owners (ring_Remove n r)) h = (if h \<in> set (vnodes r n) then None else map_of (rg_owners r) h)"
  using assms by (simp add: ring_Remove_def Let_def fold_delete)

lemma ring_Remove_inv:
  assumes r: "ring_inv r"
  shows "ring_inv (ring_Remove n r)"
proof (cases "map_of (rg_nodes r) n = Some True")
  case False
  then show ?thesis using r by (simp add: ring_Remove_def)
next
  case True
  let ?r = "ring_Remove n r"
  have c: "ring_core r" "sorted (rg_ring r)" using r by (simp_all add: ring_inv_def)
  note o = ring_Remove_owners [OF True]
  have f: "rg_replicas ?r = rg_replicas r" "rg_nodes ?r = AList.delete n (rg_nodes r)"
      "rg_ring ?r = filter (\<lambda>h. map_of (rg_owners ?r) h \<noteq> None) (rg_ring r)"
    using True by (simp_all add: ring_Remove_def Let_def)
  have "x \<in> set (rg_ring ?r) \<longleftrightarrow> x \<in> mkeys (rg_owners ?r)" for x
    using ring_core_ring [OF c(1), of x] by (simp only: f(3) mkeys_iff set_filter) (auto simp: o split: if_splits)
  then have ring: "set (rg_ring ?r) = mkeys (rg_owners ?r)" by (intro set_eqI)
  have wf: "wf_map (rg_owners ?r)" "wf_map (rg_nodes ?r)"
    using c(1) True by (simp_all add: ring_Remove_def Let_def ring_core_def wf_fold_delete)
  have own: "m \<in> mkeys (rg_nodes ?r) \<and> h \<in> set (vnodes ?r m)" if m: "map_of (rg_owners ?r) h = Some m" for h m
  proof -
    have h: "h \<notin> set (vnodes r n)" "map_of (rg_owners r) h = Some m" using m by (simp_all add: o split: if_splits)
    then have "m \<in> mkeys (rg_nodes r)" "h \<in> set (vnodes r m)" using ring_core_owner [OF c(1)] by blast+
    moreover from this have "m \<noteq> n" using h(1) by blast
    ultimately show ?thesis using vnodes_cong [OF f(1)] by (simp add: f(2))
  qed
  have nodes: "b" if "map_of (rg_nodes ?r) k = Some b" for k b
  proof -
    have "map_of (rg_nodes r) k = Some b" using that by (simp add: f(2) split: if_splits)
    then show ?thesis using ring_core_true [OF c(1)] by blast
  qed
  have "ring_core ?r" using c(1) wf ring nodes own by (simp only: ring_core_def f(1)) blast
  moreover have "sorted (rg_ring ?r)" unfolding f(3) using c(2) by (rule sorted_wrt_filter)
  ultimately show ?thesis by (simp add: ring_inv_def)
qed

subsection \<open>Keys move only to a new node, and only from a removed one\<close>

lemma ring_Get_succ:
  assumes r: "ring_inv r" and ne: "rg_ring r \<noteq> []"
  shows "ring_Get key r = (owner_of r (succ_of (mkeys (rg_owners r)) (hashKey key)), True)"
    and "\<exists>n. map_of (rg_owners r) (succ_of (mkeys (rg_owners r)) (hashKey key)) = Some n"
proof -
  have c: "ring_core r" "sorted (rg_ring r)" using r by (simp_all add: ring_inv_def)
  have set: "set (rg_ring r) = mkeys (rg_owners r)" using c(1) by (simp add: ring_core_def)
  show "ring_Get key r = (owner_of r (succ_of (mkeys (rg_owners r)) (hashKey key)), True)"
    using ring_search_succ(2) [OF c(2) ne] ne by (simp add: ring_Get_def set)
  have "succ_of (set (rg_ring r)) (hashKey key) \<in> set (rg_ring r)" using ne by (intro succ_of_in) simp_all
  then show "\<exists>n. map_of (rg_owners r) (succ_of (mkeys (rg_owners r)) (hashKey key)) = Some n"
    using ring_core_ring [OF c(1)] set by simp
qed

lemma ring_Get_owner:
  assumes "ring_inv r" and "rg_ring r \<noteq> []" and "ring_Get key r = (n, b)"
  shows "b" and "map_of (rg_owners r) (succ_of (mkeys (rg_owners r)) (hashKey key)) = Some n" and "n \<in> mkeys (rg_nodes r)"
proof -
  have c: "ring_core r" using assms(1) by (simp add: ring_inv_def)
  show "b" "map_of (rg_owners r) (succ_of (mkeys (rg_owners r)) (hashKey key)) = Some n"
    using ring_Get_succ [OF assms(1,2), of key] assms(3) by (auto simp: owner_of_def)
  then show "n \<in> mkeys (rg_nodes r)" using ring_core_owner [OF c] by blast
qed

lemma Get_after_Add:
  assumes r: "ring_inv r" and old: "ring_Get key r = (m, True)" and new: "ring_Get key (ring_Add ns r) = (m', b)"
  shows "m' = m \<or> (m' \<in> set ns \<and> m' \<notin> mkeys (rg_nodes r))"
proof -
  let ?r = "ring_Add ns r" and ?h = "hashKey key"
  let ?x = "succ_of (mkeys (rg_owners ?r)) ?h"
  have c: "ring_core r" using r by (simp add: ring_inv_def)
  have ow: "rg_owners ?r = rg_owners (fold add_node ns r)" by (simp add: ring_Add_def Let_def)
  have ne: "rg_ring r \<noteq> []" using old by (auto simp: ring_Get_def split: if_splits)
  then obtain h0 where "h0 \<in> set (rg_ring r)" by (cases "rg_ring r") auto
  then have "map_of (rg_owners r) h0 \<noteq> None" using ring_core_ring [OF c] by auto
  then have "map_of (rg_owners ?r) h0 \<noteq> None" using add_nodes_keys ow by metis
  then have ne': "rg_ring ?r \<noteq> []"
    using ring_Add_inv [OF r, of ns] ring_core_ring [of ?r h0] by (auto simp: ring_inv_def)
  note o' = ring_Get_owner(2) [OF ring_Add_inv [OF r] ne' new]
  consider n where "n \<in> set ns" "map_of (rg_nodes r) n \<noteq> Some True" "m' = n" | "map_of (rg_owners r) ?x = Some m'"
    using add_nodes_owners [of ns r ?x] o' ow by auto
  then show ?thesis
  proof cases
    case 1
    then show ?thesis using ring_member [OF c] by blast
  next
    case 2
    have "mkeys (rg_owners r) \<subseteq> mkeys (rg_owners ?r)"
      using add_nodes_keys [of r _ ns] ow by (metis map_of_None_iff subsetI)
    from succ_of_subset [OF _ this, of ?h] 2 have "succ_of (mkeys (rg_owners r)) ?h = ?x"
      using mkeys_Some [OF 2] by simp
    then show ?thesis using 2 ring_Get_owner(2) [OF r ne old] by simp
  qed
qed

text \<open>The virtual nodes of a node do not collide with those of another when it owns all of them.\<close>

definition owns_all :: "ring \<Rightarrow> string \<Rightarrow> bool" where
  "owns_all r n = list_all (\<lambda>h. map_of (rg_owners r) h = Some n) (vnodes r n)"

lemma Get_after_Remove:
  assumes r: "ring_inv r" and all: "owns_all r n" and old: "ring_Get key r = (m, True)" and m: "m \<noteq> n"
  shows "ring_Get key (ring_Remove n r) = (m, True)"
proof (cases "map_of (rg_nodes r) n = Some True")
  case False
  then show ?thesis using old by (simp add: ring_Remove_def)
next
  case True
  let ?r = "ring_Remove n r" and ?h = "hashKey key"
  let ?x = "succ_of (mkeys (rg_owners r)) ?h"
  have ne: "rg_ring r \<noteq> []" using old by (auto simp: ring_Get_def split: if_splits)
  have x: "map_of (rg_owners r) ?x = Some m" by (rule ring_Get_owner(2) [OF r ne old])
  then have "?x \<notin> set (vnodes r n)" using all m by (auto simp: owns_all_def list_all_iff)
  then have x': "map_of (rg_owners ?r) ?x = Some m" using x by (simp add: ring_Remove_owners [OF True])
  have inv': "ring_inv ?r" by (rule ring_Remove_inv [OF r])
  then have ne': "rg_ring ?r \<noteq> []" using ring_core_ring [of ?r ?x] x' by (auto simp: ring_inv_def)
  have "mkeys (rg_owners ?r) \<subseteq> mkeys (rg_owners r)"
    using ring_Remove_owners [OF True] by (metis map_of_None_iff subsetI)
  from succ_of_subset [OF _ this, of ?h] mkeys_Some [OF x'] have "succ_of (mkeys (rg_owners ?r)) ?h = ?x" by simp
  then show ?thesis using ring_Get_succ(1) [OF inv' ne', of key] x' by (simp add: owner_of_def)
qed

subsection \<open>Several owners\<close>

lemma getn_loop_spec:
  "distinct out \<Longrightarrow> length out \<le> n \<Longrightarrow> getn_loop r n todo out = res \<Longrightarrow>
     distinct res \<and> length res \<le> n \<and> (\<exists>rest. res = out @ rest) \<and>
     set res \<subseteq> set out \<union> (\<lambda>i. owner_of r (rg_ring r ! (i mod length (rg_ring r)))) ` set todo \<and>
     (length res = n \<or> (\<lambda>i. owner_of r (rg_ring r ! (i mod length (rg_ring r)))) ` set todo \<subseteq> set res)"
proof (induction todo arbitrary: out)
  case (Cons i todo)
  let ?o = "owner_of r (rg_ring r ! (i mod length (rg_ring r)))"
  show ?case
  proof (cases "length out < n")
    case False
    then show ?thesis using Cons.prems by auto
  next
    case True
    show ?thesis
    proof (cases "?o \<in> set out")
      case in_out: True
      then have "getn_loop r n todo out = res" using Cons.prems True by simp
      from Cons.IH [OF Cons.prems(1,2) this] in_out show ?thesis by auto
    next
      case False
      then have "getn_loop r n todo (out @ [?o]) = res" "distinct (out @ [?o])" "length (out @ [?o]) \<le> n"
        using Cons.prems True by simp_all
      from Cons.IH [OF this(2,3,1)] show ?thesis by auto
    qed
  qed
qed auto

lemma wrap_all:
  assumes "start < (n::nat)"
  shows "(\<lambda>i. (start + i) mod n) ` {0..<n} = {0..<n}"
proof
  show "{0..<n} \<subseteq> (\<lambda>i. (start + i) mod n) ` {0..<n}"
  proof
    fix j assume "j \<in> {0..<n}"
    then have "j = (start + (if start \<le> j then j - start else j + n - start)) mod n"
      "(if start \<le> j then j - start else j + n - start) \<in> {0..<n}" using assms by auto
    then show "j \<in> (\<lambda>i. (start + i) mod n) ` {0..<n}" by (rule image_eqI)
  qed
qed (use assms in auto)

lemma ring_GetN_spec:
  fixes key :: string
  assumes r: "ring_inv r" and ne: "rg_ring r \<noteq> []" and n: "0 < n"
  defines "res \<equiv> ring_GetN key n r" and "owners \<equiv> owner_of r ` set (rg_ring r)"
  shows "distinct res" and "int (length res) \<le> n" and "set res \<subseteq> mkeys (rg_nodes r)"
    and "hd res = fst (ring_Get key r)" and "res \<noteq> []"
    and "int (length res) = min n (int (ring_Len r)) \<or> set res = owners"
proof -
  let ?start = "ring_search (hashKey key) r" and ?len = "length (rg_ring r)"
  let ?n = "if n > int (length (rg_nodes r)) then length (rg_nodes r) else nat n"
  let ?own = "\<lambda>i. owner_of r (rg_ring r ! (i mod ?len))"
  have c: "ring_core r" "sorted (rg_ring r)" using r by (simp_all add: ring_inv_def)
  have start: "?start < ?len" by (rule ring_search_succ(1) [OF c(2) ne])
  have loop: "getn_loop r ?n (map (\<lambda>i. ?start + i) [0..<?len]) [] = res"
    using ne n by (simp add: res_def ring_GetN_def Let_def)
  have "?own ` set (map (\<lambda>i. ?start + i) [0..<?len]) = (\<lambda>j. owner_of r (rg_ring r ! j)) ` ((\<lambda>i. (?start + i) mod ?len) ` {0..<?len})"
    by (simp only: set_map set_upt image_image)
  also have "\<dots> = owners" unfolding wrap_all [OF start] by (force simp: owners_def set_conv_nth)
  finally have own: "?own ` set (map (\<lambda>i. ?start + i) [0..<?len]) = owners" .
  have owners: "owners \<subseteq> mkeys (rg_nodes r)"
    using ring_core_ring [OF c(1)] ring_core_owner [OF c(1)] by (fastforce simp: owners_def owner_of_def)
  note sp = getn_loop_spec [OF _ _ loop, unfolded own]
  show "distinct res" "int (length res) \<le> n" using sp n by (auto split: if_splits)
  show "set res \<subseteq> mkeys (rg_nodes r)" using sp owners by auto
  show "int (length res) = min n (int (ring_Len r)) \<or> set res = owners" using sp n by (auto simp: ring_Len_def split: if_splits)
  have "owners \<noteq> {}" using ne by (simp add: owners_def)
  then have "rg_nodes r \<noteq> []" using owners by auto
  then have n': "0 < ?n" using n by simp
  have "[0..<?len] = 0 # [1..<?len]" using ne by (simp add: upt_conv_Cons)
  then have "getn_loop r ?n (map (\<lambda>i. ?start + i) [1..<?len]) [?own ?start] = res"
    using loop n' by (simp add: Let_def)
  from getn_loop_spec [OF _ _ this] n' have "\<exists>rest. res = [?own ?start] @ rest" by simp
  then show "hd res = fst (ring_Get key r)" "res \<noteq> []" using start ne by (auto simp: ring_Get_def)
qed

end
