(* ===== verification/Ring_Thms.thy ===== *)
theory Ring_Thms
  imports Hashring
begin

section \<open>Properties of the hash ring\<close>

text \<open>
  Placement and its stability under changes of the membership, for internal/hashring/hashring.go.
\<close>

inductive ring_reach :: "ring \<Rightarrow> bool" where
  fresh: "ring_reach (ring_New n)"
| add: "ring_reach r \<Longrightarrow> ring_reach (ring_Add ns r)"
| remove: "ring_reach r \<Longrightarrow> ring_reach (ring_Remove n r)"

lemma ring_reach_inv: "ring_reach r \<Longrightarrow> ring_inv r"
  by (induction rule: ring_reach.induct) (auto intro: ring_inv_New ring_Add_inv ring_Remove_inv)

subsection \<open>An example\<close>

lemma crc32_bit_eval:
  "crc32_bit (numeral (num.Bit0 m)) = drop_bit 1 (numeral (num.Bit0 m))"
  "crc32_bit (numeral (num.Bit1 m)) = drop_bit 1 (numeral (num.Bit1 m)) XOR 0xEDB88320"
  "crc32_bit 0 = 0" "crc32_bit 1 = 0xEDB88320"
  by (simp_all add: crc32_bit_def)

lemma crc32_byte_eval:
  "crc32_byte c b = crc32_bit (crc32_bit (crc32_bit (crc32_bit (crc32_bit (crc32_bit (crc32_bit (crc32_bit
     (c XOR of_nat (of_char b)))))))))"
  by (simp add: crc32_byte_def eval_nat_numeral)

lemmas crc32_eval = hashKey_def crc32_ChecksumIEEE_def crc32_bit_eval crc32_byte_eval

lemma ex_hashes:
  "hashKey ''a#0'' = 774127560" "hashKey ''b#0'' = 744653201" "hashKey ''c#0'' = 765520806" "hashKey ''key'' = 2324736937"
  by (simp_all add: crc32_eval)

definition ex_ring :: ring where
  "ex_ring = \<lparr>rg_replicas = 1, rg_ring = [744653201, 774127560], rg_owners = [(774127560, ''a''), (744653201, ''b'')],
     rg_nodes = [(''a'', True), (''b'', True)]\<rparr>"

lemma vnodes_one: "rg_replicas r = 1 \<Longrightarrow> vnodes r node = [hashKey (node @ ''#0'')]"
  by (simp add: vnodes_def vnodeKey_def format_int_def format_nat.simps digit_char_def char_of_def bit_0)

lemma ex_ring_Add: "ring_Add [''a'', ''b''] (ring_New 1) = ex_ring"
  by (simp add: ring_Add_def ring_New_def add_node_def add_vnode_def vnodes_one ex_hashes ex_ring_def)

lemma ex_ring_reach: "ring_reach ex_ring"
  unfolding ex_ring_Add [symmetric] by (intro ring_reach.intros)

lemma ex_ring_Get: "ring_Get ''key'' ex_ring = (''b'', True)"
  by (simp add: ring_Get_def ring_search_def sort_Search_def search_loop.simps ex_ring_def ex_hashes owner_of_def)

subsection \<open>Placement\<close>

text \<open>C31: Adding nodes moves a key only to a node that is new.\<close>

theorem add_moves_to_new:
  assumes "ring_reach r" and "ring_Get key r = (m, True)" and "ring_Get key (ring_Add ns r) = (m', b)"
  shows "m' = m \<or> (m' \<in> set ns \<and> m' \<notin> mkeys (rg_nodes r))"
  by (rule Get_after_Add [OF ring_reach_inv [OF assms(1)] assms(2,3)])

theorem add_moves_to_new_witness:
  "fst (ring_Get ''key'' (ring_Add [''c''] ex_ring)) \<in> {''b'', ''c''}"
  using add_moves_to_new [OF ex_ring_reach ex_ring_Get surjective_pairing] by (force simp del: mkeys_iff)

text \<open>C32: Removing a node that still owns all its virtual nodes leaves the placement of the keys of the others as it is.\<close>

theorem remove_keeps_others:
  assumes "ring_reach r" and "owns_all r n" and "ring_Get key r = (m, True)" and "m \<noteq> n"
  shows "ring_Get key (ring_Remove n r) = (m, True)"
  by (rule Get_after_Remove [OF ring_reach_inv [OF assms(1)] assms(2-4)])

theorem remove_keeps_others_witness: "ring_Get ''key'' (ring_Remove ''a'' ex_ring) = (''b'', True)"
proof -
  have "owns_all ex_ring ''a''" unfolding owns_all_def by (simp add: vnodes_one ex_ring_def ex_hashes)
  from remove_keeps_others [OF ex_ring_reach this ex_ring_Get] show ?thesis by simp
qed

text \<open>C33: The binary search on the sorted ring finds the owner that a scan of all virtual nodes finds: the first position at
  or after the hash of the key, or the least position when there is none.\<close>

theorem Get_is_successor:
  assumes "ring_reach r" and "rg_ring r \<noteq> []"
  shows "ring_Get key r = (owner_of r (succ_of (set (rg_ring r)) (hashKey key)), True) \<and>
    owner_of r (succ_of (set (rg_ring r)) (hashKey key)) \<in> mkeys (rg_nodes r)"
proof -
  have r: "ring_inv r" by (rule ring_reach_inv [OF assms(1)])
  then have s: "set (rg_ring r) = mkeys (rg_owners r)" by (simp add: ring_inv_def ring_core_def)
  from ring_Get_succ(1) [OF r assms(2), of key] ring_Get_owner(3) [OF r assms(2)] show ?thesis unfolding s by blast
qed

theorem Get_is_successor_witness:
  "owner_of ex_ring (succ_of {744653201, 774127560} (hashKey ''key'')) = ''b''"
  using Get_is_successor [OF ex_ring_reach, of "''key''"] ex_ring_Get by (simp add: ex_ring_def)

text \<open>The replicas of a key are distinct nodes of the ring, at most as many as asked for, the owner of the key first;
  and they are as many as asked for, or as there are nodes, unless they are all the nodes that own a virtual node.\<close>

theorem replicas_of_key:
  assumes "ring_reach r" and "rg_ring r \<noteq> []" and "0 < n" and "ring_GetN key n r = res"
  shows "distinct res \<and> int (length res) \<le> n \<and> set res \<subseteq> mkeys (rg_nodes r) \<and> res \<noteq> [] \<and> hd res = fst (ring_Get key r) \<and>
    (int (length res) = min n (int (ring_Len r)) \<or> set res = owner_of r ` set (rg_ring r))"
  using ring_GetN_spec [OF ring_reach_inv [OF assms(1)] assms(2,3), of key] assms(4) by blast

theorem replicas_of_key_witness: "distinct (ring_GetN ''key'' 2 ex_ring) \<and> hd (ring_GetN ''key'' 2 ex_ring) = ''b''"
  using replicas_of_key [OF ex_ring_reach _ _ refl, of 2 "''key''"] ex_ring_Get by (simp add: ex_ring_def)

end
