(* ===== verification/Codec.thy ===== *)
theory Codec
  imports Shard Framing
begin

section \<open>Binary encodings of events\<close>

text \<open>
  internal/persistence/codec.go and internal/replication/codec.go: length-prefixed records of the append-only log
  and of snapshots, and the frames of the replication stream. A byte string is a \<^typ>\<open>string\<close>; the big-endian
  writers truncate their argument to the width of the field, as the conversions of the source do.
\<close>

subsection \<open>Big-endian integers\<close>

fun put_be :: "nat \<Rightarrow> nat \<Rightarrow> string" where
  "put_be 0 n = []"
| "put_be (Suc k) n = put_be k (n div 256) @ [char_of n]"

definition get_be :: "string \<Rightarrow> nat" where
  "get_be s = foldl (\<lambda>acc c. acc * 256 + of_char c) 0 s"

abbreviation PutUint32 :: "nat \<Rightarrow> string" where "PutUint32 \<equiv> put_be 4"

definition PutUint64 :: "u64 \<Rightarrow> string" where
  "PutUint64 w = put_be 8 (unat w)"

definition Uint32 :: "string \<Rightarrow> nat" where
  "Uint32 s = get_be (take 4 s)"

definition Uint64 :: "string \<Rightarrow> u64" where
  "Uint64 s = of_nat (get_be (take 8 s))"

lemma length_put_be [simp]: "length (put_be k n) = k"
  by (induction k arbitrary: n) simp_all

lemma put_be_nonempty: "0 < k \<Longrightarrow> put_be k n \<noteq> []"
  using length_put_be [of k n] by fastforce

lemma get_be_snoc [simp]: "get_be (s @ [c]) = get_be s * 256 + of_char c"
  by (simp add: get_be_def)

lemma get_be_Nil [simp]: "get_be [] = 0"
  by (simp add: get_be_def)

lemma get_put_be: "get_be (put_be k n) = n mod 256 ^ k"
proof (induction k arbitrary: n)
  case (Suc k)
  have "n mod (256 * 256 ^ k) = 256 * (n div 256 mod 256 ^ k) + n mod 256" by (rule mod_mult2_eq)
  with Suc show ?case by (simp add: of_char_of)
qed simp

lemma get_put_be_id [simp]: "n < 256 ^ k \<Longrightarrow> get_be (put_be k n) = n"
  by (simp add: get_put_be)

lemma Uint64_Put [simp]: "Uint64 (PutUint64 w @ r) = w"
proof -
  have "unat w < 256 ^ 8" using unsigned_less [of w, where 'a = nat] by simp
  then show ?thesis by (simp add: Uint64_def PutUint64_def)
qed

lemma length_PutUint64 [simp]: "length (PutUint64 w) = 8"
  by (simp add: PutUint64_def)

lemma Uint32_Put [simp]: "n < 2 ^ 32 \<Longrightarrow> Uint32 (PutUint32 n @ r) = n"
  by (simp add: Uint32_def)

subsection \<open>The body of an event\<close>

text \<open>The layout is the same in both packages: operation, sequence number, lengths of key and value, expiry, key,
  value. The decoder adds the lengths in 32 bits; slicing past the end of the buffer is a panic.\<close>

datatype codec_error = ErrEOF | ErrTornRecord | ErrFrameTooLarge | ErrBadEvent | ErrUnexpectedEOF | CodecPanic

definition headerBytes :: nat where
  "headerBytes = 1 + 8 + 4 + 4 + 8"

definition encodeEvent :: "event \<Rightarrow> string" where
  "encodeEvent ev =
     char_of (unat (ev_Op ev)) # PutUint64 (ev_Seq ev) @ PutUint32 (length (ev_Key ev)) @
     PutUint32 (length (str_of (ev_Value ev))) @ PutUint64 (word_of_int (ev_ExpireAt ev)) @
     ev_Key ev @ str_of (ev_Value ev)"

text \<open>\<open>p[off : off+n]\<close>\<close>

definition slice :: "nat \<Rightarrow> nat \<Rightarrow> string \<Rightarrow> string option" where
  "slice off n p = (if off + n \<le> length p then Some (take n (drop off p)) else None)"

definition decodeBody :: "codec_error \<Rightarrow> string \<Rightarrow> codec_error + event" where
  "decodeBody bad p =
     (let keyLen = Uint32 (drop 9 p); valLen = Uint32 (drop 13 p) in
      if length p mod 2 ^ 32 \<noteq> (headerBytes + keyLen + valLen) mod 2 ^ 32 then Inl bad
      else
        (case slice 25 keyLen p of
           None \<Rightarrow> Inl CodecPanic
         | Some key \<Rightarrow>
             (let ev = \<lparr>ev_Seq = Uint64 (drop 1 p), ev_Op = of_nat (of_char (p ! 0)), ev_Key = key, ev_Value = None,
                        ev_ExpireAt = sint (Uint64 (drop 17 p))\<rparr> in
              if valLen > 0
              then (case slice (25 + keyLen) valLen p of
                      None \<Rightarrow> Inl CodecPanic
                    | Some v \<Rightarrow> Inr (ev\<lparr>ev_Value := Some v\<rparr>))
              else Inr ev)))"

definition decodeEvent :: "string \<Rightarrow> codec_error + event" where
  "decodeEvent p = (if length p < headerBytes then Inl ErrBadEvent else decodeBody ErrBadEvent p)"

subsection \<open>Records of the log\<close>

definition encodeRecord :: "event \<Rightarrow> string" where
  "encodeRecord ev = PutUint32 (headerBytes + length (ev_Key ev) + length (str_of (ev_Value ev))) @ encodeEvent ev"

text \<open>\<open>io.ReadFull\<close> on a stream that holds \<open>inp\<close>: the bytes, or how many there were.\<close>

definition ReadFull :: "nat \<Rightarrow> string \<Rightarrow> (nat + string) \<times> string" where
  "ReadFull n inp = (if length inp < n then (Inl (length inp), []) else (Inr (take n inp), drop n inp))"

definition decodeRecord :: "string \<Rightarrow> (codec_error + event) \<times> string" where
  "decodeRecord inp =
     (case ReadFull 4 inp of
        (Inl n, r) \<Rightarrow> (Inl (if n = 0 then ErrEOF else ErrTornRecord), r)
      | (Inr lenBuf, r) \<Rightarrow>
          (let payloadLen = Uint32 lenBuf in
           if payloadLen < headerBytes then (Inl ErrTornRecord, r)
           else
             (case ReadFull payloadLen r of
                (Inl n, r') \<Rightarrow> (Inl ErrTornRecord, r')
              | (Inr p, r') \<Rightarrow> (decodeBody ErrTornRecord p, r'))))"

subsection \<open>Frames of the replication stream\<close>

definition maxFrame :: nat where
  "maxFrame = 512 * 2 ^ 20"

type_synonym frame = "u8 \<times> bytes"

definition frameEvent :: u8 where "frameEvent = 1"
definition frameSynced :: u8 where "frameSynced = 2"
definition frameAck :: u8 where "frameAck = 3"

definition writeFrame :: "u8 \<Rightarrow> string \<Rightarrow> string" where
  "writeFrame typ' payload = char_of (unat typ') # PutUint32 (length payload) @ payload"

definition readFrame :: "string \<Rightarrow> (codec_error + frame) \<times> string" where
  "readFrame inp =
     (case ReadFull 5 inp of
        (Inl n, r) \<Rightarrow> (Inl (if n = 0 then ErrEOF else ErrUnexpectedEOF), r)
      | (Inr hdr, r) \<Rightarrow>
          (let n = Uint32 (drop 1 hdr); typ' = of_nat (of_char (hdr ! 0)) in
           if n > maxFrame then (Inl ErrFrameTooLarge, r)
           else if n = 0 then (Inr (typ', None), r)
           else
             (case ReadFull n r of
                (Inl k, r') \<Rightarrow> (Inl (if k = 0 then ErrEOF else ErrUnexpectedEOF), r')
              | (Inr p, r') \<Rightarrow> (Inr (typ', Some p), r'))))"

definition u64Bytes :: "u64 \<Rightarrow> string" where
  "u64Bytes n = PutUint64 n"

definition readU64 :: "string \<Rightarrow> u64 option" where
  "readU64 p = (if length p \<noteq> 8 then None else Some (Uint64 p))"

subsection \<open>Round trips\<close>

definition ev_fits :: "event \<Rightarrow> bool" where
  "ev_fits ev \<longleftrightarrow> headerBytes + length (ev_Key ev) + length (str_of (ev_Value ev)) < 2 ^ 32 \<and> int64 (ev_ExpireAt ev)"

definition ev_decoded :: "event \<Rightarrow> event" where
  "ev_decoded ev = ev\<lparr>ev_Value := (if str_of (ev_Value ev) = [] then None else ev_Value ev)\<rparr>"

lemma length_encodeEvent [simp]:
  "length (encodeEvent ev) = headerBytes + length (ev_Key ev) + length (str_of (ev_Value ev))"
  by (simp add: encodeEvent_def headerBytes_def)

lemma drop_put [simp]: "n \<ge> k \<Longrightarrow> drop n (put_be k x @ r) = drop (n - k) r"
  by simp

lemma encodeEvent_parts:
  assumes "ev_fits ev"
  shows "Uint64 (drop 1 (encodeEvent ev)) = ev_Seq ev" and "Uint32 (drop 9 (encodeEvent ev)) = length (ev_Key ev)"
    and "Uint32 (drop 13 (encodeEvent ev)) = length (str_of (ev_Value ev))"
    and "sint (Uint64 (drop 17 (encodeEvent ev))) = ev_ExpireAt ev"
    and "drop 25 (encodeEvent ev) = ev_Key ev @ str_of (ev_Value ev)"
    and "of_nat (of_char (encodeEvent ev ! 0)) = ev_Op ev"
proof -
  have e: "sint (word_of_int (ev_ExpireAt ev) :: u64) = ev_ExpireAt ev"
    using assms by (simp add: ev_fits_def int64_def signed_of_int signed_take_bit_int_eq_self)
  have o: "(of_nat (of_char (char_of (unat (ev_Op ev)) :: char)) :: u8) = ev_Op ev"
    by (simp add: of_char_of unsigned_less [of "ev_Op ev", where 'a = nat, simplified])
  note d = encodeEvent_def ev_fits_def headerBytes_def
  show "Uint64 (drop 1 (encodeEvent ev)) = ev_Seq ev" by (simp add: d)
  show "Uint32 (drop 9 (encodeEvent ev)) = length (ev_Key ev)" using assms by (simp add: d)
  show "Uint32 (drop 13 (encodeEvent ev)) = length (str_of (ev_Value ev))" using assms by (simp add: d)
  show "sint (Uint64 (drop 17 (encodeEvent ev))) = ev_ExpireAt ev" using e by (simp add: d)
  show "drop 25 (encodeEvent ev) = ev_Key ev @ str_of (ev_Value ev)" by (simp add: d)
  show "of_nat (of_char (encodeEvent ev ! 0)) = ev_Op ev" using o by (simp add: d)
qed


lemma slice_append [simp]: "length a = off \<Longrightarrow> slice off (length k) (a @ k @ r) = Some k"
  by (simp add: slice_def)

lemma decodeBody_encode [codec_simps]:
  assumes "ev_fits ev"
  shows "decodeBody bad (encodeEvent ev) = Inr (ev_decoded ev)"
proof -
  note p = encodeEvent_parts [OF assms]
  let ?p = "encodeEvent ev" and ?k = "ev_Key ev" and ?v = "str_of (ev_Value ev)"
  have split: "?p = take 25 ?p @ ?k @ ?v" unfolding p(5) [symmetric] by simp
  have len: "length (take 25 ?p) = 25" by (simp add: headerBytes_def)
  have k: "slice 25 (length ?k) ?p = Some ?k" using slice_append [OF len, of ?k ?v] split by simp
  have "slice (25 + length ?k) (length ?v) ?p = Some ?v"
    using slice_append [of "take 25 ?p @ ?k" "25 + length ?k" ?v "[]"] split len by simp
  then show ?thesis
    using k by (cases "ev_Value ev") (auto simp: decodeBody_def Let_def p p(1) [simplified] ev_decoded_def)
qed

lemma decodeEvent_encode [codec_simps]: "ev_fits ev \<Longrightarrow> decodeEvent (encodeEvent ev) = Inr (ev_decoded ev)"
  by (simp add: decodeEvent_def decodeBody_encode)

lemma ReadFull_append: "length a = n \<Longrightarrow> ReadFull n (a @ r) = (Inr a, r)"
  by (simp add: ReadFull_def)

lemma decodeRecord_encode [codec_simps]:
  assumes "ev_fits ev"
  shows "decodeRecord (encodeRecord ev @ r) = (Inr (ev_decoded ev), r)"
proof -
  let ?n = "headerBytes + length (ev_Key ev) + length (str_of (ev_Value ev))"
  have "Uint32 (PutUint32 ?n) = ?n" using assms Uint32_Put [of ?n "[]"] by (simp add: ev_fits_def)
  moreover have "ReadFull ?n (encodeEvent ev @ r) = (Inr (encodeEvent ev), r)" by (rule ReadFull_append) simp
  moreover have "ReadFull 4 (PutUint32 ?n @ encodeEvent ev @ r) = (Inr (PutUint32 ?n), encodeEvent ev @ r)"
    by (rule ReadFull_append) simp
  ultimately show ?thesis using assms by (simp add: decodeRecord_def encodeRecord_def decodeBody_encode)
qed

lemma decodeRecord_torn:
  assumes "ev_fits ev" and "n < length (encodeRecord ev)"
  shows "decodeRecord (take n (encodeRecord ev)) = (Inl (if n = 0 then ErrEOF else ErrTornRecord), [])"
proof (cases "n < 4")
  case True
  then show ?thesis using assms(2) by (simp add: decodeRecord_def ReadFull_def)
next
  case False
  let ?n = "headerBytes + length (ev_Key ev) + length (str_of (ev_Value ev))"
  have u: "Uint32 (PutUint32 ?n) = ?n" using assms(1) Uint32_Put [of ?n "[]"] by (simp add: ev_fits_def)
  have t: "take n (encodeRecord ev) = PutUint32 ?n @ take (n - 4) (encodeEvent ev)"
    using False by (simp add: encodeRecord_def)
  have "ReadFull 4 (take n (encodeRecord ev)) = (Inr (PutUint32 ?n), take (n - 4) (encodeEvent ev))"
    unfolding t by (rule ReadFull_append) simp
  moreover have "ReadFull ?n (take (n - 4) (encodeEvent ev)) = (Inl (min (n - 4) ?n), [])"
    using assms(2) False by (simp add: ReadFull_def encodeRecord_def min_def)
  ultimately show ?thesis using False u by (simp add: decodeRecord_def)
qed

lemma readFrame_write [codec_simps]:
  assumes "length p \<le> maxFrame"
  shows "readFrame (writeFrame t p @ r) = (Inr (t, if p = [] then None else Some p), r)"
proof -
  let ?h = "char_of (unat t) # PutUint32 (length p)"
  have "length p < 2 ^ 32" using assms by (simp add: maxFrame_def)
  then have "Uint32 (PutUint32 (length p)) = length p" using Uint32_Put [of "length p" "[]"] by simp
  moreover have "ReadFull 5 (?h @ p @ r) = (Inr ?h, p @ r)" by (rule ReadFull_append) simp
  moreover have "(of_nat (of_char (char_of (unat t) :: char)) :: u8) = t"
    by (simp add: of_char_of unsigned_less [of t, where 'a = nat, simplified])
  ultimately show ?thesis
    using assms by (simp add: readFrame_def writeFrame_def Let_def ReadFull_append)
qed

lemma readU64_Bytes [codec_simps]: "readU64 (u64Bytes w) = Some w"
  using Uint64_Put [of w "[]"] by (simp add: readU64_def u64Bytes_def)

text \<open>Records and frames are framings of a stream.\<close>

interpretation recs: nonempty_framing encodeRecord decodeRecord ev_decoded ev_fits
  by unfold_locales (simp add: decodeRecord_encode, simp add: encodeRecord_def put_be_nonempty)

interpretation frames: nonempty_framing "\<lambda>(t, p). writeFrame t p" readFrame "\<lambda>(t, p). (t, if p = [] then None else Some p)"
  "\<lambda>(t, p). length p \<le> maxFrame"
  by unfold_locales (simp add: readFrame_write split: prod.splits, simp add: writeFrame_def split: prod.splits)

end
