(* ===== verification/Export_Run.thy ===== *)
theory Export_Run
  imports Cache_Props
begin

section \<open>Exporting a cache that is in use\<close>

text \<open>
  \<open>Export\<close> of internal/cache/cache.go locks one shard after the other, so other operations run between
  two shards, and it leaves out the items that are expired at the time it started. A snapshot and the first
  synchronisation of a replica are such an export followed by the events since its start. This theory shows that the two
  together give the contents of the cache, up to items that are expired.
\<close>

subsection \<open>Export, interleaved with operations\<close>

text \<open>Each block holds the operations that run before the next shard is exported, and the order of its range
  loop.\<close>

fun export_run ::
  "(string \<Rightarrow> u64) \<Rightarrow> int \<Rightarrow> nat \<Rightarrow> (cache_op list \<times> string list) list \<Rightarrow> cache \<Rightarrow>
     (string \<times> bytes \<times> int) list \<times> cache \<times> event list" where
  "export_run hash now i [] c = ([], c, [])"
| "export_run hash now i ((xs, order) # bs) c =
     (let (c1, evs1) = cache_run hash xs c;
          out = shard_export order now (c_shards c1 ! i);
          (outs, c2, evs2) = export_run hash now (Suc i) bs c1
      in (out @ outs, c2, evs1 @ evs2))"

text \<open>The clock does not go back behind the start of the export: an \<open>EXPIRE\<close> that runs after it reads a time that is
  not smaller.\<close>

fun expire_clock :: "int \<Rightarrow> cache_op \<Rightarrow> bool" where
  "expire_clock now (CExpire k ttl now1 now2) \<longleftrightarrow> now \<le> now2"
| "expire_clock now x \<longleftrightarrow> True"

fun export_ok :: "(string \<Rightarrow> u64) \<Rightarrow> int \<Rightarrow> nat \<Rightarrow> (cache_op list \<times> string list) list \<Rightarrow> cache \<Rightarrow> bool" where
  "export_ok hash now i [] c \<longleftrightarrow> i = length (c_shards c)"
| "export_ok hash now i ((xs, order) # bs) c \<longleftrightarrow>
     (let c1 = fst (cache_run hash xs c) in
      i < length (c_shards c) \<and> cache_run_ok hash xs c \<and> list_all (expire_clock now) xs \<and>
      visits order (c_shards c1 ! i) \<and> export_ok hash now (Suc i) bs c1)"

text \<open>An export is, for the cache, a run of the operations that come in between.\<close>

lemma export_is_run:
  "export_run hash now i bs c = (recs, c', evs) \<Longrightarrow> export_ok hash now i bs c \<Longrightarrow>
     cache_run hash (concat (map fst bs)) c = (c', evs) \<and> cache_run_ok hash (concat (map fst bs)) c"
  by (induction hash now i bs c arbitrary: recs evs rule: export_run.induct)
    (auto simp: run_steps_append run_ok_append split: prod.splits)

lemma export_quiet:
  "c_shards c = ps @ ss \<Longrightarrow> length orders = length ss \<Longrightarrow>
     export_run hash now (length ps) (map (Pair []) orders) c =
       (concat (map (\<lambda>(order, s). shard_export order now s) (zip orders ss)), c, [])"
proof (induction orders arbitrary: ss ps)
  case (Cons order orders)
  then obtain s ss' where ss: "ss = s # ss'" by (cases ss) simp_all
  with Cons.IH [of "ps @ [s]" ss'] Cons.prems show ?case by (simp add: nth_append)
qed simp

text \<open>When nothing else runs this is \<open>Export\<close>.\<close>

lemma export_run_Export:
  "length orders = length (c_shards c) \<Longrightarrow>
     export_run hash now 0 (map (Pair []) orders) c = (Export orders now c, c, [])"
  using export_quiet [of c "[]" "c_shards c" orders hash now] by (simp add: Export_def)

subsection \<open>What stays during a run\<close>

lemma exec_mask: "cache_exec hash x c = (c', res, evs) \<Longrightarrow> c_mask c' = c_mask c"
  by (cases x) (auto simp: SetTTL_def Get_def Delete_def Exists_def IncrBy_def Expire_def TTL_def FlushAll_def
      expiry_tick_def add_evictions_def add_expiration_def put_shard_def Let_def split: prod.splits if_splits sum.splits)

lemma step_frame:
  assumes "cache_op_ok x c" and "cache_step hash x c = (c', evs)"
  shows "length (c_shards c') = length (c_shards c)" and "shardIdx hash c' k = shardIdx hash c k"
proof -
  obtain res where ex: "cache_exec hash x c = (c', res, evs)" using assms(2) by (auto simp: cache_step_def split: prod.splits)
  show "length (c_shards c') = length (c_shards c)" using cache_exec_steps [OF assms(1) ex] by (simp add: list_all2_lengthD)
  show "shardIdx hash c' k = shardIdx hash c k" using exec_mask [OF ex] by (simp add: shardIdx_def)
qed

lemma run_frame:
  "cache_run_ok hash xs c \<Longrightarrow> cache_run hash xs c = (c', evs) \<Longrightarrow>
     length (c_shards c') = length (c_shards c) \<and> shardIdx hash c' k = shardIdx hash c k"
proof (induction xs arbitrary: c evs)
  case (Cons x xs)
  obtain c1 evs1 where st: "cache_step hash x c = (c1, evs1)" by (cases "cache_step hash x c")
  with Cons.prems have ok: "cache_op_ok x c" "cache_run_ok hash xs c1" by simp_all
  obtain evs2 where "cache_run hash xs c1 = (c', evs2)" using Cons.prems(2) st by (auto split: prod.splits)
  with Cons.IH [OF ok(2)] step_frame [OF ok(1) st] show ?case by simp
qed simp

subsection \<open>Items that the export left out\<close>

text \<open>\<open>w\<close> is what the follower holds of a key and \<open>v\<close> what the cache holds.\<close>

definition lags :: "int \<Rightarrow> item option \<Rightarrow> item option \<Rightarrow> bool" where
  "lags now v w \<longleftrightarrow> w = v \<or> (w = None \<and> (\<exists>it. v = Some it \<and> item_expired it now))"

lemma lags_refl [simp]: "lags now v v"
  by (simp add: lags_def)

lemma item_expired_mono: "item_expired it now \<Longrightarrow> now \<le> t \<Longrightarrow> item_expired it t"
  by (auto simp: item_expired_def)

definition live_item :: "int \<Rightarrow> item option \<Rightarrow> item option" where
  "live_item now v = (case v of None \<Rightarrow> None | Some it \<Rightarrow> if item_expired it now then None else Some it)"

lemma live_live_item: "live now m k = live_item now (m k)"
  by (simp add: live_def live_item_def)

lemma lags_live: "lags now v w \<Longrightarrow> now \<le> t \<Longrightarrow> live_item t w = live_item t v"
  by (auto simp: lags_def live_item_def dest: item_expired_mono)

lemma lags_live_item: "lags now v (live_item now v)"
  by (auto simp: lags_def live_item_def split: option.split)

text \<open>Only an \<open>EXPIRE\<close> of a live key emits an event that depends on what the key holds.\<close>

lemma exec_expire:
  assumes "cache_exec hash x c = (c', res, evs)" and "ev \<in> set evs" and "ev_Op ev = OpExpire"
  shows "\<exists>ttl now1 now2. x = CExpire (ev_Key ev) ttl now1 now2 \<and> live_item now2 (cache_kv hash c (ev_Key ev)) \<noteq> None \<and>
    evs = [ev]"
proof (cases x)
  case (CExpire k ttl now1 now2)
  then show ?thesis using assms
    by (auto simp: Expire_def shard_expire_def shardFor_item live_item_def ev_defs op_defs Let_def
        split: option.splits if_splits prod.splits)
next
  case (CTick orders now)
  then show ?thesis using assms by (auto simp: expiry_tick_def sweepExpired_def ev_defs op_defs Let_def case_prod_unfold)
qed (use assms in \<open>auto simp: SetTTL_def Get_def Delete_def Exists_def IncrBy_def TTL_def FlushAll_def shard_get_def
    shard_set_def shard_del_def shard_exists_def shard_ttl_def shard_incrBy_def shard_flush_def ev_defs op_defs
    Let_def split: option.splits if_splits prod.splits sum.splits\<close>)

lemma no_expire_const:
  "\<forall>ev \<in> set evs. ev_Key ev = k \<longrightarrow> ev_Op ev \<noteq> OpExpire \<Longrightarrow> fold (ev_on k) evs = id \<or> (\<exists>a. fold (ev_on k) evs = (\<lambda>_. a))"
proof (induction evs)
  case (Cons ev evs)
  have ev: "ev_on k ev = id \<or> (\<exists>a. ev_on k ev = (\<lambda>_. a))"
    using Cons.prems by (auto simp: ev_on_def fun_eq_iff)
  have "\<forall>ev \<in> set evs. ev_Key ev = k \<longrightarrow> ev_Op ev \<noteq> OpExpire" using Cons.prems by simp
  from Cons.IH [OF this] ev show ?case by (auto simp: comp_def)
qed simp

lemma lags_step:
  assumes c: "cache_inv hash c" and ok: "cache_op_ok x c" and st: "cache_step hash x c = (c', evs)"
    and clock: "expire_clock now x" and lag: "lags now (cache_kv hash c k) w"
  shows "lags now (cache_kv hash c' k) (fold (ev_on k) evs w)"
proof -
  obtain res where ex: "cache_exec hash x c = (c', res, evs)" using st by (auto simp: cache_step_def split: prod.splits)
  have kv: "cache_kv hash c' k = fold (ev_on k) evs (cache_kv hash c k)"
    using ca.step_contents [OF c ok st] by (simp add: replay_on)
  show ?thesis
  proof (cases "\<forall>ev \<in> set evs. ev_Key ev = k \<longrightarrow> ev_Op ev \<noteq> OpExpire")
    case True
    from no_expire_const [OF this] lag show ?thesis unfolding kv by auto
  next
    case False
    then obtain ev where ev: "ev \<in> set evs" "ev_Key ev = k" "ev_Op ev = OpExpire" by blast
    then obtain ttl now1 now2 where "x = CExpire k ttl now1 now2" "live_item now2 (cache_kv hash c k) \<noteq> None"
      using exec_expire [OF ex ev(1,3)] by auto
    then have "live_item now (cache_kv hash c k) = cache_kv hash c k"
      using clock item_expired_mono [of _ now now2] by (auto simp: live_item_def split: option.splits if_splits)
    then have "w = cache_kv hash c k"
      using lag by (auto simp: lags_def live_item_def split: option.splits if_splits)
    then show ?thesis by (simp add: kv)
  qed
qed

lemma lags_run:
  "cache_inv hash c \<Longrightarrow> cache_run_ok hash xs c \<Longrightarrow> cache_run hash xs c = (c', evs) \<Longrightarrow> list_all (expire_clock now) xs \<Longrightarrow>
     lags now (cache_kv hash c k) w \<Longrightarrow> lags now (cache_kv hash c' k) (fold (ev_on k) evs w)"
proof (induction xs arbitrary: c evs w)
  case (Cons x xs)
  obtain c1 evs1 where st: "cache_step hash x c = (c1, evs1)" by (cases "cache_step hash x c")
  with Cons.prems have ok: "cache_op_ok x c" "cache_run_ok hash xs c1" by simp_all
  obtain evs2 where run: "cache_run hash xs c1 = (c', evs2)" "evs = evs1 @ evs2"
    using Cons.prems(3) st by (auto split: prod.splits)
  have "lags now (cache_kv hash c1 k) (fold (ev_on k) evs1 w)"
    using Cons.prems by (intro lags_step [OF Cons.prems(1) ok(1) st]) simp_all
  with Cons.IH [OF ca.step_inv [OF Cons.prems(1) ok(1) st] ok(2) run(1)] Cons.prems(4) run(2) show ?case by simp
qed simp


subsection \<open>The exported records\<close>

definition rec_ev :: "string \<times> bytes \<times> int \<Rightarrow> event" where
  "rec_ev r = (case r of (k, v, e) \<Rightarrow> ev_set k v e)"

lemma rec_ev_on:
  "ev_on k (rec_ev (k', v, e)) w = (if k' = k then Some \<lparr>it_value = clone_bytes v, it_expireAt = e\<rparr> else w)"
  by (simp add: rec_ev_def ev_on_def ev_defs op_defs)

lemma shard_export_on:
  assumes "shard_inv s" and "distinct order"
  shows "fold (ev_on k) (map rec_ev (shard_export order now s)) w =
    (if k \<in> set order \<and> live_item now (map_of (sh_items s) k) \<noteq> None then map_of (sh_items s) k else w)"
  using assms(2)
proof (induction order arbitrary: w)
  case (Cons k' order)
  have clone: "clone_bytes (it_value it) = it_value it" if "map_of (sh_items s) k' = Some it" for it
    using assms(1) that unfolding shard_inv_def by blast
  have split: "shard_export (k' # order) now s = shard_export [k'] now s @ shard_export order now s"
    by (simp add: shard_export_def)
  have one: "fold (ev_on k) (map rec_ev (shard_export [k'] now s)) w =
      (if k' = k \<and> live_item now (map_of (sh_items s) k) \<noteq> None then map_of (sh_items s) k else w)"
    using clone by (auto simp: shard_export_def live_item_def rec_ev_on simp del: map_of_eq_Some_iff split: option.splits)
  show ?case using Cons unfolding split by (auto simp: one)
qed (simp add: shard_export_def)

lemma export_run_sound:
  "export_run hash now i bs c = (recs, c', evs) \<Longrightarrow> cache_inv hash c \<Longrightarrow> export_ok hash now i bs c \<Longrightarrow>
     cache_inv hash c' \<and> cache_kv hash c' = fold apply_ev evs (cache_kv hash c) \<and>
     (\<forall>w. lags now (cache_kv hash c k) w \<longrightarrow> lags now (cache_kv hash c' k) (fold (ev_on k) evs w))"
proof (induction bs arbitrary: i c recs evs)
  case (Cons b bs)
  obtain xs order where b: "b = (xs, order)" by (cases b)
  obtain c1 evs1 where run: "cache_run hash xs c = (c1, evs1)" by (cases "cache_run hash xs c")
  obtain recs2 evs2 where ex: "export_run hash now (Suc i) bs c1 = (recs2, c', evs2)" "evs = evs1 @ evs2"
    using Cons.prems(1) b run by (auto split: prod.splits)
  have ok: "cache_run_ok hash xs c" "list_all (expire_clock now) xs" "export_ok hash now (Suc i) bs c1"
    using Cons.prems(3) b run by (simp_all add: Let_def)
  note r = ca.run_replay [OF Cons.prems(2) ok(1) run]
  have c1: "cache_inv hash c1" using r by blast
  note IH = Cons.IH [OF ex(1) c1 ok(3)]
  then have lag: "lags now (cache_kv hash c1 k) w \<Longrightarrow> lags now (cache_kv hash c' k) (fold (ev_on k) evs2 w)" for w by blast
  have "lags now (cache_kv hash c' k) (fold (ev_on k) evs w)" if "lags now (cache_kv hash c k) w" for w
    using lag [OF lags_run [OF Cons.prems(2) ok(1) run ok(2) that]] unfolding ex(2) by simp
  then show ?case using IH r ex(2) by simp
qed simp

lemma export_run_snap:
  "export_run hash now i bs c = (recs, c', evs) \<Longrightarrow> cache_inv hash c \<Longrightarrow> export_ok hash now i bs c \<Longrightarrow>
     (if shardIdx hash c k < i then \<forall>w. fold (ev_on k) (map rec_ev recs) w = w
      else \<exists>m \<le> length evs. let v = fold (ev_on k) (take m evs) (cache_kv hash c k) in
        fold (ev_on k) (map rec_ev recs) None = live_item now v \<and>
        (\<forall>w. lags now v w \<longrightarrow> lags now (cache_kv hash c' k) (fold (ev_on k) (drop m evs) w)))"
proof (induction bs arbitrary: i c recs evs)
  case Nil
  then have "shardIdx hash c k < i" using shardIdx_less [of c hash k] by (simp add: cache_inv_def)
  with Nil show ?case by simp
next
  case (Cons b bs)
  obtain xs order where b: "b = (xs, order)" by (cases b)
  obtain c1 evs1 where run: "cache_run hash xs c = (c1, evs1)" by (cases "cache_run hash xs c")
  let ?s = "c_shards c1 ! i" and ?v = "cache_kv hash c1 k"
  obtain recs2 evs2 where ex: "export_run hash now (Suc i) bs c1 = (recs2, c', evs2)"
      "evs = evs1 @ evs2" "recs = shard_export order now ?s @ recs2"
    using Cons.prems(1) b run by (auto split: prod.splits)
  have ok: "i < length (c_shards c)" "cache_run_ok hash xs c" "visits order ?s" "export_ok hash now (Suc i) bs c1"
    using Cons.prems(3) b run by (simp_all add: Let_def)
  have c1: "cache_inv hash c1" "fold (ev_on k) evs1 (cache_kv hash c k) = ?v"
    using ca.run_replay [OF Cons.prems(2) ok(2) run] by (simp_all add: replay_on)
  have frame: "i < length (c_shards c1)" "shardIdx hash c1 k = shardIdx hash c k"
    using run_frame [OF ok(2) run] ok(1) by simp_all
  have s: "shard_inv ?s" using c1(1) frame(1) by (simp add: cache_inv_def shards_inv_def)
  have mem: "k \<in> set order \<longleftrightarrow> k \<in> mkeys (sh_items ?s)" "distinct order" using ok(3) by (simp_all add: visits_def)
  have out: "fold (ev_on k) (map rec_ev (shard_export order now ?s)) w =
      (if shardIdx hash c k = i then (if live_item now ?v \<noteq> None then ?v else w) else w)" for w
  proof (cases "shardIdx hash c k = i")
    case True
    then have "?v = map_of (sh_items ?s) k" using frame(2) by (simp add: cache_kv_def shardFor_def)
    then show ?thesis using True mem
      by (auto simp: shard_export_on [OF s mem(2)] live_item_def mkeys_iff simp del: map_of_eq_Some_iff split: option.splits)
  next
    case False
    then have "k \<notin> set order" using shard_key_idx [OF c1(1) frame(1)] mem(1) frame(2) by metis
    with False show ?thesis by (simp add: shard_export_on [OF s mem(2)])
  qed
  note IH = Cons.IH [OF ex(1) c1(1) ok(4), unfolded frame(2)]
  consider "shardIdx hash c k < i" | "shardIdx hash c k = i" | "i < shardIdx hash c k" by linarith
  then show ?case
  proof cases
    case 1
    then show ?thesis using IH by (simp add: ex(3) out)
  next
    case 2
    then have "fold (ev_on k) (map rec_ev recs) None = live_item now ?v"
      using IH by (simp add: ex(3) out) (simp add: live_item_def split: option.splits if_splits)
    moreover have "\<forall>w. lags now ?v w \<longrightarrow> lags now (cache_kv hash c' k) (fold (ev_on k) evs2 w)"
      using export_run_sound [OF ex(1) c1(1) ok(4)] by blast
    ultimately show ?thesis using 2
      by (simp add: Let_def ex(2)) (intro exI [of _ "length evs1"], simp add: c1(2))
  next
    case 3
    then obtain m where "m \<le> length evs2" "fold (ev_on k) (map rec_ev recs2) None = live_item now (fold (ev_on k) (take m evs2) ?v)"
        "\<forall>w. lags now (fold (ev_on k) (take m evs2) ?v) w \<longrightarrow> lags now (cache_kv hash c' k) (fold (ev_on k) (drop m evs2) w)"
      using IH by (auto simp: Let_def)
    with 3 show ?thesis
      by (simp add: Let_def ex(2,3) out) (intro exI [of _ "length evs1 + m"], simp add: c1(2))
  qed
qed


subsection \<open>A snapshot and the events since its start\<close>

lemma replaces_lags:
  assumes "replaces f" and "f v = v"
  shows "lags now v (f (live_item now v))"
  using assms by (auto simp: replaces_def lags_def live_item_def split: option.splits)

text \<open>Events up to the number \<open>n\<close> had been delivered when the export started, possibly fewer than had been emitted.\<close>

lemma export_catch_up:
  assumes c: "cache_inv hash c" and ok1: "cache_run_ok hash xs c" and run1: "cache_run hash xs c = (c1, evs1)"
    and n: "n \<le> length evs1"
    and ex: "export_run hash now 0 bs c1 = (recs, c2, evs2)" and exok: "export_ok hash now 0 bs c1"
    and ok3: "cache_run_ok hash ys c2" and clock: "list_all (expire_clock now) ys"
    and run3: "cache_run hash ys c2 = (c3, evs3)"
  shows "lags now (cache_kv hash c3 k) (fold (ev_on k) (map rec_ev recs @ drop n (evs1 @ evs2 @ evs3)) None)"
proof -
  have c1: "cache_inv hash c1" "cache_kv hash c1 k = fold (ev_on k) evs1 (cache_kv hash c k)"
    using ca.run_replay [OF c ok1 run1] by (simp_all add: replay_on)
  obtain m where m: "m \<le> length evs2"
      "fold (ev_on k) (map rec_ev recs) None = live_item now (fold (ev_on k) (take m evs2) (cache_kv hash c1 k))"
      "\<forall>w. lags now (fold (ev_on k) (take m evs2) (cache_kv hash c1 k)) w \<longrightarrow>
         lags now (cache_kv hash c2 k) (fold (ev_on k) (drop m evs2) w)"
    using export_run_snap [OF ex c1(1) exok, of k] by (auto simp: Let_def)
  let ?b = "drop n evs1 @ take m evs2"
  let ?v = "fold (ev_on k) (take m evs2) (cache_kv hash c1 k)"
  have "?v = fold (ev_on k) ?b (fold (ev_on k) (take n evs1) (cache_kv hash c k))"
    unfolding c1(2) by (metis append_take_drop_id comp_apply fold_append)
  then have "fold (ev_on k) ?b ?v = ?v" using replaces_idem [OF replaces_replay] by metis
  from replaces_lags [OF replaces_replay this] m(3)
  have "lags now (cache_kv hash c2 k) (fold (ev_on k) (drop m evs2) (fold (ev_on k) ?b (live_item now ?v)))" by blast
  moreover have "cache_inv hash c2" using export_run_sound [OF ex c1(1) exok] by blast
  ultimately have "lags now (cache_kv hash c3 k)
      (fold (ev_on k) evs3 (fold (ev_on k) (drop m evs2) (fold (ev_on k) ?b (live_item now ?v))))"
    using lags_run [OF _ ok3 run3 clock] by blast
  moreover have "fold (ev_on k) (drop m evs2) (fold (ev_on k) (take m evs2) u) = fold (ev_on k) evs2 u" for u
    by (metis append_take_drop_id comp_apply fold_append)
  ultimately show ?thesis using n m(2) by simp
qed

end
