(* ===== verification/Follow.thy ===== *)
theory Follow
  imports Export_Run Events
begin

section \<open>Followers of a cache\<close>

text \<open>
  What recovery (internal/persistence) and a replica (internal/replication) have in common: they apply the
  records of an export and then the numbered events since its start, with \<open>ApplyEvent\<close>.
\<close>

text \<open>The orders of the range loops, per event.\<close>

definition with_orders :: "(nat \<Rightarrow> string list list) \<Rightarrow> event list \<Rightarrow> (event \<times> string list list) list" where
  "with_orders ord evs = zip evs (map ord [0..<length evs])"

lemma map_fst_with_orders [simp]: "map fst (with_orders ord evs) = evs"
  by (simp add: with_orders_def)

lemma numbered_filter:
  assumes "numbered evs" and "length evs < 2 ^ 64" and "n \<le> length evs" and "m \<le> n"
  shows "filter (\<lambda>ev. of_nat n < ev_Seq ev) (drop m evs) = drop n evs"
proof -
  have lt: "(of_nat n :: u64) < ev_Seq (evs ! i) \<longleftrightarrow> n \<le> i" if "i < length evs" for i
  proof -
    have u: "m < 2 ^ 64 \<Longrightarrow> unat (of_nat m :: u64) = m" for m
      by (simp add: unsigned_of_nat take_bit_nat_eq_self)
    have "unat (of_nat n :: u64) = n" "unat (of_nat (Suc i) :: u64) = Suc i"
      using assms(2,3) that by (intro u; linarith)+
    then show ?thesis using assms(1) that by (simp add: numbered_def word_less_nat_alt less_Suc_eq_le del: of_nat_Suc)
  qed
  have "filter (\<lambda>ev. of_nat n < ev_Seq ev) (take (n - m) (drop m evs)) = []"
    using lt assms(3,4) by (auto simp: filter_empty_conv in_set_conv_nth)
  moreover have "filter (\<lambda>ev. of_nat n < ev_Seq ev) (drop n evs) = drop n evs"
    using lt by (auto simp: filter_id_conv in_set_conv_nth)
  moreover have "drop m evs = take (n - m) (drop m evs) @ drop n evs"
    using append_take_drop_id [of "n - m" "drop m evs"] assms(4) by simp
  ultimately show ?thesis by (metis append_Nil filter_append)
qed

lemma ev_on_unnumbered: "fold (ev_on k) (map unnumbered evs) = fold (ev_on k) evs"
proof -
  have "ev_on k (unnumbered ev) = ev_on k ev" for ev by (rule ext) (simp add: ev_on_def unnumbered_def)
  then show ?thesis by (simp add: fold_map comp_def)
qed

lemma known_unnumbered: "map unnumbered xs = map unnumbered ys \<Longrightarrow> \<forall>ev \<in> set ys. known_op ev \<Longrightarrow> \<forall>ev \<in> set xs. known_op ev"
proof
  have u: "known_op (unnumbered ev) = known_op ev" for ev by (simp add: known_op_def unnumbered_def)
  fix ev assume eq: "map unnumbered xs = map unnumbered ys" and ys: "\<forall>ev \<in> set ys. known_op ev" and "ev \<in> set xs"
  then have "unnumbered ev \<in> set (map unnumbered ys)" unfolding eq [symmetric] by simp
  then show "known_op ev" using ys u by (metis (no_types, lifting) imageE list.set_map)
qed

lemma export_known: "export_run hash now i bs c = (recs, c', evs) \<Longrightarrow> \<forall>ev \<in> set evs. known_op ev"
proof (induction bs arbitrary: i c recs evs)
  case (Cons b bs)
  then show ?case by (cases b) (auto split: prod.splits dest: run_known)
qed simp

lemma New_unlimited:
  assumes "cache_New uni rs cfg = Some (Inr r)" and "cfg_MaxEntries cfg \<le> 0" and "cfg_MaxMemory cfg \<le> 0"
  shows "\<forall>s \<in> set (c_shards r). unlimited s"
  using cache_New_props(7) [OF assms(1)] assms(2,3) by (auto simp: in_set_conv_nth unlimited_def newShard_def perShard_def)

text \<open>A fresh cache without limits that applies events holds their replay.\<close>

lemma fresh_replay:
  assumes new: "cache_New uni rs cfg = Some (Inr r)" and "cfg_MaxEntries cfg \<le> 0" and "cfg_MaxMemory cfg \<le> 0"
    and "apply_all_ok hash (with_orders ord evs) r" and "\<forall>ev \<in> set evs. known_op ev"
  shows "cache_kv hash (apply_all hash (with_orders ord evs) r) k = fold (ev_on k) evs None"
proof -
  note r = cache_New_props(1,2) [OF new, of hash]
  note u = New_unlimited [OF assms(1-3)]
  moreover have "fst ` set (with_orders ord evs) = set evs" using map_fst_with_orders set_map by metis
  ultimately show ?thesis
    using apply_all_sound [OF r(1) _ assms(4)] assms(5) by (simp add: r(2) replay_on)
qed

text \<open>A follower that holds the replay of an export and of the events that are numbered above the number at its start
  agrees with the cache on all items that are not expired.\<close>

lemma follow_live:
  assumes c: "cache_inv hash c" and ok1: "cache_run_ok hash xs c" and run1: "cache_run hash xs c = (c1, evs1)"
    and n: "n \<le> length evs1"
    and ex: "export_run hash now 0 bs c1 = (recs, c2, evs2)" and exok: "export_ok hash now 0 bs c1"
    and ok3: "cache_run_ok hash ys c2" and clock: "list_all (expire_clock now) ys"
    and run3: "cache_run hash ys c2 = (c3, evs3)"
    and log: "map unnumbered log = map unnumbered (evs1 @ evs2 @ evs3)"
    and kv: "\<And>k. kv k = fold (ev_on k) (map rec_ev recs @ drop n log) None" and t: "now \<le> t"
  shows "live t kv = live t (cache_kv hash c3)"
proof
  fix k
  have "map unnumbered (drop n log) = map unnumbered (drop n (evs1 @ evs2 @ evs3))" using log by (simp only: drop_map [symmetric])
  then have "fold (ev_on k) (drop n log) = fold (ev_on k) (drop n (evs1 @ evs2 @ evs3))" using ev_on_unnumbered by metis
  then have "kv k = fold (ev_on k) (map rec_ev recs @ drop n (evs1 @ evs2 @ evs3)) None" by (simp only: kv fold_append comp_apply)
  with export_catch_up [OF c ok1 run1 n ex exok ok3 clock run3, of k] have "lags now (cache_kv hash c3 k) (kv k)" by (simp only:)
  from lags_live [OF this t] show "live t kv k = live t (cache_kv hash c3) k" by (simp only: live_live_item)
qed

lemma follow_known:
  assumes "cache_run hash xs c = (c1, evs1)" and "export_run hash now 0 bs c1 = (recs, c2, evs2)"
    and "cache_run hash ys c2 = (c3, evs3)" and "map unnumbered log = map unnumbered (evs1 @ evs2 @ evs3)"
  shows "\<forall>ev \<in> set (map rec_ev recs @ log). known_op ev"
proof -
  have "\<forall>ev \<in> set (evs1 @ evs2 @ evs3). known_op ev"
    using run_known [OF assms(1)] run_known [OF assms(3)] export_known [OF assms(2)] by auto
  from known_unnumbered [OF assms(4) this] show ?thesis by (auto simp: rec_ev_def ev_defs known_op_def split: prod.splits)
qed

end
