(* ===== verification/Persist.thy ===== *)
theory Persist
  imports Codec Follow
begin

section \<open>Snapshots and the append-only log\<close>

text \<open>
  internal/persistence: the snapshot file, the append-only log with its buffered writer, compaction, and the
  manager that recovers a cache from the two. The disk holds the two files and the temporary files that replace them.
  Bytes of the log that were written but not synced may be lost in a crash: the log survives as a prefix that holds at least
  the synced bytes. A rename is atomic. What the file system answers to the calls of \<open>WriteSnapshot\<close> and
  \<open>Compact\<close> is an argument (\<open>outcome\<close>), so that every early return and a crash in the middle are
  branches.
\<close>

subsection \<open>The disk and the open log\<close>

record disk =
  dk_snap :: "string option"
  dk_snap_tmp :: "string option"
  dk_aof :: "string option"
  dk_aof_tmp :: "string option"
  dk_durable :: nat

record AOF =
  ah_open :: bool
  ah_buf :: string
  ah_err :: bool
  ah_policy :: string

definition SyncNo :: string where "SyncNo = ''no''"
definition SyncEverySec :: string where "SyncEverySec = ''everysec''"
definition SyncAlways :: string where "SyncAlways = ''always''"

definition aof_bytes :: "disk \<Rightarrow> string" where
  "aof_bytes d = (case dk_aof d of None \<Rightarrow> [] | Some s \<Rightarrow> s)"

definition OpenAOF :: "string \<Rightarrow> disk \<Rightarrow> disk \<times> AOF" where
  "OpenAOF pol d =
     (d\<lparr>dk_aof := Some (aof_bytes d)\<rparr>, \<lparr>ah_open = True, ah_buf = [], ah_err = False, ah_policy = pol\<rparr>)"

text \<open>\<open>bufio.Writer\<close> of 64 KiB: a write error sticks. A write to a closed file is an error.\<close>

definition bufSize :: nat where
  "bufSize = 64 * 1024"

definition bufio_Flush :: "disk \<times> AOF \<Rightarrow> (disk \<times> AOF) \<times> bool" where
  "bufio_Flush x =
     (let (d, a) = x in
      if ah_err a then ((d, a), False)
      else if ah_buf a = [] then ((d, a), True)
      else if ah_open a then ((d\<lparr>dk_aof := Some (aof_bytes d @ ah_buf a)\<rparr>, a\<lparr>ah_buf := []\<rparr>), True)
      else ((d, a\<lparr>ah_err := True\<rparr>), False))"

function bufio_Write :: "string \<Rightarrow> disk \<times> AOF \<Rightarrow> (disk \<times> AOF) \<times> bool" where
  "bufio_Write p (d, a) =
     (if length p > bufSize - length (ah_buf a) \<and> \<not> ah_err a then
        (if ah_buf a = [] then
           (if ah_open a then bufio_Write [] (d\<lparr>dk_aof := Some (aof_bytes d @ p)\<rparr>, a)
            else bufio_Write p (d, a\<lparr>ah_err := True\<rparr>))
         else
           (let n = bufSize - length (ah_buf a);
                x = fst (bufio_Flush (d, a\<lparr>ah_buf := ah_buf a @ take n p\<rparr>))
            in bufio_Write (drop n p) x))
      else if ah_err a then ((d, a), False)
      else ((d, a\<lparr>ah_buf := ah_buf a @ p\<rparr>), True))"
  by pat_completeness auto
termination
  by (relation "measure (\<lambda>(p, d, a). length p + (if ah_err a then 0 else 1 + length (ah_buf a)))")
    (auto simp: bufio_Flush_def bufSize_def Let_def)

declare bufio_Write.simps [simp del]

definition file_Sync :: "disk \<times> AOF \<Rightarrow> (disk \<times> AOF) \<times> bool" where
  "file_Sync x =
     (let (d, a) = x in if ah_open a then ((d\<lparr>dk_durable := length (aof_bytes d)\<rparr>, a), True) else (x, False))"

text \<open>\<open>if err := a.w.Flush(); err != nil { return err }; return a.f.Sync()\<close>\<close>

definition AOF_Sync :: "disk \<times> AOF \<Rightarrow> (disk \<times> AOF) \<times> bool" where
  "AOF_Sync x = (let (x1, ok) = bufio_Flush x in if \<not> ok then (x1, False) else file_Sync x1)"

definition Append :: "event \<Rightarrow> disk \<times> AOF \<Rightarrow> (disk \<times> AOF) \<times> bool" where
  "Append ev x =
     (let (x1, ok) = bufio_Write (encodeRecord ev) x in
      if \<not> ok then (x1, False)
      else if ah_policy (snd x1) = SyncAlways then AOF_Sync x1
      else (x1, True))"

text \<open>A tick of \<open>everySec\<close> ignores the errors.\<close>

definition everySec_tick :: "disk \<times> AOF \<Rightarrow> disk \<times> AOF" where
  "everySec_tick x = fst (file_Sync (fst (bufio_Flush x)))"

definition AOF_Close :: "disk \<times> AOF \<Rightarrow> (disk \<times> AOF) \<times> bool" where
  "AOF_Close x =
     (let (x1, ok) = AOF_Sync x in
      if \<not> ok then (x1, False) else ((fst x1, (snd x1)\<lparr>ah_open := False\<rparr>), True))"

subsection \<open>Reading\<close>

lemma ReadFull_shorter: "ReadFull n inp = (x, r) \<Longrightarrow> length r \<le> length inp"
  by (auto simp: ReadFull_def split: if_splits)

lemma decodeRecord_shorter: "decodeRecord inp = (Inr ev, r) \<Longrightarrow> length r < length inp"
  by (auto simp: decodeRecord_def ReadFull_def Let_def split: if_splits)

text \<open>The events that the loop hands over, and the error that ends it.\<close>

function read_loop :: "string \<Rightarrow> event list \<times> codec_error" where
  "read_loop inp =
     (case decodeRecord inp of
        (Inl e, r) \<Rightarrow> ([], e)
      | (Inr ev, r) \<Rightarrow> (let (evs, e) = read_loop r in (ev # evs, e)))"
  by pat_completeness auto
termination
  by (relation "measure length") (auto dest: decodeRecord_shorter [OF sym])

declare read_loop.simps [simp del]

datatype persist_error = ErrBadSnapshot | PersistPanic

definition ReadAOF :: "string option \<Rightarrow> persist_error + event list" where
  "ReadAOF f =
     (case f of
        None \<Rightarrow> Inr []
      | Some s \<Rightarrow> (let (evs, e) = read_loop s in if e = CodecPanic then Inl PersistPanic else Inr evs))"

definition readRecords :: "string option \<Rightarrow> u64 \<Rightarrow> persist_error + event list" where
  "readRecords f minSeqExclusive =
     (case ReadAOF f of Inl e \<Rightarrow> Inl e | Inr evs \<Rightarrow> Inr (filter (\<lambda>ev. ev_Seq ev > minSeqExclusive) evs))"

definition snapMagic :: string where
  "snapMagic = ''DCSNAP1'' @ [CHR 0x0A]"

definition ReadSnapshot :: "string option \<Rightarrow> persist_error + u64 \<times> event list" where
  "ReadSnapshot f =
     (case f of
        None \<Rightarrow> Inr (0, [])
      | Some s \<Rightarrow>
          (case ReadFull 16 s of
             (Inl n, r) \<Rightarrow> Inl ErrBadSnapshot
           | (Inr hdr, r) \<Rightarrow>
               if take 8 hdr \<noteq> snapMagic then Inl ErrBadSnapshot
               else
                 (let (evs, e) = read_loop r in
                  if e = CodecPanic then Inl PersistPanic else Inr (Uint64 (drop 8 hdr), evs))))"

subsection \<open>Writing a snapshot, and compaction\<close>

definition snap_record :: "string \<times> bytes \<times> int \<Rightarrow> string" where
  "snap_record r = (case r of (k, v, e) \<Rightarrow> encodeRecord (ev_set k v e))"

definition snapshot_bytes :: "u64 \<Rightarrow> (string \<times> bytes \<times> int) list \<Rightarrow> string" where
  "snapshot_bytes startSeq recs = snapMagic @ PutUint64 startSeq @ concat (map snap_record recs)"

datatype outcome = Done | NotCreated | Failed | Crashed nat

text \<open>A failure after the temporary file was created removes it; a crash leaves what was written of it.\<close>

definition WriteSnapshot ::
  "outcome \<Rightarrow> u64 \<Rightarrow> (string \<times> bytes \<times> int) list \<Rightarrow> disk \<Rightarrow> disk \<times> u64 option" where
  "WriteSnapshot out startSeq recs d =
     (case out of
        Done \<Rightarrow> (d\<lparr>dk_snap := Some (snapshot_bytes startSeq recs), dk_snap_tmp := None\<rparr>, Some startSeq)
      | NotCreated \<Rightarrow> (d, None)
      | Failed \<Rightarrow> (d\<lparr>dk_snap_tmp := None\<rparr>, None)
      | Crashed n \<Rightarrow> (d\<lparr>dk_snap_tmp := Some (take n (snapshot_bytes startSeq recs))\<rparr>, None))"

text \<open>Where \<open>Compact\<close> stops after its first \<open>Flush\<close> and \<open>Sync\<close>: not at all; when it creates the
  temporary file, or while it writes it (and then removes it); when it closes the log; at the rename; when it opens the new log; or in a crash after \<open>n\<close>
  bytes of the temporary file.\<close>

datatype compact_outcome = CDone | CFailCreate | CFailTmp | CFailClose | CFailRename | CFailReopen | CCrash nat

definition Compact :: "compact_outcome \<Rightarrow> u64 \<Rightarrow> disk \<times> AOF \<Rightarrow> (disk \<times> AOF) \<times> bool" where
  "Compact out minSeqExclusive x =
     (let (x1, ok) = AOF_Sync x; (d, a) = x1 in
      if \<not> ok then (x1, False)
      else
        (case readRecords (dk_aof d) minSeqExclusive of
           Inl e \<Rightarrow> (x1, False)
         | Inr kept \<Rightarrow>
             (let new = concat (map encodeRecord kept);
                  renamed = d\<lparr>dk_aof := Some new, dk_aof_tmp := None, dk_durable := length new\<rparr>
              in case out of
                   CDone \<Rightarrow> ((renamed, a\<lparr>ah_buf := [], ah_err := False\<rparr>), True)
                 | CFailCreate \<Rightarrow> ((d, a), False)
                 | CFailTmp \<Rightarrow> ((d\<lparr>dk_aof_tmp := None\<rparr>, a), False)
                 | CFailClose \<Rightarrow> ((d\<lparr>dk_aof_tmp := Some new\<rparr>, a\<lparr>ah_open := False\<rparr>), False)
                 | CFailRename \<Rightarrow> ((d\<lparr>dk_aof_tmp := Some new\<rparr>, a\<lparr>ah_open := False\<rparr>), False)
                 | CFailReopen \<Rightarrow> ((renamed, a\<lparr>ah_open := False\<rparr>), False)
                 | CCrash n \<Rightarrow> ((d\<lparr>dk_aof_tmp := Some (take n new)\<rparr>, a), False))))"

subsection \<open>The manager\<close>

text \<open>\<open>Recover\<close>: the snapshot, then the records of the log that are newer; \<open>ord\<close> gives the orders of the range loops
  of the events' application.\<close>

definition recovered_events :: "disk \<Rightarrow> persist_error + event list" where
  "recovered_events d =
     (case ReadSnapshot (dk_snap d) of
        Inl e \<Rightarrow> Inl e
      | Inr (startSeq, evs1) \<Rightarrow>
          (case ReadAOF (dk_aof d) of
             Inl e \<Rightarrow> Inl e
           | Inr evs2 \<Rightarrow> Inr (evs1 @ filter (\<lambda>ev. ev_Seq ev > startSeq) evs2)))"

definition Recover ::
  "(string \<Rightarrow> u64) \<Rightarrow> (nat \<Rightarrow> string list list) \<Rightarrow> string \<Rightarrow> disk \<Rightarrow> cache \<Rightarrow> persist_error + cache \<times> disk \<times> AOF" where
  "Recover hash ord pol d c =
     (case recovered_events d of
        Inl e \<Rightarrow> Inl e
      | Inr evs \<Rightarrow> Inr (apply_all hash (with_orders ord evs) c, OpenAOF (if pol = [] then SyncEverySec else pol) d))"

text \<open>\<open>Snapshot\<close>, given the number that \<open>Seq\<close> returns and what \<open>Export\<close> hands over.\<close>

definition Snapshot ::
  "outcome \<Rightarrow> compact_outcome \<Rightarrow> u64 \<Rightarrow> (string \<times> bytes \<times> int) list \<Rightarrow> disk \<times> AOF \<Rightarrow> (disk \<times> AOF) \<times> bool" where
  "Snapshot out cout startSeq recs x =
     (case WriteSnapshot out startSeq recs (fst x) of
        (d, None) \<Rightarrow> ((d, snd x), False)
      | (d, Some s) \<Rightarrow> Compact cout s (d, snd x))"

definition Manager_Close :: "disk \<times> AOF option \<Rightarrow> (disk \<times> AOF option) \<times> bool" where
  "Manager_Close x =
     (case x of
        (d, None) \<Rightarrow> ((d, None), True)
      | (d, Some a) \<Rightarrow> (let ((d1, a1), ok) = AOF_Close (d, a) in ((d1, Some a1), ok)))"

end
