(* ===== verification/Manager.thy ===== *)
theory Manager
  imports Persist
begin

section \<open>The persistence manager\<close>

text \<open>
  internal/persistence/manager.go. A manager holds its configuration, the files (the disk, in place of the paths of the snapshot and of
  the log), the open log once it has recovered, whether it has been given a cache, and the number of appends that failed. The
  cache and its events stay outside: \<open>manager_onEvent\<close> is what \<open>Recover\<close> subscribes to them, and \<open>Manager_Snapshot\<close> gets the number that
  \<open>Seq\<close> returns and the records that \<open>Export\<close> hands over. The file system answers what the arguments say.
\<close>

record Manager =
  ma_Sync :: string
  ma_SnapshotInterval :: int
  ma_disk :: disk
  ma_aof :: "AOF option"
  ma_cache :: bool
  ma_stop :: bool
  ma_appendErrs :: u64

text \<open>\<open>mkdir\<close> says whether \<open>MkdirAll\<close> succeeds.\<close>

definition Manager_Open :: "bool \<Rightarrow> string \<Rightarrow> int \<Rightarrow> disk \<Rightarrow> Manager option" where
  "Manager_Open mkdir sync interval d =
     (let sync1 = (if sync = [] then SyncEverySec else sync) in
      if \<not> mkdir then None
      else Some \<lparr>ma_Sync = sync1, ma_SnapshotInterval = interval, ma_disk = d, ma_aof = None, ma_cache = False, ma_stop = False,
        ma_appendErrs = 0\<rparr>)"

text \<open>\<open>Recover\<close> also says whether it starts the loop of periodic snapshots.\<close>

definition Manager_Recover ::
  "(string \<Rightarrow> u64) \<Rightarrow> (nat \<Rightarrow> string list list) \<Rightarrow> cache \<Rightarrow> Manager \<Rightarrow> persist_error + cache \<times> Manager \<times> bool" where
  "Manager_Recover hash ord c m =
     (case Recover hash ord (ma_Sync m) (ma_disk m) c of
        Inl e \<Rightarrow> Inl e
      | Inr (c1, d, a) \<Rightarrow> Inr (c1, m\<lparr>ma_disk := d, ma_aof := Some a, ma_cache := True\<rparr>, 0 < ma_SnapshotInterval m))"

definition manager_onEvent :: "event \<Rightarrow> Manager \<Rightarrow> Manager" where
  "manager_onEvent ev m =
     (case ma_aof m of
        None \<Rightarrow> m
      | Some a \<Rightarrow>
          (case Append ev (ma_disk m, a) of
             ((d, a1), ok) \<Rightarrow>
               m\<lparr>ma_disk := d, ma_aof := Some a1, ma_appendErrs := (if ok then ma_appendErrs m else ma_appendErrs m + 1)\<rparr>))"

text \<open>\<open>Snapshot\<close> in two steps, between which the dispatcher may append to the log: the snapshot file is written, then the log
  is compacted.\<close>

definition snapshot_write :: "outcome \<Rightarrow> u64 \<Rightarrow> (string \<times> bytes \<times> int) list \<Rightarrow> Manager \<Rightarrow> Manager \<times> u64 option" where
  "snapshot_write out startSeq recs m =
     (let (d, r) = WriteSnapshot out startSeq recs (ma_disk m) in (m\<lparr>ma_disk := d\<rparr>, r))"

definition snapshot_compact :: "compact_outcome \<Rightarrow> u64 \<Rightarrow> Manager \<Rightarrow> Manager \<times> bool" where
  "snapshot_compact cout startSeq m =
     (case ma_aof m of
        None \<Rightarrow> (m, False)
      | Some a \<Rightarrow>
          (case Compact cout startSeq (ma_disk m, a) of ((d, a1), ok) \<Rightarrow> (m\<lparr>ma_disk := d, ma_aof := Some a1\<rparr>, ok)))"

definition Manager_Snapshot ::
  "outcome \<Rightarrow> compact_outcome \<Rightarrow> u64 \<Rightarrow> (string \<times> bytes \<times> int) list \<Rightarrow> Manager \<Rightarrow> Manager \<times> bool" where
  "Manager_Snapshot out cout startSeq recs m =
     (if \<not> ma_cache m then (m, True)
      else
        (case snapshot_write out startSeq recs m of
           (m1, None) \<Rightarrow> (m1, False)
         | (m1, Some s) \<Rightarrow> snapshot_compact cout s m1))"

text \<open>A turn of \<open>snapshotLoop\<close>: a tick of the timer, unless the manager is stopped; an error is only logged. The second
  component says whether there is another turn.\<close>

definition snapshotLoop_turn ::
  "outcome \<Rightarrow> compact_outcome \<Rightarrow> u64 \<Rightarrow> (string \<times> bytes \<times> int) list \<Rightarrow> Manager \<Rightarrow> Manager \<times> bool" where
  "snapshotLoop_turn out cout startSeq recs m =
     (if ma_stop m then (m, False) else (fst (Manager_Snapshot out cout startSeq recs m), True))"

definition AppendErrors :: "Manager \<Rightarrow> u64" where
  "AppendErrors m = ma_appendErrs m"

text \<open>The everysec goroutine of the log runs for the policy of that name only.\<close>

definition manager_tick :: "Manager \<Rightarrow> Manager" where
  "manager_tick m =
     (case ma_aof m of
        None \<Rightarrow> m
      | Some a \<Rightarrow>
          if ah_policy a = SyncEverySec
          then (case everySec_tick (ma_disk m, a) of (d, a1) \<Rightarrow> m\<lparr>ma_disk := d, ma_aof := Some a1\<rparr>)
          else m)"

definition manager_Close :: "Manager \<Rightarrow> Manager \<times> bool" where
  "manager_Close m =
     (case Manager_Close (ma_disk m, ma_aof m) of ((d, a), ok) \<Rightarrow> (m\<lparr>ma_disk := d, ma_aof := a, ma_stop := True\<rparr>, ok))"

lemma Manager_Snapshot_Snapshot:
  assumes "ma_cache m" and "ma_aof m = Some a"
  shows "Manager_Snapshot out cout s recs m =
    (case Snapshot out cout s recs (ma_disk m, a) of ((d, a1), ok) \<Rightarrow> (m\<lparr>ma_disk := d, ma_aof := Some a1\<rparr>, ok))"
  using assms
  by (auto simp: Manager_Snapshot_def Snapshot_def snapshot_write_def snapshot_compact_def Let_def split: prod.splits option.splits)

end
