(* ===== verification/Persist_Inv.thy ===== *)
theory Persist_Inv
  imports Persist
begin

section \<open>What the files hold\<close>

text \<open>
  Lemmas on the files of internal/persistence: the log and its buffer hold the encoded events, a prefix of the log
  is read back as a prefix of the events, and recovery replays the snapshot and the newer events.
\<close>

subsection \<open>The writer\<close>

definition log_open :: "disk \<times> AOF \<Rightarrow> bool" where
  "log_open x \<longleftrightarrow> ah_open (snd x) \<and> \<not> ah_err (snd x) \<and> length (ah_buf (snd x)) \<le> bufSize"

definition log_bytes :: "disk \<times> AOF \<Rightarrow> string" where
  "log_bytes x = aof_bytes (fst x) @ ah_buf (snd x)"

text \<open>What the writer does not touch.\<close>

definition same_rest :: "disk \<times> AOF \<Rightarrow> disk \<times> AOF \<Rightarrow> bool" where
  "same_rest x y \<longleftrightarrow> dk_snap (fst y) = dk_snap (fst x) \<and> dk_snap_tmp (fst y) = dk_snap_tmp (fst x) \<and>
     dk_aof_tmp (fst y) = dk_aof_tmp (fst x) \<and> ah_policy (snd y) = ah_policy (snd x) \<and>
     (\<exists>s. aof_bytes (fst y) = aof_bytes (fst x) @ s)"

lemma same_rest_refl [simp]: "same_rest x x"
  by (simp add: same_rest_def)

lemma same_rest_trans: "same_rest x y \<Longrightarrow> same_rest y z \<Longrightarrow> same_rest x z"
  by (auto simp: same_rest_def)

lemma Flush_open:
  assumes "log_open x"
  shows "\<exists>y. bufio_Flush x = (y, True) \<and> log_open y \<and> log_bytes y = log_bytes x \<and> ah_buf (snd y) = [] \<and> same_rest x y \<and>
    dk_durable (fst y) = dk_durable (fst x)"
  using assms by (cases x) (auto simp: bufio_Flush_def log_open_def log_bytes_def same_rest_def aof_bytes_def)

lemma Write_open:
  "log_open x \<Longrightarrow> \<exists>y. bufio_Write p x = (y, True) \<and> log_open y \<and> log_bytes y = log_bytes x @ p \<and> same_rest x y \<and>
    dk_durable (fst y) = dk_durable (fst x)"
proof (induction p x rule: bufio_Write.induct)
  case (1 p d a)
  have a: "ah_open a" "\<not> ah_err a" "length (ah_buf a) \<le> bufSize" using "1.prems" by (simp_all add: log_open_def)
  consider "length p \<le> bufSize - length (ah_buf a)" | "length p > bufSize - length (ah_buf a)" "ah_buf a = []"
    | "length p > bufSize - length (ah_buf a)" "ah_buf a \<noteq> []" by linarith
  then show ?case
  proof cases
    case 1
    then show ?thesis using a by (simp add: bufio_Write.simps [of p] log_open_def log_bytes_def same_rest_def)
  next
    case 2
    let ?d = "d\<lparr>dk_aof := Some (aof_bytes d @ p)\<rparr>"
    have "bufio_Write p (d, a) = bufio_Write [] (?d, a)" using 2 a by (simp add: bufio_Write.simps [of p])
    moreover have "bufio_Write [] (?d, a) = ((?d, a), True)" using 2 a by (simp add: bufio_Write.simps [of "[]"])
    ultimately show ?thesis using 2 a by (simp add: log_open_def log_bytes_def same_rest_def aof_bytes_def)
  next
    case 3
    let ?n = "bufSize - length (ah_buf a)"
    let ?x = "(d, a\<lparr>ah_buf := ah_buf a @ take ?n p\<rparr>)"
    have o: "log_open ?x" using a by (simp add: log_open_def)
    obtain y where y: "bufio_Flush ?x = (y, True)" "log_open y" "log_bytes y = log_bytes ?x" "same_rest ?x y"
        "dk_durable (fst y) = dk_durable d"
      using Flush_open [OF o] by auto
    have eq: "bufio_Write p (d, a) = bufio_Write (drop ?n p) y"
      using 3 a y(1) by (simp add: bufio_Write.simps [of p] Let_def)
    have "log_open (fst (bufio_Flush ?x))" using y by simp
    then obtain z where z: "bufio_Write (drop ?n p) y = (z, True)" "log_open z" "log_bytes z = log_bytes y @ drop ?n p"
        "same_rest y z" "dk_durable (fst z) = dk_durable (fst y)"
      using "1.IH"(3) [OF _ 3(2) refl refl] 3(1) a(2) y(1) by auto
    have "same_rest (d, a) y" using y(4) by (simp add: same_rest_def)
    with z(4) have "same_rest (d, a) z" by (rule same_rest_trans [rotated])
    moreover have "log_bytes z = log_bytes (d, a) @ p" unfolding z(3) y(3) by (simp add: log_bytes_def)
    ultimately show ?thesis using z y(5) eq by simp
  qed
qed

lemma Sync_open:
  assumes "log_open x"
  shows "\<exists>y. AOF_Sync x = (y, True) \<and> log_open y \<and> log_bytes y = log_bytes x \<and> ah_buf (snd y) = [] \<and> same_rest x y \<and>
    dk_durable (fst y) = length (aof_bytes (fst y))"
proof -
  obtain y where y: "bufio_Flush x = (y, True)" "log_open y" "log_bytes y = log_bytes x" "ah_buf (snd y) = []" "same_rest x y"
    using Flush_open [OF assms] by auto
  then show ?thesis
    by (cases y) (simp add: AOF_Sync_def file_Sync_def log_open_def log_bytes_def same_rest_def aof_bytes_def)
qed

lemma Append_open:
  assumes "log_open x"
  shows "\<exists>y. Append ev x = (y, True) \<and> log_open y \<and> log_bytes y = log_bytes x @ encodeRecord ev \<and> same_rest x y \<and>
    (if ah_policy (snd x) = SyncAlways then ah_buf (snd y) = [] \<and> dk_durable (fst y) = length (aof_bytes (fst y))
     else dk_durable (fst y) = dk_durable (fst x))"
proof -
  obtain y where y: "bufio_Write (encodeRecord ev) x = (y, True)" "log_open y" "log_bytes y = log_bytes x @ encodeRecord ev"
      "same_rest x y" "dk_durable (fst y) = dk_durable (fst x)"
    using Write_open [OF assms] by blast
  have pol: "ah_policy (snd y) = ah_policy (snd x)" using y(4) by (simp add: same_rest_def)
  show ?thesis
  proof (cases "ah_policy (snd x) = SyncAlways")
    case False
    with y pol show ?thesis by (simp add: Append_def)
  next
    case True
    obtain z where z: "AOF_Sync y = (z, True)" "log_open z" "log_bytes z = log_bytes y" "ah_buf (snd z) = []" "same_rest y z"
        "dk_durable (fst z) = length (aof_bytes (fst z))"
      using Sync_open [OF y(2)] by blast
    with True y pol same_rest_trans [OF y(4) z(5)] show ?thesis by (simp add: Append_def)
  qed
qed


subsection \<open>Reading back\<close>

definition log_of :: "event list \<Rightarrow> string" where
  "log_of evs = concat (map encodeRecord evs)"

definition fit :: "event list \<Rightarrow> bool" where
  "fit evs \<longleftrightarrow> list_all ev_fits evs"

lemma fit_simps [simp]: "fit []" "fit (ev # evs) \<longleftrightarrow> ev_fits ev \<and> fit evs" "fit (xs @ ys) \<longleftrightarrow> fit xs \<and> fit ys"
  by (simp_all add: fit_def)

lemma fit_filter [simp]: "fit evs \<Longrightarrow> fit (filter P evs)"
  by (simp add: fit_def list_all_iff)

lemma log_of_simps [simp]: "log_of [] = []" "log_of (ev # evs) = encodeRecord ev @ log_of evs" "log_of (xs @ ys) = log_of xs @ log_of ys"
  by (simp_all add: log_of_def)

lemma log_of_Nil [simp]: "log_of evs = [] \<longleftrightarrow> evs = []" "[] = log_of evs \<longleftrightarrow> evs = []"
  by (cases evs, simp_all add: encodeRecord_def encodeEvent_def)+

lemma read_loop_Nil [simp]: "read_loop [] = ([], ErrEOF)"
  by (simp add: read_loop.simps decodeRecord_def ReadFull_def)

lemma read_loop_log: "fit evs \<Longrightarrow> read_loop (log_of evs @ r) = (map ev_decoded evs @ fst (read_loop r), snd (read_loop r))"
proof (induction evs)
  case (Cons ev evs)
  then show ?case by (simp add: read_loop.simps [of "encodeRecord ev @ s" for s] decodeRecord_encode)
qed simp

lemma read_log [simp]: "fit evs \<Longrightarrow> read_loop (log_of evs) = (map ev_decoded evs, ErrEOF)"
  using read_loop_log [of evs "[]"] by simp

lemma ReadAOF_log [simp]: "fit evs \<Longrightarrow> ReadAOF (Some (log_of evs)) = Inr (map ev_decoded evs)"
  by (simp add: ReadAOF_def)

text \<open>A prefix of the log, cut anywhere: the records that are whole in it are read.\<close>

lemma read_loop_cut:
  "fit evs \<Longrightarrow> \<exists>k \<le> length evs. \<exists>e \<in> {ErrEOF, ErrTornRecord}.
     read_loop (take n (log_of evs)) = (map ev_decoded (take k evs), e) \<and> length (log_of (take k evs)) \<le> n \<and>
     (k < length evs \<longrightarrow> n < length (log_of (take (Suc k) evs)))"
proof (induction evs arbitrary: n)
  case (Cons ev evs)
  show ?case
  proof (cases "length (encodeRecord ev) \<le> n")
    case True
    then have t: "take n (log_of (ev # evs)) = log_of [ev] @ take (n - length (encodeRecord ev)) (log_of evs)" by simp
    obtain k e where k: "k \<le> length evs" "e \<in> {ErrEOF, ErrTornRecord}"
        "read_loop (take (n - length (encodeRecord ev)) (log_of evs)) = (map ev_decoded (take k evs), e)"
        "length (log_of (take k evs)) \<le> n - length (encodeRecord ev)"
        "k < length evs \<longrightarrow> n - length (encodeRecord ev) < length (log_of (take (Suc k) evs))"
      using Cons.IH [of "n - length (encodeRecord ev)"] Cons.prems by auto
    have "read_loop (take n (log_of (ev # evs))) = (map ev_decoded (take (Suc k) (ev # evs)), e)"
      unfolding t using read_loop_log [of "[ev]"] Cons.prems k(3) by simp
    moreover have "length (log_of (take (Suc k) (ev # evs))) \<le> n" "Suc k < length (ev # evs) \<longrightarrow>
        n < length (log_of (take (Suc (Suc k)) (ev # evs)))" using True k(4,5) by auto
    ultimately show ?thesis using k(1,2) by (intro exI [of _ "Suc k"] conjI bexI [of _ e]) simp_all
  next
    case False
    then have "take n (log_of (ev # evs)) = take n (encodeRecord ev)" by simp
    then show ?thesis using False Cons.prems decodeRecord_torn [of ev n]
      by (intro exI [of _ 0] conjI bexI [of _ "if n = 0 then ErrEOF else ErrTornRecord"])
        (simp_all add: read_loop.simps [of "take n (encodeRecord ev)"] del: take_eq_Nil)
  qed
qed auto

lemma ReadAOF_cut:
  assumes "fit evs"
  shows "\<exists>k \<le> length evs. ReadAOF (Some (take n (log_of evs))) = Inr (map ev_decoded (take k evs)) \<and>
    length (log_of (take k evs)) \<le> n \<and> (k < length evs \<longrightarrow> n < length (log_of (take (Suc k) evs)))"
  using read_loop_cut [OF assms, of n] by (auto simp: ReadAOF_def)

lemma ReadAOF_whole:
  assumes "fit evs" and "length (log_of evs) \<le> n"
  shows "ReadAOF (Some (take n (log_of evs))) = Inr (map ev_decoded evs)"
  using assms by simp

lemma ev_decoded_idem [simp]: "ev_decoded (ev_decoded ev) = ev_decoded ev"
  by (auto simp: ev_decoded_def)

lemma ev_decoded_fits [simp]: "ev_fits ev \<Longrightarrow> ev_fits (ev_decoded ev)"
  by (auto simp: ev_decoded_def ev_fits_def)

lemma ev_decoded_Seq [simp]: "ev_Seq (ev_decoded ev) = ev_Seq ev" "ev_Op (ev_decoded ev) = ev_Op ev"
    "ev_Key (ev_decoded ev) = ev_Key ev" "ev_ExpireAt (ev_decoded ev) = ev_ExpireAt ev"
  by (simp_all add: ev_decoded_def)

lemma fit_decoded [simp]: "fit evs \<Longrightarrow> fit (map ev_decoded evs)"
  by (induction evs) simp_all

lemma filter_decoded: "filter (\<lambda>ev. n < ev_Seq ev) (map ev_decoded evs) = map ev_decoded (filter (\<lambda>ev. n < ev_Seq ev) evs)"
  by (simp add: filter_map comp_def)

lemma ev_on_decoded [simp]: "ev_on k (ev_decoded ev) = ev_on k ev"
  by (rule ext) (auto simp: ev_on_def ev_decoded_def clone_bytes_def split: option.splits)

lemma fold_ev_on_decoded [simp]: "fold (ev_on k) (map ev_decoded evs) = fold (ev_on k) evs"
  by (rule ext) (induction evs, simp_all add: fold_map comp_def)

subsection \<open>Snapshots\<close>

lemma snapshot_bytes_read [simp]:
  assumes "fit (map rec_ev recs)"
  shows "ReadSnapshot (Some (snapshot_bytes startSeq recs)) = Inr (startSeq, map ev_decoded (map rec_ev recs))"
proof -
  have r: "concat (map snap_record recs) = log_of (map rec_ev recs)"
    by (induction recs) (simp_all add: snap_record_def rec_ev_def case_prod_unfold)
  have "ReadFull 16 ((snapMagic @ PutUint64 startSeq) @ log_of (map rec_ev recs)) =
      (Inr (snapMagic @ PutUint64 startSeq), log_of (map rec_ev recs))"
    by (rule ReadFull_append) (simp add: snapMagic_def)
  then show ?thesis
    using assms Uint64_Put [of startSeq "[]"] by (simp add: ReadSnapshot_def snapshot_bytes_def r snapMagic_def)
qed

text \<open>Whatever happens to the compaction, recovery after a snapshot sees the same events.\<close>

lemma Compact_reads:
  assumes x: "log_open x" and bytes: "log_bytes x = log_of evs" and fit: "fit evs" and c: "Compact out s x = (y, ok)"
  shows "dk_snap (fst y) = dk_snap (fst x)"
    and "ReadAOF (dk_aof (fst y)) = Inr (map ev_decoded evs) \<or>
      ReadAOF (dk_aof (fst y)) = Inr (filter (\<lambda>ev. s < ev_Seq ev) (map ev_decoded evs))"
    and "ok \<Longrightarrow> log_open y \<and> log_bytes y = log_of (filter (\<lambda>ev. s < ev_Seq ev) (map ev_decoded evs))"
proof -
  obtain x1 where x1: "AOF_Sync x = (x1, True)" "log_open x1" "log_bytes x1 = log_bytes x" "ah_buf (snd x1) = []" "same_rest x x1"
    using Sync_open [OF x] by blast
  obtain d a where da: "x1 = (d, a)" by (cases x1)
  have f: "aof_bytes d = log_of evs" using x1(3,4) bytes da by (simp add: log_bytes_def)
  have aof: "ReadAOF (dk_aof d) = Inr (map ev_decoded evs)"
    using f fit by (cases "dk_aof d") (auto simp: aof_bytes_def ReadAOF_def)
  let ?kept = "filter (\<lambda>ev. s < ev_Seq ev) (map ev_decoded evs)"
  have kept: "readRecords (dk_aof d) s = Inr ?kept" by (simp add: readRecords_def aof)
  have new: "ReadAOF (Some (log_of ?kept)) = Inr ?kept"
    using fit by (simp add: filter_decoded comp_def)
  have snap: "dk_snap d = dk_snap (fst x)" using x1(5) da by (simp add: same_rest_def)
  note cc = c [unfolded Compact_def x1(1) da, simplified kept sum.case prod.case Let_def, simplified]
  show "dk_snap (fst y) = dk_snap (fst x)" using cc snap by (cases out) (auto simp: log_of_def)
  show "ReadAOF (dk_aof (fst y)) = Inr (map ev_decoded evs) \<or> ReadAOF (dk_aof (fst y)) = Inr ?kept"
    using cc aof new by (cases out) (auto simp: log_of_def)
  assume ok
  then show "log_open y \<and> log_bytes y = log_of ?kept"
    using cc x1(2) da by (cases out) (auto simp: log_of_def log_open_def log_bytes_def aof_bytes_def)
qed

lemma known_decoded [simp]: "known_op (ev_decoded ev) = known_op ev"
  by (simp add: known_op_def)

end
