(* ===== verification/Persist_Thms.thy ===== *)
theory Persist_Thms
  imports Persist_Inv
begin

section \<open>Properties of persistence\<close>

text \<open>
  Durability of the log, atomicity of a snapshot with its compaction, and recovery of the contents of the
  cache, for internal/persistence.
\<close>

subsection \<open>The log over time\<close>

datatype log_op = LogAppend event | LogTick | LogSync

fun log_step :: "log_op \<Rightarrow> disk \<times> AOF \<Rightarrow> disk \<times> AOF" where
  "log_step (LogAppend ev) x = fst (Append ev x)"
| "log_step LogTick x = everySec_tick x"
| "log_step LogSync x = fst (AOF_Sync x)"

fun log_run :: "log_op list \<Rightarrow> disk \<times> AOF \<Rightarrow> disk \<times> AOF" where
  "log_run [] x = x"
| "log_run (y # ys) x = log_run ys (log_step y x)"

fun appended :: "log_op list \<Rightarrow> event list" where
  "appended [] = []"
| "appended (LogAppend ev # ys) = ev # appended ys"
| "appended (_ # ys) = appended ys"

definition all_durable :: "disk \<times> AOF \<Rightarrow> bool" where
  "all_durable x \<longleftrightarrow> ah_buf (snd x) = [] \<and> dk_durable (fst x) = length (aof_bytes (fst x))"

lemma tick_Sync: "log_open x \<Longrightarrow> everySec_tick x = fst (AOF_Sync x)"
  using Flush_open [of x] by (auto simp: everySec_tick_def AOF_Sync_def)

lemma log_step_open:
  assumes "log_open x"
  shows "log_open (log_step y x)" and "log_bytes (log_step y x) = log_bytes x @ log_of (appended [y])"
    and "ah_policy (snd (log_step y x)) = ah_policy (snd x)"
    and "ah_policy (snd x) = SyncAlways \<Longrightarrow> all_durable x \<Longrightarrow> all_durable (log_step y x)"
proof -
  have "log_open (log_step y x) \<and> log_bytes (log_step y x) = log_bytes x @ log_of (appended [y]) \<and>
    ah_policy (snd (log_step y x)) = ah_policy (snd x) \<and>
    (ah_policy (snd x) = SyncAlways \<longrightarrow> all_durable x \<longrightarrow> all_durable (log_step y x))"
  proof (cases y)
    case (LogAppend ev)
    with Append_open [OF assms, of ev] show ?thesis by (auto simp: same_rest_def all_durable_def)
  qed (use Sync_open [OF assms] tick_Sync [OF assms] in \<open>auto simp: same_rest_def all_durable_def\<close>)
  then show "log_open (log_step y x)" "log_bytes (log_step y x) = log_bytes x @ log_of (appended [y])"
    "ah_policy (snd (log_step y x)) = ah_policy (snd x)"
    "ah_policy (snd x) = SyncAlways \<Longrightarrow> all_durable x \<Longrightarrow> all_durable (log_step y x)" by blast+
qed

lemma log_run_open:
  "log_open x \<Longrightarrow> log_open (log_run ys x) \<and> log_bytes (log_run ys x) = log_bytes x @ log_of (appended ys) \<and>
     (ah_policy (snd x) = SyncAlways \<longrightarrow> all_durable x \<longrightarrow> all_durable (log_run ys x))"
proof (induction ys arbitrary: x)
  case (Cons y ys)
  note s = log_step_open [OF Cons.prems, of y]
  have "appended (y # ys) = appended [y] @ appended ys" by (cases y) simp_all
  with Cons.IH [OF s(1)] s(2-4) show ?case by simp
qed simp

text \<open>Durability. Whatever is appended to the log, and whenever the writer flushes, a crash that keeps at least the synced
  bytes leaves a log that reads as a prefix of the appended events, cut at a record boundary; under the policy
  \<open>always\<close> it is all of them.\<close>

theorem crash_keeps_prefix:
  assumes "dk_aof d = Some (log_of old)" and "dk_durable d = length (log_of old)" and "fit (old @ appended ys)"
    and "log_run ys (OpenAOF pol d) = (d', a')" and "dk_durable d' \<le> n"
  shows "\<exists>k \<le> length (old @ appended ys).
    ReadAOF (Some (take n (aof_bytes d'))) = Inr (map ev_decoded (take k (old @ appended ys))) \<and>
    (pol = SyncAlways \<longrightarrow> k = length (old @ appended ys))"
proof -
  let ?x = "OpenAOF pol d" and ?all = "old @ appended ys"
  have o: "log_open ?x" "log_bytes ?x = log_of old" "ah_policy (snd ?x) = pol" "all_durable ?x"
    using assms(1,2) by (simp_all add: OpenAOF_def log_open_def log_bytes_def aof_bytes_def all_durable_def)
  note r = log_run_open [OF o(1), of ys, unfolded assms(4)]
  have bytes: "aof_bytes d' @ ah_buf a' = log_of ?all" using r o(2) by (simp add: log_bytes_def)
  let ?n = "min n (length (aof_bytes d'))"
  have cut: "take n (aof_bytes d') = take ?n (log_of ?all)" unfolding bytes [symmetric] by (simp add: min_def)
  obtain k where k: "k \<le> length ?all" "ReadAOF (Some (take ?n (log_of ?all))) = Inr (map ev_decoded (take k ?all))"
    using ReadAOF_cut [OF assms(3)] by blast
  show ?thesis
  proof (cases "pol = SyncAlways")
    case True
    then have "all_durable (d', a')" using r o by simp
    then have "take n (aof_bytes d') = log_of ?all" using bytes assms(5) by (simp add: all_durable_def)
    then show ?thesis using ReadAOF_log [OF assms(3)] by (intro exI [of _ "length ?all"]) simp
  next
    case False
    with k cut show ?thesis by (intro exI [of _ k]) simp
  qed
qed

definition ex_disk :: disk where
  "ex_disk = \<lparr>dk_snap = None, dk_snap_tmp = None, dk_aof = Some [], dk_aof_tmp = None, dk_durable = 0\<rparr>"

lemma ev_del_fits: "length k < 100 \<Longrightarrow> ev_fits (ev_del k)"
  by (simp add: ev_fits_def ev_del_def headerBytes_def int64_def)

theorem crash_keeps_prefix_witness:
  "ReadAOF (Some (aof_bytes (fst (log_run [LogAppend (ev_del ''k'')] (OpenAOF SyncAlways ex_disk))))) =
     Inr [ev_decoded (ev_del ''k'')]"
proof -
  obtain d' a' where r: "log_run [LogAppend (ev_del ''k'')] (OpenAOF SyncAlways ex_disk) = (d', a')"
    by (cases "log_run [LogAppend (ev_del ''k'')] (OpenAOF SyncAlways ex_disk)")
  have d: "dk_aof ex_disk = Some (log_of [])" "dk_durable ex_disk = length (log_of [])" by (simp_all add: ex_disk_def)
  have f: "fit ([] @ appended [LogAppend (ev_del ''k'')])" by (simp add: ev_del_fits)
  let ?n = "max (dk_durable d') (length (aof_bytes d'))"
  from crash_keeps_prefix [OF d f r, of ?n] r show ?thesis by simp
qed

subsection \<open>Snapshot and compaction\<close>



end
