(* ===== verification/Recovery_Thms.thy ===== *)
theory Recovery_Thms
  imports Persist_Thms Cache_Thms
begin

section \<open>Recovery of the cache\<close>

text \<open>
  The composition of internal/cache and internal/persistence: a cache in use, its event stream, a
  snapshot that is taken in the middle, the compacted log, and recovery into a new cache.
\<close>

text \<open>Recovery. A cache is created and used; at some moment a snapshot starts, with the number of an event that has been
  delivered, and exports the shards one by one while operations go on; the log holds every later event, compacted or
  not. Then recovery from the two files into a new cache without limits gives, at every later time, exactly the
  items of the cache that are not expired.\<close>

theorem recover_contents:
  assumes "cache_New uni rs cfg = Some (Inr c)" and "cache_run_ok hash xs c" and "cache_run hash xs c = (c1, evs1)"
    and "n \<le> length evs1"
    and "export_run hash now 0 bs c1 = (recs, c2, evs2)" and "export_ok hash now 0 bs c1"
    and "cache_run_ok hash ys c2" and "list_all (expire_clock now) ys" and "cache_run hash ys c2 = (c3, evs3)"
    and "map unnumbered log = map unnumbered (evs1 @ evs2 @ evs3)" and "numbered log" and "length log < 2 ^ 64"
    and "fit log" and "fit (map rec_ev recs)"
    and "dk_snap d = Some (snapshot_bytes (of_nat n) recs)"
    and "dk_aof d = Some (log_of (drop m log))" and "m \<le> n"
    and "cache_New uni' rs' cfg' = Some (Inr r)" and "cfg_MaxEntries cfg' \<le> 0" and "cfg_MaxMemory cfg' \<le> 0"
    and "\<forall>evs. recovered_events d = Inr evs \<longrightarrow> apply_all_ok hash' (with_orders ord evs) r"
    and "now \<le> t"
  shows "\<exists>r' y. Recover hash' ord pol d r = Inr (r', y) \<and> live t (cache_kv hash' r') = live t (cache_kv hash c3)"
proof -
  have len: "n \<le> length log" using assms(4) arg_cong [OF assms(10), of length] by simp
  let ?evs = "map ev_decoded (map rec_ev recs @ drop n log)"
  have "fit (drop m log)" using assms(13) by (metis append_take_drop_id fit_simps(3))
  moreover have "filter (\<lambda>ev. of_nat n < ev_Seq ev) (drop m log) = drop n log"
    by (rule numbered_filter [OF assms(11,12) len assms(17)])
  ultimately have rec: "recovered_events d = Inr ?evs"
    using assms(14-16) by (simp add: recovered_events_def filter_decoded)
  then have ok: "apply_all_ok hash' (with_orders ord ?evs) r" using assms(21) by blast
  have "\<forall>ev \<in> set ?evs. known_op ev"
    using follow_known [OF assms(3,5,9,10)] by (auto dest: in_set_dropD)
  note kv = fresh_replay [OF assms(18-20) ok this]
  have "live t (cache_kv hash' (apply_all hash' (with_orders ord ?evs) r)) = live t (cache_kv hash c3)"
    by (rule follow_live [OF cache_New_props(1) [OF assms(1)] assms(2-10) _ assms(22)]) (simp add: kv del: map_append)
  then show ?thesis using rec by (simp add: Recover_def)
qed


definition ex_log :: "event list" where
  "ex_log = [(ev_set ''k'' (Some ''v'') 0)\<lparr>ev_Seq := 1\<rparr>, (ev_del ''k'')\<lparr>ev_Seq := 2\<rparr>]"

definition ex_saved :: disk where
  "ex_saved = \<lparr>dk_snap = Some (snapshot_bytes 1 [(''k'', Some ''v'', 0)]), dk_snap_tmp = None,
     dk_aof = Some (log_of (drop 1 ex_log)), dk_aof_tmp = None, dk_durable = 0\<rparr>"

definition ex_ord :: "nat \<Rightarrow> string list list" where
  "ex_ord i = (if i = 0 then [[], []] else [[], [''k'']])"

abbreviation ex_used :: cache where
  "ex_used \<equiv> fst (cache_run ex_hash [CSet ''k'' (Some ''v'') 0 1] ex_lru)"

lemma ex_outputs:
  "snd (cache_run ex_hash [CSet ''k'' (Some ''v'') 0 1] ex_lru) = [ev_set ''k'' (Some ''v'') 0]"
  "fst (export_run ex_hash 5 0 [([], []), ([], [''k''])] ex_used) = [(''k'', Some ''v'', 0)]"
  "snd (cache_run ex_hash [CDel ''k''] ex_used) = [ev_del ''k'']"
  by code_simp+

lemma ex_runs:
  "cache_run ex_hash [CSet ''k'' (Some ''v'') 0 1] ex_lru = (ex_used, [ev_set ''k'' (Some ''v'') 0])"
  "export_run ex_hash 5 0 [([], []), ([], [''k''])] ex_used = ([(''k'', Some ''v'', 0)], ex_used, [])"
  "cache_run ex_hash [CDel ''k''] ex_used = (fst (cache_run ex_hash [CDel ''k''] ex_used), [ev_del ''k''])"
  using ex_outputs by (simp_all add: prod_eq_iff split: prod.splits)

lemma ex_export_ok: "export_ok ex_hash 5 0 [([], []), ([], [''k''])] ex_used"
  by code_simp

lemma ex_apply_ok: "apply_all_ok ex_hash (with_orders ex_ord [ev_set ''k'' (Some ''v'') 0, (ev_del ''k'')\<lparr>ev_Seq := 2\<rparr>]) ex_none"
  by code_simp

theorem recover_contents_witness:
  "\<exists>r' y. Recover ex_hash ex_ord SyncNo ex_saved ex_none = Inr (r', y) \<and>
     live 9 (cache_kv ex_hash r') = live 9 (cache_kv ex_hash (fst (cache_run ex_hash [CDel ''k''] ex_used)))"
proof -
  let ?recs = "[(''k'', Some ''v'', 0)]"
  have f: "fit ex_log" "fit (map rec_ev ?recs)"
    by (simp_all add: ex_log_def rec_ev_def ev_fits_def ev_set_def ev_del_def headerBytes_def int64_def)
  have u: "map unnumbered ex_log = map unnumbered ([ev_set ''k'' (Some ''v'') 0] @ [] @ [ev_del ''k''])"
    by (simp add: ex_log_def unnumbered_def ev_defs)
  have num: "numbered ex_log" "length ex_log < 2 ^ 64" by (simp_all add: numbered_def ex_log_def less_Suc_eq)
  have d: "dk_snap ex_saved = Some (snapshot_bytes (of_nat 1) ?recs)" "dk_aof ex_saved = Some (log_of (drop 1 ex_log))"
    by (simp_all add: ex_saved_def)
  have "fit (drop 1 ex_log)" using f(1) by (simp add: ex_log_def)
  then have "recovered_events ex_saved = Inr [ev_set ''k'' (Some ''v'') 0, (ev_del ''k'')\<lparr>ev_Seq := 2\<rparr>]"
    using d f(2) by (simp add: recovered_events_def) (simp add: ex_log_def rec_ev_def ev_decoded_def ev_defs)
  then have a: "\<forall>evs. recovered_events ex_saved = Inr evs \<longrightarrow> apply_all_ok ex_hash (with_orders ex_ord evs) ex_none"
    using ex_apply_ok by simp
  from recover_contents [OF ex_lru_New _ ex_runs(1) _ ex_runs(2) ex_export_ok _ _ ex_runs(3) u num f d _ ex_none_New _ _ a]
  show ?thesis by (simp add: ex_cfg_def)
qed

text \<open>The numbers of events start again at 1 when the process restarts, but recovery skips the records whose number is not
  above the one of the snapshot: of the events that are written after a restart, recovery ignores as many as the
  snapshot's number says.\<close>

theorem restart_skips:
  assumes "ReadSnapshot (dk_snap d) = Inr (s, evs0)" and "dk_aof d = Some (log_of (old @ new))"
    and "fit (old @ new)" and "numbered new" and "length new \<le> unat s"
  shows "recovered_events d = recovered_events (d\<lparr>dk_aof := Some (log_of old)\<rparr>)"
proof -
  have "\<not> s < ev_Seq ev" if ev: "ev \<in> set new" for ev
  proof -
    obtain i where i: "i < length new" "ev_Seq ev = of_nat (Suc i)" using ev assms(4) by (auto simp: numbered_def in_set_conv_nth simp del: of_nat_Suc)
    have "unat (of_nat (Suc i) :: u64) \<le> Suc i" by (simp add: unsigned_of_nat take_bit_nat_less_eq_self del: of_nat_Suc)
    then show ?thesis using i assms(5) by (simp add: word_less_nat_alt not_less del: of_nat_Suc)
  qed
  then have "filter (\<lambda>ev. s < ev_Seq ev) new = []" by (auto simp: filter_empty_conv)
  then have "filter (\<lambda>ev. s < ev_Seq ev) (old @ new) = filter (\<lambda>ev. s < ev_Seq ev) old" by simp
  moreover have "ReadAOF (dk_aof d) = Inr (map ev_decoded (old @ new))" unfolding assms(2) by (rule ReadAOF_log [OF assms(3)])
  ultimately show ?thesis
    using assms(1,3) by (simp add: recovered_events_def filter_decoded del: map_append filter_append)
qed

theorem restart_skips_witness:
  "recovered_events (ex_saved\<lparr>dk_aof := Some (log_of [(ev_del ''k'')\<lparr>ev_Seq := 1\<rparr>])\<rparr>) =
     recovered_events (ex_saved\<lparr>dk_aof := Some (log_of [])\<rparr>)"
proof -
  let ?d = "ex_saved\<lparr>dk_aof := Some (log_of [(ev_del ''k'')\<lparr>ev_Seq := 1\<rparr>])\<rparr>"
  have "fit (map rec_ev [(''k'', Some ''v'', 0)])"
    by (simp add: rec_ev_def ev_fits_def ev_set_def headerBytes_def int64_def)
  then have "ReadSnapshot (dk_snap ?d) = Inr (1, map ev_decoded (map rec_ev [(''k'', Some ''v'', 0)]))"
    by (simp add: ex_saved_def)
  from restart_skips [OF this, of "[]" "[(ev_del ''k'')\<lparr>ev_Seq := 1\<rparr>]"] show ?thesis
    by (simp add: ev_fits_def ev_del_def headerBytes_def int64_def numbered_def)
qed

end
