(* ===== verification/Life.thy ===== *)
theory Life
  imports Manager Recovery_Thms
begin

section \<open>The life of a process with persistence\<close>

text \<open>
  The composition of internal/cache with the manager of internal/persistence over the whole life of a process that starts on an empty
  directory: operations on the cache, the dispatcher that numbers events and hands them to the manager, ticks of the log's timer, and
  periodic snapshots, in any order. The dispatcher publishes the number of an event after it has handed it over. A snapshot takes the
  published number and exports the shards one by one while operations go on; the compaction of the log comes later, after any number of further steps. Writing the
  snapshot may fail, and so may the compaction as long as it has not closed the log.
\<close>

record life =
  lf_cache :: cache
  lf_sent :: "event list"
  lf_logged :: "event list"
  lf_seq :: nat
  lf_mgr :: Manager
  lf_pending :: "nat option"
  lf_now :: "int option"

text \<open>The clock does not go back behind the start of the last snapshot.\<close>

definition in_time :: "int option \<Rightarrow> cache_op \<Rightarrow> bool" where
  "in_time t x \<longleftrightarrow> (case t of None \<Rightarrow> True | Some now \<Rightarrow> expire_clock now x)"

inductive life_step :: "(string \<Rightarrow> u64) \<Rightarrow> life \<Rightarrow> life \<Rightarrow> bool" for hash :: "string \<Rightarrow> u64" where
  operation: "cache_op_ok x (lf_cache y) \<Longrightarrow> in_time (lf_now y) x \<Longrightarrow> cache_step hash x (lf_cache y) = (c, evs) \<Longrightarrow>
    life_step hash y (y\<lparr>lf_cache := c, lf_sent := lf_sent y @ evs\<rparr>)"
| hand_over: "n = length (lf_logged y) \<Longrightarrow> n < length (lf_sent y) \<Longrightarrow> Suc n < 2 ^ 64 \<Longrightarrow>
    ev = (lf_sent y ! n)\<lparr>ev_Seq := of_nat (Suc n)\<rparr> \<Longrightarrow> ev_fits ev \<Longrightarrow>
    life_step hash y (y\<lparr>lf_logged := lf_logged y @ [ev], lf_mgr := manager_onEvent ev (lf_mgr y)\<rparr>)"
| publish: "lf_seq y \<le> n \<Longrightarrow> n \<le> length (lf_logged y) \<Longrightarrow> life_step hash y (y\<lparr>lf_seq := n\<rparr>)"
| timer: "life_step hash y (y\<lparr>lf_mgr := manager_tick (lf_mgr y)\<rparr>)"
| snapshot: "lf_pending y = None \<Longrightarrow> n = lf_seq y \<Longrightarrow>
    export_run hash now 0 bs (lf_cache y) = (recs, c, evs) \<Longrightarrow> export_ok hash now 0 bs (lf_cache y) \<Longrightarrow>
    list_all (in_time (lf_now y)) (concat (map fst bs)) \<Longrightarrow> fit (map rec_ev recs) \<Longrightarrow> out \<in> {Done, NotCreated, Failed} \<Longrightarrow>
    snapshot_write out (of_nat n) recs (lf_mgr y) = (m, r) \<Longrightarrow>
    life_step hash y (y\<lparr>lf_cache := c, lf_sent := lf_sent y @ evs, lf_mgr := m,
      lf_pending := map_option (\<lambda>_. n) r, lf_now := (if r = None then lf_now y else Some now)\<rparr>)"
| compaction: "lf_pending y = Some n \<Longrightarrow> cout \<in> {CDone, CFailCreate, CFailTmp} \<Longrightarrow>
    snapshot_compact cout (of_nat n) (lf_mgr y) = (m, ok) \<Longrightarrow>
    life_step hash y (y\<lparr>lf_mgr := m, lf_pending := None\<rparr>)"

inductive life_reach :: "(string \<Rightarrow> u64) \<Rightarrow> life \<Rightarrow> life \<Rightarrow> bool" for hash :: "string \<Rightarrow> u64" and y0 :: life where
  life_start: "life_reach hash y0 y0"
| life_next: "life_reach hash y0 y \<Longrightarrow> life_step hash y z \<Longrightarrow> life_reach hash y0 z"

text \<open>The start: \<open>Open\<close> and \<open>Recover\<close>.\<close>

definition life_begin ::
  "bool \<Rightarrow> (string \<Rightarrow> u64) \<Rightarrow> (nat \<Rightarrow> string list list) \<Rightarrow> string \<Rightarrow> int \<Rightarrow> disk \<Rightarrow> cache \<Rightarrow> life option" where
  "life_begin mkdir hash ord pol interval d c =
     (case Manager_Open mkdir pol interval d of
        None \<Rightarrow> None
      | Some m \<Rightarrow>
          (case Manager_Recover hash ord c m of
             Inl e \<Rightarrow> None
           | Inr (c1, m1, loop) \<Rightarrow>
               Some \<lparr>lf_cache = c1, lf_sent = [], lf_logged = [], lf_seq = 0, lf_mgr = m1, lf_pending = None, lf_now = None\<rparr>))"

definition no_files :: disk where
  "no_files = \<lparr>dk_snap = None, dk_snap_tmp = None, dk_aof = None, dk_aof_tmp = None, dk_durable = 0\<rparr>"

subsection \<open>The invariant\<close>

definition log_ok :: "life \<Rightarrow> bool" where
  "log_ok y \<longleftrightarrow> numbered (lf_logged y) \<and> fit (lf_logged y) \<and> length (lf_logged y) < 2 ^ 64 \<and>
     length (lf_logged y) \<le> length (lf_sent y) \<and>
     map unnumbered (lf_logged y) = map unnumbered (take (length (lf_logged y)) (lf_sent y))"

text \<open>The manager's log is open, no append has failed, it holds the records of \<open>evs\<close>, and under the policy \<open>always\<close> they are all
  synced.\<close>

definition log_holds :: "Manager \<Rightarrow> event list \<Rightarrow> bool" where
  "log_holds m evs \<longleftrightarrow> ma_appendErrs m = 0 \<and>
     (\<exists>a. ma_aof m = Some a \<and> log_open (ma_disk m, a) \<and> log_bytes (ma_disk m, a) = log_of evs \<and> ah_policy a = ma_Sync m \<and>
        (ma_Sync m = SyncAlways \<longrightarrow> all_durable (ma_disk m, a)))"

text \<open>The files: the log holds the events from some number on that is not above the one of the snapshot.\<close>

definition files_ok :: "nat \<Rightarrow> life \<Rightarrow> bool" where
  "files_ok n y \<longleftrightarrow> n \<le> lf_seq y \<and> lf_seq y \<le> length (lf_logged y) \<and> (\<forall>p. lf_pending y = Some p \<longrightarrow> p = n) \<and>
     (\<exists>q \<le> n. log_holds (lf_mgr y) (drop q (lf_logged y)))"

text \<open>The history of the cache, split at the last snapshot that was written.\<close>

definition snap_ok :: "(string \<Rightarrow> u64) \<Rightarrow> cache \<Rightarrow> nat \<Rightarrow> (string \<times> bytes \<times> int) list \<Rightarrow> life \<Rightarrow> bool" where
  "snap_ok hash c0 n recs y \<longleftrightarrow>
     (case lf_now y of
        None \<Rightarrow> n = 0 \<and> recs = [] \<and> dk_snap (ma_disk (lf_mgr y)) = None
      | Some now \<Rightarrow>
          dk_snap (ma_disk (lf_mgr y)) = Some (snapshot_bytes (of_nat n) recs) \<and> fit (map rec_ev recs) \<and>
          (\<exists>xs c1 evs1 bs c2 evs2 ys evs3. cache_run_ok hash xs c0 \<and> cache_run hash xs c0 = (c1, evs1) \<and> n \<le> length evs1 \<and>
             export_run hash now 0 bs c1 = (recs, c2, evs2) \<and> export_ok hash now 0 bs c1 \<and>
             cache_run_ok hash ys c2 \<and> list_all (expire_clock now) ys \<and> cache_run hash ys c2 = (lf_cache y, evs3) \<and>
             lf_sent y = evs1 @ evs2 @ evs3))"

definition life_inv :: "(string \<Rightarrow> u64) \<Rightarrow> cache \<Rightarrow> life \<Rightarrow> bool" where
  "life_inv hash c0 y \<longleftrightarrow> (\<exists>xs. cache_run_ok hash xs c0 \<and> cache_run hash xs c0 = (lf_cache y, lf_sent y)) \<and> log_ok y \<and>
     (\<exists>n recs. files_ok n y \<and> snap_ok hash c0 n recs y)"

lemma encodeRecord_decoded [simp]: "encodeRecord (ev_decoded ev) = encodeRecord ev"
  by (auto simp: encodeRecord_def encodeEvent_def ev_decoded_def clone_bytes_def split: option.splits)

lemma log_of_decoded [simp]: "log_of (map ev_decoded evs) = log_of evs"
  by (induction evs) simp_all

lemma life_begin_new:
  assumes "life_begin mkdir hash' ord pol interval no_files c = Some y"
  obtains a where "y = \<lparr>lf_cache = c, lf_sent = [], lf_logged = [], lf_seq = 0, lf_mgr = \<lparr>ma_Sync = (if pol = [] then SyncEverySec else pol),
      ma_SnapshotInterval = interval, ma_disk = no_files\<lparr>dk_aof := Some []\<rparr>, ma_aof = Some a, ma_cache = True, ma_stop = False,
      ma_appendErrs = 0\<rparr>, lf_pending = None, lf_now = None\<rparr>"
    and "a = \<lparr>ah_open = True, ah_buf = [], ah_err = False, ah_policy = (if pol = [] then SyncEverySec else pol)\<rparr>"
  using assms
  by (auto simp: life_begin_def Manager_Open_def Manager_Recover_def Recover_def recovered_events_def ReadSnapshot_def ReadAOF_def
      no_files_def OpenAOF_def aof_bytes_def with_orders_def Let_def SyncEverySec_def split: if_splits)

lemma life_inv_begin:
  assumes "life_begin mkdir hash' ord pol interval no_files c = Some y"
  shows "life_inv hash c y"
  using assms
proof (rule life_begin_new)
  fix a
  assume y: "y = \<lparr>lf_cache = c, lf_sent = [], lf_logged = [], lf_seq = 0, lf_mgr = \<lparr>ma_Sync = (if pol = [] then SyncEverySec else pol),
      ma_SnapshotInterval = interval, ma_disk = no_files\<lparr>dk_aof := Some []\<rparr>, ma_aof = Some a, ma_cache = True, ma_stop = False,
      ma_appendErrs = 0\<rparr>, lf_pending = None, lf_now = None\<rparr>"
    and a: "a = \<lparr>ah_open = True, ah_buf = [], ah_err = False, ah_policy = (if pol = [] then SyncEverySec else pol)\<rparr>"
  have "files_ok 0 y" using y a by (simp add: files_ok_def log_holds_def log_open_def log_bytes_def aof_bytes_def all_durable_def no_files_def)
  moreover have "snap_ok hash c 0 [] y" using y by (simp add: snap_ok_def no_files_def)
  moreover have "log_ok y" using y by (simp add: log_ok_def numbered_def)
  moreover have "cache_run_ok hash [] c \<and> cache_run hash [] c = (lf_cache y, lf_sent y)" using y by simp
  ultimately show ?thesis unfolding life_inv_def by blast
qed

subsection \<open>Every step keeps it\<close>

lemma snap_ok_run:
  assumes "snap_ok hash c0 n recs y" and "cache_run_ok hash zs (lf_cache y)" and "cache_run hash zs (lf_cache y) = (lf_cache z, evs)"
    and "list_all (in_time (lf_now y)) zs" and "lf_sent z = lf_sent y @ evs" and "lf_now z = lf_now y"
    and "dk_snap (ma_disk (lf_mgr z)) = dk_snap (ma_disk (lf_mgr y))"
  shows "snap_ok hash c0 n recs z"
proof (cases "lf_now y")
  case (Some now)
  from assms(1) Some obtain xs c1 evs1 bs c2 evs2 ys evs3 where
    s: "dk_snap (ma_disk (lf_mgr y)) = Some (snapshot_bytes (of_nat n) recs)" "fit (map rec_ev recs)"
    "cache_run_ok hash xs c0" "cache_run hash xs c0 = (c1, evs1)" "n \<le> length evs1"
    "export_run hash now 0 bs c1 = (recs, c2, evs2)" "export_ok hash now 0 bs c1"
    and t: "cache_run_ok hash ys c2" "list_all (expire_clock now) ys" "cache_run hash ys c2 = (lf_cache y, evs3)"
    "lf_sent y = evs1 @ evs2 @ evs3"
    by (auto simp: snap_ok_def)
  have "cache_run_ok hash (ys @ zs) c2" "list_all (expire_clock now) (ys @ zs)" "cache_run hash (ys @ zs) c2 = (lf_cache z, evs3 @ evs)"
    using t assms(2-4) Some by (simp_all add: run_steps_append run_ok_append in_time_def [abs_def])
  moreover have "lf_sent z = evs1 @ evs2 @ (evs3 @ evs)" "lf_now z = Some now" using t(4) assms(5,6) Some by simp_all
  ultimately show ?thesis using s assms(7) unfolding snap_ok_def by (simp only: option.case) blast
qed (use assms in \<open>simp add: snap_ok_def\<close>)

lemma log_ok_logged:
  assumes "log_ok y" and "n = length (lf_logged y)" and "n < length (lf_sent y)" and "Suc n < 2 ^ 64" and "ev_fits ev"
    and "ev = (lf_sent y ! n)\<lparr>ev_Seq := of_nat (Suc n)\<rparr>"
  shows "log_ok (y\<lparr>lf_logged := lf_logged y @ [ev], lf_mgr := m\<rparr>)"
proof -
  have "numbered (lf_logged y @ [ev])" using assms by (intro numbered_snoc) (simp_all add: log_ok_def)
  moreover have "unnumbered ev = unnumbered (lf_sent y ! n)" using assms(6) by (simp add: unnumbered_def)
  ultimately show ?thesis using assms by (simp add: log_ok_def take_Suc_conv_app_nth)
qed

lemma onEvent_holds:
  assumes "log_holds m evs"
  shows "log_holds (manager_onEvent ev m) (evs @ [ev])" and "dk_snap (ma_disk (manager_onEvent ev m)) = dk_snap (ma_disk m)"
proof -
  obtain a where a: "ma_aof m = Some a" "log_open (ma_disk m, a)" using assms by (auto simp: log_holds_def)
  from Append_open [OF a(2), of ev] a(1) assms
  show "log_holds (manager_onEvent ev m) (evs @ [ev])" "dk_snap (ma_disk (manager_onEvent ev m)) = dk_snap (ma_disk m)"
    by (auto simp: manager_onEvent_def log_holds_def same_rest_def all_durable_def split: if_splits)
qed

lemma tick_holds:
  assumes "log_holds m evs"
  shows "log_holds (manager_tick m) evs" and "dk_snap (ma_disk (manager_tick m)) = dk_snap (ma_disk m)"
proof -
  obtain a where a: "ma_aof m = Some a" "log_open (ma_disk m, a)" using assms by (auto simp: log_holds_def)
  from Sync_open [OF a(2)] tick_Sync [OF a(2)] a(1) assms
  show "log_holds (manager_tick m) evs" "dk_snap (ma_disk (manager_tick m)) = dk_snap (ma_disk m)"
    by (auto simp: manager_tick_def log_holds_def same_rest_def all_durable_def split: prod.splits)
qed

text \<open>Writing the snapshot file does not touch the log.\<close>

lemma write_holds:
  assumes "log_holds m evs" and "snapshot_write out s recs m = (m', r)"
  shows "log_holds m' evs"
  using assms
  by (cases out) (auto simp: snapshot_write_def WriteSnapshot_def log_holds_def log_open_def log_bytes_def aof_bytes_def all_durable_def)

lemma Compact_kept:
  assumes "log_open x" and "log_bytes x = log_of evs" and "fit evs" and "Compact cout s x = (y, ok)"
    and "cout \<in> {CDone, CFailCreate, CFailTmp}"
  shows "log_open y \<and> dk_snap (fst y) = dk_snap (fst x) \<and> ah_policy (snd y) = ah_policy (snd x) \<and> all_durable y \<and>
    (log_bytes y = log_of evs \<or> log_bytes y = log_of (filter (\<lambda>ev. s < ev_Seq ev) evs))"
proof -
  obtain x1 where x1: "AOF_Sync x = (x1, True)" "log_open x1" "log_bytes x1 = log_bytes x" "ah_buf (snd x1) = []" "same_rest x x1"
    "dk_durable (fst x1) = length (aof_bytes (fst x1))"
    using Sync_open [OF assms(1)] by blast
  obtain d a where da: "x1 = (d, a)" by (cases x1)
  have f: "aof_bytes d = log_of evs" using x1(3,4) assms(2) da by (simp add: log_bytes_def)
  have "ReadAOF (dk_aof d) = Inr (map ev_decoded evs)"
    using f assms(3) by (cases "dk_aof d") (auto simp: aof_bytes_def ReadAOF_def)
  then have k: "readRecords (dk_aof d) s = Inr (map ev_decoded (filter (\<lambda>ev. s < ev_Seq ev) evs))"
    by (simp add: readRecords_def filter_decoded)
  have "concat (map encodeRecord (map ev_decoded (filter (\<lambda>ev. s < ev_Seq ev) evs))) = log_of (filter (\<lambda>ev. s < ev_Seq ev) evs)"
    by (simp add: log_of_def comp_def)
  with assms(4,5) x1 da k f show ?thesis
    by (auto simp: Compact_def same_rest_def log_open_def log_bytes_def aof_bytes_def all_durable_def Let_def)
qed

lemma compact_holds:
  assumes "log_holds m evs" and "fit evs" and "snapshot_compact cout s m = (m', ok)" and "cout \<in> {CDone, CFailCreate, CFailTmp}"
  shows "log_holds m' evs \<or> log_holds m' (filter (\<lambda>ev. s < ev_Seq ev) evs)" and "dk_snap (ma_disk m') = dk_snap (ma_disk m)"
proof -
  obtain a where a: "ma_aof m = Some a" "log_open (ma_disk m, a)" "log_bytes (ma_disk m, a) = log_of evs"
    using assms(1) by (auto simp: log_holds_def)
  obtain d a' where m': "Compact cout s (ma_disk m, a) = ((d, a'), ok)" "m' = m\<lparr>ma_disk := d, ma_aof := Some a'\<rparr>"
    using assms(3) a(1) by (auto simp: snapshot_compact_def split: prod.splits)
  note k = Compact_kept [OF a(2,3) assms(2) m'(1) assms(4)]
  then show "dk_snap (ma_disk m') = dk_snap (ma_disk m)" using m'(2) by simp
  from k m'(2) a(1) assms(1) show "log_holds m' evs \<or> log_holds m' (filter (\<lambda>ev. s < ev_Seq ev) evs)"
    by (auto simp: log_holds_def)
qed

text \<open>A step that leaves the snapshot file alone, appends \<open>evs\<close> to what the log holds, and lets the cache run \<open>zs\<close>.\<close>

lemma life_inv_keep:
  assumes inv: "life_inv hash c0 y" and log: "log_ok z"
    and run: "cache_run_ok hash zs (lf_cache y)" "cache_run hash zs (lf_cache y) = (lf_cache z, evs)" "list_all (in_time (lf_now y)) zs"
    and z: "lf_sent z = lf_sent y @ evs" "lf_now z = lf_now y" "lf_pending z = lf_pending y" "lf_logged z = lf_logged y @ new"
      "lf_seq y \<le> lf_seq z" "lf_seq z \<le> length (lf_logged z)"
    and files: "\<And>evs. log_holds (lf_mgr y) evs \<Longrightarrow> log_holds (lf_mgr z) (evs @ new)"
    and snap: "\<And>evs. log_holds (lf_mgr y) evs \<Longrightarrow> dk_snap (ma_disk (lf_mgr z)) = dk_snap (ma_disk (lf_mgr y))"
  shows "life_inv hash c0 z"
proof -
  obtain xs n recs where xs: "cache_run_ok hash xs c0" "cache_run hash xs c0 = (lf_cache y, lf_sent y)"
    and fo: "files_ok n y" and so: "snap_ok hash c0 n recs y"
    using inv unfolding life_inv_def by blast
  obtain q where q: "q \<le> n" "log_holds (lf_mgr y) (drop q (lf_logged y))" using fo unfolding files_ok_def by blast
  have n: "n \<le> lf_seq y" "n \<le> length (lf_logged y)" "\<forall>p. lf_pending y = Some p \<longrightarrow> p = n" using fo by (auto simp: files_ok_def)
  have "drop q (lf_logged z) = drop q (lf_logged y) @ new" using n(2) q(1) z(4) by simp
  with files [OF q(2)] q(1) n(1,3) z(3,5,6) have "files_ok n z" unfolding files_ok_def by fastforce
  moreover have "snap_ok hash c0 n recs z"
    by (rule snap_ok_run [OF so run z(1,2) snap [OF q(2)]])
  moreover have "cache_run_ok hash (xs @ zs) c0 \<and> cache_run hash (xs @ zs) c0 = (lf_cache z, lf_sent z)"
    using xs run(1,2) z(1) by (simp add: run_steps_append run_ok_append)
  ultimately show ?thesis using log unfolding life_inv_def by blast
qed

text \<open>A snapshot that was written.\<close>

lemma life_inv_snapshot:
  assumes inv: "life_inv hash c0 y" and n: "n = lf_seq y"
    and ex: "export_run hash now 0 bs (lf_cache y) = (recs, c, evs)" "export_ok hash now 0 bs (lf_cache y)" and f: "fit (map rec_ev recs)"
    and w: "snapshot_write Done (of_nat n) recs (lf_mgr y) = (m, r)"
    and z: "z = y\<lparr>lf_cache := c, lf_sent := lf_sent y @ evs, lf_mgr := m, lf_pending := Some n, lf_now := Some now\<rparr>"
  shows "life_inv hash c0 z"
proof -
  obtain xs n0 recs0 where xs: "cache_run_ok hash xs c0" "cache_run hash xs c0 = (lf_cache y, lf_sent y)" and log: "log_ok y"
    and fo: "files_ok n0 y"
    using inv unfolding life_inv_def by blast
  note run = export_is_run [OF ex]
  have h: "cache_run_ok hash (xs @ concat (map fst bs)) c0 \<and> cache_run hash (xs @ concat (map fst bs)) c0 = (lf_cache z, lf_sent z)"
    using xs run z by (simp add: run_steps_append run_ok_append)
  have "n \<le> length (lf_sent y)" using n log fo by (simp add: log_ok_def files_ok_def)
  moreover have "cache_run_ok hash [] c" "list_all (expire_clock now) []" "cache_run hash [] c = (lf_cache z, [])"
    "lf_sent z = lf_sent y @ evs @ []" "lf_now z = Some now" "dk_snap (ma_disk (lf_mgr z)) = Some (snapshot_bytes (of_nat n) recs)"
    using z w by (auto simp: snapshot_write_def WriteSnapshot_def)
  ultimately have "snap_ok hash c0 n recs z" using xs ex f unfolding snap_ok_def by (simp only: option.case) blast
  moreover have "log_ok z" using log z by (simp add: log_ok_def)
  moreover obtain q where "q \<le> n0" "n0 \<le> lf_seq y" "lf_seq y \<le> length (lf_logged y)" "log_holds m (drop q (lf_logged y))"
    using fo write_holds [OF _ w] unfolding files_ok_def by blast
  then have "files_ok n z" using n z unfolding files_ok_def by (intro conjI exI [of _ q]) simp_all
  ultimately show ?thesis using h unfolding life_inv_def by blast
qed

lemma life_inv_compaction:
  assumes inv: "life_inv hash c0 y" and p: "lf_pending y = Some n" and co: "cout \<in> {CDone, CFailCreate, CFailTmp}"
    and c: "snapshot_compact cout (of_nat n) (lf_mgr y) = (m, ok)"
  shows "life_inv hash c0 (y\<lparr>lf_mgr := m, lf_pending := None\<rparr>)" (is "life_inv hash c0 ?z")
proof -
  obtain xs n0 recs where xs: "cache_run_ok hash xs c0" "cache_run hash xs c0 = (lf_cache y, lf_sent y)" and log: "log_ok y"
    and fo: "files_ok n0 y" and so: "snap_ok hash c0 n0 recs y"
    using inv unfolding life_inv_def by blast
  have n: "n0 = n" "n \<le> lf_seq y" "lf_seq y \<le> length (lf_logged y)" using fo p by (auto simp: files_ok_def)
  obtain q where q: "q \<le> n" "log_holds (lf_mgr y) (drop q (lf_logged y))" using fo n unfolding files_ok_def by blast
  have "fit (drop q (lf_logged y))" using log by (metis append_take_drop_id fit_simps(3) log_ok_def)
  note k = compact_holds [OF q(2) this c co]
  moreover have "filter (\<lambda>ev. of_nat n < ev_Seq ev) (drop q (lf_logged y)) = drop n (lf_logged y)"
    using log n q(1) by (intro numbered_filter) (auto simp: log_ok_def)
  ultimately have "files_ok n ?z" using q(1) n unfolding files_ok_def by auto
  moreover have "snap_ok hash c0 n recs ?z" using k(2) n(1) by (intro snap_ok_run [OF so [unfolded n(1)], of "[]" ?z "[]"]) simp_all
  moreover have "log_ok ?z" using log by (simp add: log_ok_def)
  ultimately show ?thesis using xs unfolding life_inv_def by auto
qed

lemma life_step_inv:
  assumes "life_step hash y z" and inv: "life_inv hash c0 y"
  shows "life_inv hash c0 z"
proof -
  have log: "log_ok y" and seq: "lf_seq y \<le> length (lf_logged y)" using inv by (auto simp: life_inv_def files_ok_def)
  from assms(1) show ?thesis
  proof cases
    case (operation x c evs)
    with log seq show ?thesis by (intro life_inv_keep [OF inv, of _ "[x]" evs "[]"]) (auto simp: log_ok_def)
  next
    case (hand_over n ev)
    have "log_ok z" unfolding hand_over(1) by (rule log_ok_logged [OF log hand_over(2-4,6,5)])
    then show ?thesis using hand_over(1) onEvent_holds seq
      by (intro life_inv_keep [OF inv, of _ "[]" "[]" "[ev]"]) auto
  next
    case (publish n)
    with log show ?thesis by (intro life_inv_keep [OF inv, of _ "[]" "[]" "[]"]) (auto simp: log_ok_def)
  next
    case timer
    with log seq tick_holds show ?thesis
      by (intro life_inv_keep [OF inv, of _ "[]" "[]" "[]"]) (auto simp: log_ok_def)
  next
    case (snapshot n now bs recs c evs out m r)
    show ?thesis
    proof (cases "out = Done")
      case True
      with snapshot show ?thesis
        by (intro life_inv_snapshot [OF inv snapshot(3,4,5,7), of m r]) (auto simp: snapshot_write_def WriteSnapshot_def)
    next
      case False
      with snapshot(8,9) have m: "r = None" "dk_snap (ma_disk m) = dk_snap (ma_disk (lf_mgr y))"
        by (auto simp: snapshot_write_def WriteSnapshot_def)
      note run = export_is_run [OF snapshot(4,5)]
      have "log_ok z" using log snapshot(1) by (simp add: log_ok_def)
      then show ?thesis using run snapshot(1,2,6) m seq write_holds [OF _ snapshot(9)]
        by (intro life_inv_keep [OF inv, of _ "concat (map fst bs)" evs "[]"]) auto
    qed
  next
    case (compaction n cout m ok)
    with life_inv_compaction [OF inv] show ?thesis by simp
  qed
qed

lemma life_reach_inv: "life_reach hash y0 y \<Longrightarrow> life_inv hash c0 y0 \<Longrightarrow> life_inv hash c0 y"
  by (induction rule: life_reach.induct) (auto intro: life_step_inv)

end
