(* ===== verification/Life_Thms.thy ===== *)
theory Life_Thms
  imports Life
begin

section \<open>What a process leaves on the disk\<close>

text \<open>
  The theorems on the life of a process with persistence: after any number of operations, deliveries, ticks and snapshots, complete or
  failed, what recovery reads from the files when the process is stopped and when it crashes.
\<close>



























subsection \<open>A compaction that fails after it has closed the log\<close>

lemma Flush_closed: "\<not> ah_open a \<Longrightarrow> bufio_Flush (d, a) = (x, ok) \<Longrightarrow> fst x = d \<and> \<not> ah_open (snd x)"
  by (auto simp: bufio_Flush_def split: if_splits)

lemma Write_closed: "\<not> ah_open a \<Longrightarrow> bufio_Write p (d, a) = (x, ok) \<Longrightarrow> fst x = d \<and> \<not> ah_open (snd x)"
proof (induction p "(d, a)" arbitrary: d a rule: bufio_Write.induct)
  case (1 p d a)
  let ?n = "bufSize - length (ah_buf a)"
  let ?f = "fst (bufio_Flush (d, a\<lparr>ah_buf := ah_buf a @ take ?n p\<rparr>))"
  have f: "?f = (d, snd ?f)" "\<not> ah_open (snd ?f)"
    using Flush_closed [of "a\<lparr>ah_buf := ah_buf a @ take ?n p\<rparr>" d] 1(4) by (cases "bufio_Flush (d, a\<lparr>ah_buf := ah_buf a @ take ?n p\<rparr>)"; auto)+
  show ?case
  proof (cases "length p > ?n \<and> \<not> ah_err a")
    case big: True
    show ?thesis
    proof (cases "ah_buf a = []")
      case True
      with big 1(4,5) show ?thesis
        using 1(2) [OF big True 1(4)] by (simp add: bufio_Write.simps [of p d a])
    next
      case False
      with big 1(5) f(1) have "bufio_Write (drop ?n p) (d, snd ?f) = (x, ok)" by (simp add: bufio_Write.simps [of p d a] Let_def)
      with 1(3) [OF big False refl f(1) [symmetric] f(2)] show ?thesis by simp
    qed
  qed (use 1(4,5) in \<open>auto simp: bufio_Write.simps [of p d a] split: if_splits\<close>)
qed

lemma write_ops_closed:
  assumes "\<not> ah_open (snd x)"
  shows "fst (fst (bufio_Write p x)) = fst x" "\<not> ah_open (snd (fst (bufio_Write p x)))"
    and "fst (fst (bufio_Flush x)) = fst x" "\<not> ah_open (snd (fst (bufio_Flush x)))"
    and "file_Sync x = (x, False)"
  using assms Write_closed [of "snd x" p "fst x"] Flush_closed [of "snd x" "fst x"]
  by (cases x; cases "bufio_Write p x"; cases "bufio_Flush x"; auto simp: file_Sync_def)+

lemma log_step_closed: "\<not> ah_open (snd x) \<Longrightarrow> fst (log_step y x) = fst x \<and> \<not> ah_open (snd (log_step y x))"
  by (cases y) (simp_all add: Append_def AOF_Sync_def everySec_tick_def split_beta Let_def write_ops_closed)

lemma log_run_closed: "\<not> ah_open (snd x) \<Longrightarrow> fst (log_run ys x) = fst x"
  by (induction ys arbitrary: x) (simp_all add: log_step_closed)

text \<open>When the compaction fails after it has closed the log, which it never opens again, no later append, tick or sync changes the files;
  and unless the policy is \<open>always\<close> the next append reports success.\<close>

theorem failed_compaction_drops:
  assumes "log_open x" and "log_bytes x = log_of evs" and "fit evs" and "Compact cout s x = (x1, ok)"
    and "cout \<in> {CFailClose, CFailRename, CFailReopen}"
  shows "\<not> ok \<and> fst (log_run ys x1) = fst x1 \<and>
    (ah_policy (snd x) \<noteq> SyncAlways \<longrightarrow> length (encodeRecord ev) \<le> bufSize \<longrightarrow> snd (Append ev x1))"
proof -
  obtain d a where x: "AOF_Sync x = ((d, a), True)" "log_open (d, a)" "log_bytes (d, a) = log_bytes x" "ah_buf a = []" "same_rest x (d, a)"
    using Sync_open [OF assms(1)] by (metis prod.collapse)
  then have "readRecords (dk_aof d) s = Inr (map ev_decoded (filter (\<lambda>ev. s < ev_Seq ev) evs))"
    using assms(2,3) by (cases "dk_aof d") (auto simp: readRecords_def ReadAOF_def log_bytes_def aof_bytes_def filter_decoded)
  with x assms(4,5) have x1: "\<not> ok" "snd x1 = a\<lparr>ah_open := False\<rparr>" by (auto simp: Compact_def Let_def)
  obtain d1 a1 where d1: "x1 = (d1, a1)" by (cases x1)
  have "snd (Append ev x1)" if "ah_policy (snd x) \<noteq> SyncAlways" "length (encodeRecord ev) \<le> bufSize"
    using that x x1(2) d1 by (auto simp: Append_def bufio_Write.simps same_rest_def log_open_def Let_def)
  then show ?thesis using x1 log_run_closed [of x1] by simp
qed

theorem failed_compaction_drops_witness:
  "\<not> snd (Compact CFailRename 1 (OpenAOF SyncNo ex_disk)) \<and>
   fst (log_run [LogAppend (ev_del ''k''), LogSync] (fst (Compact CFailRename 1 (OpenAOF SyncNo ex_disk)))) =
     fst (fst (Compact CFailRename 1 (OpenAOF SyncNo ex_disk))) \<and>
   snd (Append (ev_del ''k'') (fst (Compact CFailRename 1 (OpenAOF SyncNo ex_disk))))"
proof -
  have o: "log_open (OpenAOF SyncNo ex_disk)" "log_bytes (OpenAOF SyncNo ex_disk) = log_of []" "ah_policy (snd (OpenAOF SyncNo ex_disk)) \<noteq> SyncAlways"
    by (simp_all add: OpenAOF_def log_open_def log_bytes_def aof_bytes_def ex_disk_def SyncNo_def SyncAlways_def)
  have "length (encodeRecord (ev_del ''k'')) \<le> bufSize" by (simp add: encodeRecord_def encodeEvent_def ev_del_def bufSize_def)
  with failed_compaction_drops [OF o(1,2) _ surjective_pairing, of CFailRename 1 "[LogAppend (ev_del ''k''), LogSync]" "ev_del ''k''"] o(3)
  show ?thesis by simp
qed

end
