(* ===== verification/Replication.thy ===== *)
theory Replication
  imports Codec Follow
begin

section \<open>Replication\<close>

text \<open>
  internal/replication/primary.go and replica.go. The primary hands every event to the queue of each connected replica; a
  connection first sends a flush, the export of the cache and the number at its start, and then the queued
  events with a higher number. The replica applies the frames it reads. What a connection writes is a byte string, and
  what it has written is what the other end reads. The network may cut it anywhere: reading then ends with an error.
  The goroutines around these operations are in the theories on the life of a primary and of a replica.
\<close>

subsection \<open>The primary\<close>

record replicaConn =
  rc_addr :: string
  rc_ch :: "event list"
  rc_startSeq :: u64
  rc_lastSent :: u64
  rc_lastAck :: u64
  rc_connected :: int
  rc_done :: bool

definition chanCap :: nat where
  "chanCap = 8192"

definition newConn :: "string \<Rightarrow> int \<Rightarrow> replicaConn" where
  "newConn addr now =
     \<lparr>rc_addr = addr, rc_ch = [], rc_startSeq = 0, rc_lastSent = 0, rc_lastAck = 0, rc_connected = now, rc_done = False\<rparr>"

definition fail :: "replicaConn \<Rightarrow> replicaConn" where
  "fail rc = rc\<lparr>rc_done := True\<rparr>"

definition offer :: "event \<Rightarrow> replicaConn \<Rightarrow> replicaConn" where
  "offer ev rc = (if length (rc_ch rc) < chanCap then rc\<lparr>rc_ch := rc_ch rc @ [ev]\<rparr> else fail rc)"

text \<open>The connections are in a map, whose keys stand for the addresses of the objects.\<close>

record Primary =
  pr_replicas :: "(nat \<times> replicaConn) list"
  pr_quit :: bool

definition NewPrimary :: Primary where
  "NewPrimary = \<lparr>pr_replicas = [], pr_quit = False\<rparr>"

definition primary_onEvent :: "event \<Rightarrow> Primary \<Rightarrow> Primary" where
  "primary_onEvent ev p = p\<lparr>pr_replicas := map (\<lambda>(i, rc). (i, offer ev rc)) (pr_replicas p)\<rparr>"

definition replMagic :: string where
  "replMagic = ''DCREPL1'' @ [CHR 0x0A]"

text \<open>The start of \<open>handle\<close>: a peer that does not send the magic string is dropped, any other is registered before its
  snapshot is taken.\<close>

definition handle_start :: "nat \<Rightarrow> string \<Rightarrow> int \<Rightarrow> string \<Rightarrow> Primary \<Rightarrow> Primary option" where
  "handle_start i addr now inp p =
     (case ReadFull (length replMagic) inp of
        (Inl n, r) \<Rightarrow> None
      | (Inr magic, r) \<Rightarrow>
          if magic \<noteq> replMagic then None
          else Some (p\<lparr>pr_replicas := AList.update i (newConn addr now) (pr_replicas p)\<rparr>))"

definition handle_end :: "nat \<Rightarrow> Primary \<Rightarrow> Primary" where
  "handle_end i p = p\<lparr>pr_replicas := AList.delete i (pr_replicas p)\<rparr>"

text \<open>\<open>sendSnapshot\<close>, given the number that \<open>Seq\<close> returns after the \<open>Sync\<close> and the records that \<open>Export\<close> hands over.\<close>

definition event_frame :: "event \<Rightarrow> string" where
  "event_frame ev = writeFrame frameEvent (encodeEvent ev)"

definition sendSnapshot :: "u64 \<Rightarrow> (string \<times> bytes \<times> int) list \<Rightarrow> replicaConn \<Rightarrow> replicaConn \<times> string" where
  "sendSnapshot startSeq recs rc =
     (rc\<lparr>rc_startSeq := startSeq\<rparr>,
      event_frame ev_flush @ concat (map (\<lambda>(k, v, e). event_frame (ev_set k v e)) recs) @
      writeFrame frameSynced (u64Bytes startSeq))"

text \<open>One turn of \<open>stream\<close> that takes an event from the queue.\<close>

definition stream_turn :: "replicaConn \<Rightarrow> replicaConn \<times> string" where
  "stream_turn rc =
     (case rc_ch rc of
        [] \<Rightarrow> (rc, [])
      | ev # evs \<Rightarrow>
          if ev_Seq ev \<le> rc_startSeq rc then (rc\<lparr>rc_ch := evs\<rparr>, [])
          else (rc\<lparr>rc_ch := evs, rc_lastSent := ev_Seq ev\<rparr>, event_frame ev))"

definition readAcks_frame :: "(codec_error + frame) \<Rightarrow> replicaConn \<Rightarrow> replicaConn" where
  "readAcks_frame f rc =
     (case f of
        Inl e \<Rightarrow> fail rc
      | Inr (typ', payload) \<Rightarrow>
          if typ' = frameAck then
            (case readU64 (str_of payload) of None \<Rightarrow> rc | Some seq \<Rightarrow> rc\<lparr>rc_lastAck := seq\<rparr>)
          else rc)"

record ReplicaState =
  rs_Addr :: string
  rs_LastSentSeq :: u64
  rs_LastAckSeq :: u64
  rs_ConnectedAt :: int

definition Replicas :: "Primary \<Rightarrow> ReplicaState list" where
  "Replicas p = map (\<lambda>(i, rc). \<lparr>rs_Addr = rc_addr rc, rs_LastSentSeq = rc_lastSent rc, rs_LastAckSeq = rc_lastAck rc,
     rs_ConnectedAt = rc_connected rc\<rparr>) (pr_replicas p)"

definition NumReplicas :: "Primary \<Rightarrow> nat" where
  "NumReplicas p = length (pr_replicas p)"

definition Primary_Close :: "Primary \<Rightarrow> Primary" where
  "Primary_Close p = \<lparr>pr_replicas = map (\<lambda>(i, rc). (i, fail rc)) (pr_replicas p), pr_quit = True\<rparr>"

subsection \<open>The replica\<close>

record Replica =
  rp_cache :: cache
  rp_synced :: bool
  rp_lastApplied :: u64

definition NewReplica :: "cache \<Rightarrow> Replica" where
  "NewReplica c = \<lparr>rp_cache = c, rp_synced = False, rp_lastApplied = 0\<rparr>"

definition apply_frame ::
  "(string \<Rightarrow> u64) \<Rightarrow> string list list \<Rightarrow> frame \<Rightarrow> Replica \<Rightarrow> codec_error + Replica" where
  "apply_frame hash orders f r =
     (let (typ', payload) = f in
      if typ' = frameEvent then
        (case decodeEvent (str_of payload) of
           Inl e \<Rightarrow> Inl e
         | Inr ev \<Rightarrow>
             (let r1 = r\<lparr>rp_cache := ApplyEvent hash orders ev (rp_cache r)\<rparr> in
              Inr (if ev_Seq ev > 0 then r1\<lparr>rp_lastApplied := ev_Seq ev\<rparr> else r1)))
      else if typ' = frameSynced then
        (let r1 = (case readU64 (str_of payload) of None \<Rightarrow> r | Some seq \<Rightarrow> r\<lparr>rp_lastApplied := seq\<rparr>)
         in Inr (r1\<lparr>rp_synced := True\<rparr>))
      else Inr r)"

lemma readFrame_shorter: "readFrame inp = (Inr f, r) \<Longrightarrow> length r < length inp"
  by (auto simp: readFrame_def ReadFull_def Let_def split: if_splits)

text \<open>The loop of \<open>replicate\<close> on what the connection delivers; \<open>ord i\<close> are the orders of the range loops of the
  \<open>i\<close>-th event.\<close>

function replicate_loop ::
  "(string \<Rightarrow> u64) \<Rightarrow> (nat \<Rightarrow> string list list) \<Rightarrow> nat \<Rightarrow> string \<Rightarrow> Replica \<Rightarrow> Replica \<times> codec_error" where
  "replicate_loop hash ord i inp r =
     (case readFrame inp of
        (Inl e, rest) \<Rightarrow> (r, e)
      | (Inr f, rest) \<Rightarrow>
          (case apply_frame hash (ord i) f r of
             Inl e \<Rightarrow> (r, e)
           | Inr r1 \<Rightarrow> replicate_loop hash ord (if fst f = frameEvent then Suc i else i) rest r1))"
  by pat_completeness auto
termination
  by (relation "measure (\<lambda>(hash, ord, i, inp, r). length inp)") (auto dest: readFrame_shorter [OF sym])

declare replicate_loop.simps [simp del]

definition ack_frame :: "Replica \<Rightarrow> string" where
  "ack_frame r = writeFrame frameAck (u64Bytes (rp_lastApplied r))"

end
