(* ===== verification/Replication_Thms.thy ===== *)
theory Replication_Thms
  imports Replication Recovery_Thms
begin

section \<open>Properties of replication\<close>

text \<open>
  The stream of one connection has no gaps, and a replica that reads it holds what the primary holds.
\<close>

subsection \<open>One connection\<close>

datatype conn_op = Deliver event | Turn

fun conn_run :: "conn_op list \<Rightarrow> replicaConn \<Rightarrow> replicaConn \<times> string" where
  "conn_run [] rc = (rc, [])"
| "conn_run (Deliver ev # xs) rc = conn_run xs (offer ev rc)"
| "conn_run (Turn # xs) rc = (let (rc1, out) = stream_turn rc; (rc2, outs) = conn_run xs rc1 in (rc2, out @ outs))"

fun conn_delivered :: "conn_op list \<Rightarrow> event list" where
  "conn_delivered [] = []"
| "conn_delivered (Deliver ev # xs) = ev # conn_delivered xs"
| "conn_delivered (Turn # xs) = conn_delivered xs"

definition frames_of :: "event list \<Rightarrow> string" where
  "frames_of evs = concat (map event_frame evs)"

lemma frames_of_simps [simp]: "frames_of [] = []" "frames_of (ev # evs) = event_frame ev @ frames_of evs"
    "frames_of (xs @ ys) = frames_of xs @ frames_of ys"
  by (simp_all add: frames_of_def)

lemma conn_run_done: "conn_run xs rc = (rc', out) \<Longrightarrow> rc_done rc \<Longrightarrow> rc_done rc'"
  by (induction xs rc arbitrary: out rule: conn_run.induct)
    (auto simp: offer_def fail_def stream_turn_def split: prod.splits list.splits if_splits)

lemma conn_run_prefix:
  assumes "conn_run xs rc = (rc', out)" and "\<not> rc_done rc'"
  shows "\<exists>k \<le> length (rc_ch rc @ conn_delivered xs). rc_ch rc' = drop k (rc_ch rc @ conn_delivered xs) \<and>
    out = frames_of (filter (\<lambda>ev. rc_startSeq rc < ev_Seq ev) (take k (rc_ch rc @ conn_delivered xs)))"
  using assms
proof (induction xs rc arbitrary: out rule: conn_run.induct)
  case (1 rc)
  then show ?case by (intro exI [of _ 0]) simp
next
  case (2 ev xs rc)
  have "\<not> rc_done (offer ev rc)" using 2(2,3) conn_run_done [of xs "offer ev rc" rc' out] by auto
  then have "length (rc_ch rc) < chanCap" by (simp add: offer_def fail_def split: if_splits)
  with 2 show ?case by (simp add: offer_def)
next
  case (3 xs rc)
  obtain rc1 out1 where t: "stream_turn rc = (rc1, out1)" by (cases "stream_turn rc")
  obtain out2 where r: "conn_run xs rc1 = (rc', out2)" "out = out1 @ out2" using 3(2) t by (auto split: prod.splits)
  obtain k where k: "k \<le> length (rc_ch rc1 @ conn_delivered xs)" "rc_ch rc' = drop k (rc_ch rc1 @ conn_delivered xs)"
      "out2 = frames_of (filter (\<lambda>ev. rc_startSeq rc1 < ev_Seq ev) (take k (rc_ch rc1 @ conn_delivered xs)))"
    using 3(1) [OF t [symmetric] refl r(1) 3(3)] by blast
  show ?case
  proof (cases "rc_ch rc")
    case Nil
    then show ?thesis using t k r(2) by (intro exI [of _ k]) (auto simp: stream_turn_def)
  next
    case (Cons ev evs)
    then show ?thesis using t k r(2)
      by (intro exI [of _ "Suc k"]) (auto simp: stream_turn_def not_le [symmetric] split: if_splits)
  qed
qed

text \<open>C17: No gaps. In every interleaving of the dispatcher with the goroutine of a connection, as long as its queue has never
  overflowed, what the connection has written is the frames of a prefix of the events delivered to it, those up to the number
  of its snapshot left out, and the queue holds the rest.\<close>

theorem stream_without_gaps:
  assumes "conn_run xs rc = (rc', out)" and "\<not> rc_done rc'"
  shows "\<exists>k \<le> length (rc_ch rc @ conn_delivered xs). rc_ch rc' = drop k (rc_ch rc @ conn_delivered xs) \<and>
    out = frames_of (filter (\<lambda>ev. rc_startSeq rc < ev_Seq ev) (take k (rc_ch rc @ conn_delivered xs)))"
  by (rule conn_run_prefix [OF assms])

theorem stream_without_gaps_witness:
  "\<exists>k \<le> 1. snd (conn_run [Deliver ((ev_del ''k'')\<lparr>ev_Seq := 1\<rparr>), Turn] (newConn ''r'' 0)) =
     frames_of (take k [(ev_del ''k'')\<lparr>ev_Seq := 1\<rparr>])"
proof -
  let ?xs = "[Deliver ((ev_del ''k'')\<lparr>ev_Seq := 1\<rparr>), Turn]"
  obtain rc' out where r: "conn_run ?xs (newConn ''r'' 0) = (rc', out)" by (cases "conn_run ?xs (newConn ''r'' 0)")
  then have "\<not> rc_done rc'" by (auto simp: newConn_def offer_def chanCap_def stream_turn_def)
  from stream_without_gaps [OF r this] obtain k where "k \<le> 1"
    "out = frames_of (filter (\<lambda>ev. 0 < ev_Seq ev) (take k [(ev_del ''k'')\<lparr>ev_Seq := 1\<rparr>]))"
    by (auto simp: newConn_def)
  then show ?thesis using r by (intro exI [of _ k]) (cases k, simp_all)
qed

subsection \<open>The replica\<close>

definition frame_fit :: "event list \<Rightarrow> bool" where
  "frame_fit evs \<longleftrightarrow> list_all (\<lambda>ev. ev_fits ev \<and> length (encodeEvent ev) \<le> maxFrame) evs"

lemma frame_fit_simps [simp]: "frame_fit []"
    "frame_fit (ev # evs) \<longleftrightarrow> ev_fits ev \<and> length (encodeEvent ev) \<le> maxFrame \<and> frame_fit evs"
    "frame_fit (xs @ ys) \<longleftrightarrow> frame_fit xs \<and> frame_fit ys"
  by (simp_all add: frame_fit_def)

definition replica_apply :: "(string \<Rightarrow> u64) \<Rightarrow> string list list \<Rightarrow> event \<Rightarrow> Replica \<Rightarrow> Replica" where
  "replica_apply hash orders ev r =
     (let r1 = r\<lparr>rp_cache := ApplyEvent hash orders ev (rp_cache r)\<rparr> in
      if ev_Seq ev > 0 then r1\<lparr>rp_lastApplied := ev_Seq ev\<rparr> else r1)"

fun replica_applies :: "(string \<Rightarrow> u64) \<Rightarrow> (nat \<Rightarrow> string list list) \<Rightarrow> nat \<Rightarrow> event list \<Rightarrow> Replica \<Rightarrow> Replica" where
  "replica_applies hash ord i [] r = r"
| "replica_applies hash ord i (ev # evs) r = replica_applies hash ord (Suc i) evs (replica_apply hash (ord i) ev r)"

lemma encodeEvent_ne [simp]: "encodeEvent ev \<noteq> []"
  by (simp add: encodeEvent_def)

lemma replicate_frames:
  "frame_fit evs \<Longrightarrow> replicate_loop hash ord i (frames_of evs @ rest) r =
     replicate_loop hash ord (i + length evs) rest (replica_applies hash ord i (map ev_decoded evs) r)"
proof (induction evs arbitrary: i r)
  case (Cons ev evs)
  have f: "readFrame (event_frame ev @ frames_of evs @ rest) = (Inr (frameEvent, Some (encodeEvent ev)), frames_of evs @ rest)"
    using Cons.prems by (simp add: event_frame_def readFrame_write)
  have a: "apply_frame hash (ord i) (frameEvent, Some (encodeEvent ev)) r = Inr (replica_apply hash (ord i) (ev_decoded ev) r)"
    using Cons.prems by (simp add: apply_frame_def decodeEvent_encode replica_apply_def Let_def)
  have "replicate_loop hash ord i (frames_of (ev # evs) @ rest) r =
      replicate_loop hash ord (Suc i) (frames_of evs @ rest) (replica_apply hash (ord i) (ev_decoded ev) r)"
    by (subst replicate_loop.simps) (simp add: f a)
  with Cons.IH Cons.prems show ?case by simp
qed simp

lemma replicate_synced:
  "replicate_loop hash ord i (writeFrame frameSynced (u64Bytes s) @ rest) r =
     replicate_loop hash ord i rest (r\<lparr>rp_lastApplied := s, rp_synced := True\<rparr>)"
proof -
  have "readFrame (writeFrame frameSynced (u64Bytes s) @ rest) = (Inr (frameSynced, Some (u64Bytes s)), rest)"
    by (subst readFrame_write) (simp_all add: u64Bytes_def maxFrame_def PutUint64_def flip: length_greater_0_conv)
  then show ?thesis
    by (subst replicate_loop.simps) (simp add: apply_frame_def frameSynced_def frameEvent_def readU64_Bytes Let_def)
qed

lemma replicate_end: "replicate_loop hash ord i [] r = (r, ErrEOF)"
  by (subst replicate_loop.simps) (simp add: readFrame_def ReadFull_def)

lemma with_orders_Cons: "with_orders f (ev # evs) = (ev, f 0) # with_orders (\<lambda>j. f (Suc j)) evs"
  by (simp add: with_orders_def upt_conv_Cons map_Suc_upt [symmetric] comp_def del: upt_Suc)

lemma replica_applies_cache:
  "rp_cache (replica_applies hash ord i evs r) = apply_all hash (with_orders (\<lambda>j. ord (i + j)) evs) (rp_cache r)"
proof (induction evs arbitrary: i r)
  case (Cons ev evs)
  then show ?case by (simp add: with_orders_Cons replica_apply_def Let_def)
qed (simp add: with_orders_def)

lemma replica_applies_synced [simp]: "rp_synced (replica_applies hash ord i evs r) = rp_synced r"
  by (induction evs arbitrary: i r) (simp_all add: replica_apply_def Let_def)

lemma replica_applies_append:
  "replica_applies hash ord i (xs @ ys) r = replica_applies hash ord (i + length xs) ys (replica_applies hash ord i xs r)"
  by (induction xs arbitrary: i r) simp_all

lemma replica_applies_last:
  "\<forall>ev \<in> set evs. 0 < ev_Seq ev \<Longrightarrow>
     rp_lastApplied (replica_applies hash ord i evs r) = (if evs = [] then rp_lastApplied r else ev_Seq (last evs))"
  by (induction evs arbitrary: i r) (auto simp: replica_apply_def Let_def)

lemma rec_frames: "concat (map (\<lambda>(k, v, e). event_frame (ev_set k v e)) recs) = frames_of (map rec_ev recs)"
  by (induction recs) (auto simp: rec_ev_def)

lemma replicate_stream:
  assumes "frame_fit (ev_flush # map rec_ev recs)" and "frame_fit evs" and "\<forall>ev \<in> set evs. 0 < ev_Seq ev"
    and "replicate_loop hash ord 0 (snd (sendSnapshot s recs rc) @ frames_of evs) r = (r', e)"
  shows "rp_cache r' = apply_all hash (with_orders ord (map ev_decoded (ev_flush # map rec_ev recs @ evs))) (rp_cache r)"
    and "rp_synced r'" and "rp_lastApplied r' = (if evs = [] then s else ev_Seq (last evs))"
proof -
  let ?init = "map ev_decoded (ev_flush # map rec_ev recs)" and ?evs = "map ev_decoded evs"
  let ?r1 = "replica_applies hash ord 0 ?init r"
  let ?r2 = "?r1\<lparr>rp_lastApplied := s, rp_synced := True\<rparr>"
  have "snd (sendSnapshot s recs rc) @ frames_of evs =
      frames_of (ev_flush # map rec_ev recs) @ writeFrame frameSynced (u64Bytes s) @ frames_of evs @ []"
    by (simp add: sendSnapshot_def rec_frames)
  then have "replicate_loop hash ord 0 (snd (sendSnapshot s recs rc) @ frames_of evs) r =
      (replica_applies hash ord (length ?init) ?evs ?r2, ErrEOF)"
    by (simp only: replicate_frames [OF assms(1)] replicate_synced replicate_frames [OF assms(2)] replicate_end length_map add_0)
  then have r': "r' = replica_applies hash ord (length ?init) ?evs ?r2" using assms(4) by (simp only: prod.inject)
  have "rp_cache r' = rp_cache (replica_applies hash ord (0 + length ?init) ?evs ?r1)"
    unfolding r' by (simp add: replica_applies_cache)
  also have "\<dots> = rp_cache (replica_applies hash ord 0 (?init @ ?evs) r)" unfolding replica_applies_append ..
  finally show "rp_cache r' = apply_all hash (with_orders ord (map ev_decoded (ev_flush # map rec_ev recs @ evs))) (rp_cache r)"
    by (simp only: replica_applies_cache add_0 map_append [symmetric] append_Cons)
  show "rp_synced r'" unfolding r' by simp
  have "\<forall>ev \<in> set ?evs. 0 < ev_Seq ev" using assms(3) by simp
  from replica_applies_last [OF this, of hash ord "length ?init" ?r2]
  show "rp_lastApplied r' = (if evs = [] then s else ev_Seq (last evs))" unfolding r' by (auto simp: last_map)
qed

text \<open>Convergence. A replica without limits connects to a primary in use: its connection was registered before event
  \<open>n\<close> was delivered, its snapshot starts with the number \<open>n\<close> and exports the shards one by one while operations go on,
  and the later events follow. When it has read all of it the replica is synced, has applied the last event, and
  holds, whatever it held before, exactly the items of the primary that are not expired.\<close>

theorem replica_converges:
  assumes "cache_New uni rs cfg = Some (Inr c)" and "cache_run_ok hash xs c" and "cache_run hash xs c = (c1, evs1)"
    and "n \<le> length evs1"
    and "export_run hash now 0 bs c1 = (recs, c2, evs2)" and "export_ok hash now 0 bs c1"
    and "cache_run_ok hash ys c2" and "list_all (expire_clock now) ys" and "cache_run hash ys c2 = (c3, evs3)"
    and "map unnumbered log = map unnumbered (evs1 @ evs2 @ evs3)" and "numbered log" and "length log < 2 ^ 64"
    and "frame_fit (ev_flush # map rec_ev recs)" and "frame_fit log" and "j \<le> n"
    and "cache_inv hash' (rp_cache r)" and "\<forall>s \<in> set (c_shards (rp_cache r)). unlimited s"
    and "apply_all_ok hash' (with_orders ord (map ev_decoded (ev_flush # map rec_ev recs @ drop n log))) (rp_cache r)"
    and "replicate_loop hash' ord 0 (snd (sendSnapshot (of_nat n) recs rc) @
      frames_of (filter (\<lambda>ev. of_nat n < ev_Seq ev) (drop j log))) r = (r', e)"
    and "now \<le> t"
  shows "live t (cache_kv hash' (rp_cache r')) = live t (cache_kv hash c3) \<and> rp_synced r' \<and>
    rp_lastApplied r' = of_nat (length log)"
proof -
  have len: "n \<le> length log" using assms(4) arg_cong [OF assms(10), of length] by simp
  let ?new = "drop n log"
  let ?evs = "map ev_decoded (ev_flush # map rec_ev recs @ ?new)"
  have new: "filter (\<lambda>ev. of_nat n < ev_Seq ev) (drop j log) = ?new" by (rule numbered_filter [OF assms(11,12) len assms(15)])
  have fit: "frame_fit ?new" using assms(14) by (metis append_take_drop_id frame_fit_simps(3))
  have pos: "\<forall>ev \<in> set ?new. 0 < ev_Seq ev"
  proof
    fix ev assume "ev \<in> set ?new"
    then have "(of_nat n :: u64) < ev_Seq ev" unfolding new [symmetric] by simp
    then show "0 < ev_Seq ev" by (rule le_less_trans [rotated]) simp
  qed
  note st = replicate_stream [OF assms(13) fit pos assms(19) [unfolded new]]
  have "\<forall>ev \<in> set ?evs. known_op ev"
    using follow_known [OF assms(3,5,9,10)] by (auto simp: known_op_def ev_flush_def dest: in_set_dropD)
  moreover have "fst ` set (with_orders ord ?evs) = set ?evs" using map_fst_with_orders set_map by metis
  ultimately have "cache_kv hash' (rp_cache r') = fold apply_ev ?evs (cache_kv hash' (rp_cache r))"
    using apply_all_sound [OF assms(16-18)] by (simp only: st(1) map_fst_with_orders)
  then have "cache_kv hash' (rp_cache r') k = fold (ev_on k) (map rec_ev recs @ ?new) None" for k
  proof -
    assume "cache_kv hash' (rp_cache r') = fold apply_ev ?evs (cache_kv hash' (rp_cache r))"
    then have "cache_kv hash' (rp_cache r') k = fold (ev_on k) ?evs (cache_kv hash' (rp_cache r) k)" by (simp only: replay_on)
    also have "\<dots> = fold (ev_on k) (map rec_ev recs @ ?new) (ev_on k ev_flush (cache_kv hash' (rp_cache r) k))"
      by (simp only: fold_ev_on_decoded fold.simps comp_apply)
    also have "ev_on k ev_flush v = None" for v by (simp add: ev_on_def ev_flush_def)
    finally show ?thesis .
  qed
  from follow_live [OF cache_New_props(1) [OF assms(1)] assms(2-10) this assms(20)]
  have "live t (cache_kv hash' (rp_cache r')) = live t (cache_kv hash c3)" .
  moreover have "rp_lastApplied r' = of_nat (length log)"
  proof (cases "?new = []")
    case True
    then show ?thesis using st(3) len by simp
  next
    case False
    then have "last ?new = log ! (length log - 1)" by (simp add: last_conv_nth)
    with False show ?thesis using st(3) assms(11) by (simp add: numbered_def)
  qed
  ultimately show ?thesis using st(2) by blast
qed


definition ex_ord2 :: "nat \<Rightarrow> string list list" where
  "ex_ord2 i = (if i < 2 then [[], []] else [[], [''k'']])"

lemma ex_replica_ok:
  "apply_all_ok ex_hash (with_orders ex_ord2 (map ev_decoded (ev_flush # map rec_ev [(''k'', Some ''v'', 0)] @ drop 1 ex_log)))
     (rp_cache (NewReplica ex_none))"
  by code_simp

theorem replica_converges_witness:
  "\<exists>r' e. replicate_loop ex_hash ex_ord2 0 (snd (sendSnapshot 1 [(''k'', Some ''v'', 0)] (newConn ''r'' 0)) @
      frames_of (drop 1 ex_log)) (NewReplica ex_none) = (r', e) \<and> rp_synced r' \<and> rp_lastApplied r' = 2"
proof -
  let ?recs = "[(''k'', Some ''v'', 0)]"
  have f: "frame_fit (ev_flush # map rec_ev ?recs)" "frame_fit ex_log"
    by (simp_all add: ex_log_def rec_ev_def ev_fits_def ev_defs headerBytes_def int64_def maxFrame_def)
  have u: "map unnumbered ex_log = map unnumbered ([ev_set ''k'' (Some ''v'') 0] @ [] @ [ev_del ''k''])"
    by (simp add: ex_log_def unnumbered_def ev_defs)
  have num: "numbered ex_log" "length ex_log < 2 ^ 64" by (simp_all add: numbered_def ex_log_def less_Suc_eq)
  have c: "cache_inv ex_hash (rp_cache (NewReplica ex_none))" using ex_none_inv(1) by (simp add: NewReplica_def)
  have lim: "\<forall>s \<in> set (c_shards (rp_cache (NewReplica ex_none))). unlimited s"
    by (simp add: NewReplica_def ex_cache_def newShard_def unlimited_def)
  have s: "filter (\<lambda>ev. of_nat 1 < ev_Seq ev) (drop 0 ex_log) = drop 1 ex_log" by (simp add: ex_log_def)
  obtain r' e where r: "replicate_loop ex_hash ex_ord2 0 (snd (sendSnapshot (of_nat 1) ?recs (newConn ''r'' 0)) @
      frames_of (filter (\<lambda>ev. of_nat 1 < ev_Seq ev) (drop 0 ex_log))) (NewReplica ex_none) = (r', e)" by fastforce
  from replica_converges [OF ex_lru_New _ ex_runs(1) _ ex_runs(2) ex_export_ok _ _ ex_runs(3) u num f _ c lim ex_replica_ok r, of 5]
  have "rp_synced r'" "rp_lastApplied r' = 2" by (simp_all add: ex_log_def)
  with r show ?thesis unfolding s by simp
qed

end
