(* ===== verification/Replica_Run.thy ===== *)
theory Replica_Run
  imports Replication_Thms
begin

section \<open>The life of a replica\<close>

text \<open>
  The goroutines of internal/replication/replica.go: \<open>run\<close>, which dials, calls \<open>replicate\<close> and sleeps, the loop of acknowledgements, and
  the watcher that closes the connection when the replica is closed. Every step of one of them is an operation on the state, and a step relation
  composes them in any order with what the network does: bytes of the primary arrive in any pieces, and a connection may break, which
  loses the bytes behind some point.
\<close>

text \<open>Where \<open>run\<close> is: at the head of its loop, in the loop of \<open>replicate\<close>, in the deferred wait of \<open>replicate\<close> for the loop of
  acknowledgements, in the pause before the next attempt, or ended.\<close>

datatype run_phase = AtTop | Reading | Leaving codec_error | Pausing | Ended | Panicked

record replica_run =
  rn_rep :: Replica
  rn_phase :: run_phase
  rn_in :: string
  rn_broken :: bool
  rn_out :: string
  rn_acks :: bool
  rn_quit :: bool

definition replica_Start :: "Replica \<Rightarrow> replica_run" where
  "replica_Start r =
     \<lparr>rn_rep = r, rn_phase = AtTop, rn_in = [], rn_broken = True, rn_out = [], rn_acks = False, rn_quit = False\<rparr>"

text \<open>\<open>replicate\<close> returns an error: the connection is closed, and the replica is not synced any more.\<close>

definition run_failed :: "replica_run \<Rightarrow> replica_run" where
  "run_failed y = y\<lparr>rn_rep := (rn_rep y)\<lparr>rp_synced := False\<rparr>, rn_phase := Pausing, rn_in := [], rn_broken := True\<rparr>"

text \<open>The start of \<open>replicate\<close>; \<open>ok\<close> says whether the dial and the writing of the magic string succeed. The loop of acknowledgements
  starts after that.\<close>

definition replicate_dial :: "bool \<Rightarrow> replica_run \<Rightarrow> replica_run" where
  "replicate_dial ok y =
     (if \<not> ok then run_failed y
      else y\<lparr>rn_phase := Reading, rn_in := [], rn_broken := False, rn_out := replMagic, rn_acks := True\<rparr>)"

text \<open>The reader blocks until it has a whole frame or an error that does not depend on more input.\<close>

definition frame_ready :: "string \<Rightarrow> bool" where
  "frame_ready inp \<longleftrightarrow> fst (readFrame inp) \<notin> {Inl ErrEOF, Inl ErrUnexpectedEOF}"

definition replicate_leave :: "codec_error \<Rightarrow> replica_run \<Rightarrow> replica_run" where
  "replicate_leave e y = y\<lparr>rn_phase := (if e = CodecPanic then Panicked else Leaving e)\<rparr>"

definition replicate_turn :: "(string \<Rightarrow> u64) \<Rightarrow> string list list \<Rightarrow> replica_run \<Rightarrow> replica_run" where
  "replicate_turn hash orders y =
     (case readFrame (rn_in y) of
        (Inl e, rest) \<Rightarrow> replicate_leave e (y\<lparr>rn_in := rest\<rparr>)
      | (Inr f, rest) \<Rightarrow>
          (case apply_frame hash orders f (rn_rep y) of
             Inl e \<Rightarrow> replicate_leave e (y\<lparr>rn_in := rest\<rparr>)
           | Inr r \<Rightarrow> y\<lparr>rn_in := rest, rn_rep := r\<rparr>))"

text \<open>A tick of \<open>ackLoop\<close>; it ends when writing fails.\<close>

definition ackLoop_tick :: "bool \<Rightarrow> replica_run \<Rightarrow> replica_run" where
  "ackLoop_tick ok y = (if ok then y\<lparr>rn_out := rn_out y @ ack_frame (rn_rep y)\<rparr> else y\<lparr>rn_acks := False\<rparr>)"

definition replica_Close :: "replica_run \<Rightarrow> replica_run" where
  "replica_Close y = y\<lparr>rn_quit := True\<rparr>"

definition Synced :: "replica_run \<Rightarrow> bool" where
  "Synced y = rp_synced (rn_rep y)"

definition LastApplied :: "replica_run \<Rightarrow> u64" where
  "LastApplied y = rp_lastApplied (rn_rep y)"

datatype run_event =
  Dialled bool | Received string | FrameRead "string list list" | AckTick bool | AckQuit | Returned | Slept | QuitSeen
  | Lost nat | Watched nat | CloseCalled

definition connected :: "replica_run \<Rightarrow> bool" where
  "connected y \<longleftrightarrow> (case rn_phase y of Reading \<Rightarrow> True | Leaving e \<Rightarrow> True | _ \<Rightarrow> False)"

text \<open>The channel \<open>connDone\<close> that \<open>ackLoop\<close> also listens to is closed by a deferred call that runs after the wait for \<open>ackLoop\<close>, so that case of its
  select is never taken. The loop ends when the replica is closed or when a write fails, and a write fails only when the connection is
  broken.\<close>

inductive replica_step :: "(string \<Rightarrow> u64) \<Rightarrow> run_event \<Rightarrow> replica_run \<Rightarrow> replica_run \<Rightarrow> bool" for hash :: "string \<Rightarrow> u64" where
  dialled: "rn_phase y = AtTop \<Longrightarrow> \<not> rn_quit y \<Longrightarrow> replica_step hash (Dialled ok) y (replicate_dial ok y)"
| received: "connected y \<Longrightarrow> \<not> rn_broken y \<Longrightarrow> replica_step hash (Received bs) y (y\<lparr>rn_in := rn_in y @ bs\<rparr>)"
| frame_read: "rn_phase y = Reading \<Longrightarrow> rn_broken y \<or> frame_ready (rn_in y) \<Longrightarrow> orders_ok orders (rp_cache (rn_rep y)) \<Longrightarrow>
    replica_step hash (FrameRead orders) y (replicate_turn hash orders y)"
| ack_tick: "rn_acks y \<Longrightarrow> ok \<or> rn_broken y \<Longrightarrow> replica_step hash (AckTick ok) y (ackLoop_tick ok y)"
| ack_quit: "rn_acks y \<Longrightarrow> rn_quit y \<Longrightarrow> replica_step hash AckQuit y (y\<lparr>rn_acks := False\<rparr>)"
| returned: "rn_phase y = Leaving e \<Longrightarrow> \<not> rn_acks y \<Longrightarrow> replica_step hash Returned y (run_failed y)"
| slept: "rn_phase y = Pausing \<Longrightarrow> replica_step hash Slept y (y\<lparr>rn_phase := AtTop\<rparr>)"
| quit_seen: "rn_phase y \<in> {AtTop, Pausing} \<Longrightarrow> rn_quit y \<Longrightarrow> replica_step hash QuitSeen y (y\<lparr>rn_phase := Ended\<rparr>)"
| lost: "connected y \<Longrightarrow> replica_step hash (Lost n) y (y\<lparr>rn_in := take n (rn_in y), rn_broken := True\<rparr>)"
| watched: "connected y \<Longrightarrow> rn_quit y \<Longrightarrow> replica_step hash (Watched n) y (y\<lparr>rn_in := take n (rn_in y), rn_broken := True\<rparr>)"
| close_called: "replica_step hash CloseCalled y (replica_Close y)"

inductive_cases replica_stepE: "replica_step hash l y z"

inductive replica_steps :: "(string \<Rightarrow> u64) \<Rightarrow> run_event list \<Rightarrow> replica_run \<Rightarrow> replica_run \<Rightarrow> bool" for hash :: "string \<Rightarrow> u64" where
  steps_none: "replica_steps hash [] y y"
| steps_more: "replica_step hash l y z \<Longrightarrow> replica_steps hash ls z w \<Longrightarrow> replica_steps hash (l # ls) y w"

inductive_cases replica_steps_NilE [elim!]: "replica_steps hash [] y z"
inductive_cases replica_steps_ConsE: "replica_steps hash (l # ls) y z"

end
