(* ===== verification/Replica_Thms.thy ===== *)
theory Replica_Thms
  imports Replica_Run
begin

section \<open>Properties of the life of a replica\<close>

text \<open>
  A replica keeps the invariant of its cache whatever it reads, catches up in any connection that delivers the whole stream of the primary,
  in whatever pieces and after whatever came before, and gets stuck on a frame it refuses while the primary stays connected.
\<close>

subsection \<open>The cache of a replica\<close>








subsection \<open>A connection in pieces\<close>









lemma ackLoop_tick_rest [simp]:
  "rn_phase (ackLoop_tick ok y) = rn_phase y" "rn_in (ackLoop_tick ok y) = rn_in y" "rn_rep (ackLoop_tick ok y) = rn_rep y"
  "rn_broken (ackLoop_tick ok y) = rn_broken y" "rn_quit (ackLoop_tick ok y) = rn_quit y"
  by (simp_all add: ackLoop_tick_def)












subsection \<open>Reading what has arrived\<close>






text \<open>An example: a first dial fails, and the second connection brings a snapshot with one key and its deletion.\<close>

definition ex_dialled :: replica_run where
  "ex_dialled = replicate_dial True ((run_failed (replica_Start (NewReplica ex_none)))\<lparr>rn_phase := AtTop\<rparr>)"





subsection \<open>A frame that the replica refuses\<close>

lemma readFrame_too_large:
  assumes "maxFrame < length p" and "length p < 2 ^ 32"
  shows "fst (readFrame (writeFrame t p @ r)) = Inl ErrFrameTooLarge"
proof -
  let ?h = "char_of (unat t) # PutUint32 (length p)"
  have "Uint32 (PutUint32 (length p)) = length p" using assms(2) Uint32_Put [of "length p" "[]"] by simp
  moreover have "ReadFull 5 (?h @ p @ r) = (Inr ?h, p @ r)" by (rule ReadFull_append) simp
  ultimately show ?thesis using assms(1) by (simp add: readFrame_def writeFrame_def)
qed

lemma leaving_stuck:
  assumes "replica_steps hash ls y z" and "\<forall>l \<in> set ls. l \<noteq> CloseCalled \<and> (\<forall>n. l \<noteq> Lost n)"
    and "rn_phase y = Leaving e" and "\<not> rn_broken y" and "rn_acks y" and "\<not> rn_quit y"
  shows "rn_phase z = Leaving e \<and> rn_rep z = rn_rep y"
  using assms
proof (induction rule: replica_steps.induct)
  case (steps_more l y y1 ls z)
  from steps_more(1) have "rn_phase y1 = Leaving e \<and> \<not> rn_broken y1 \<and> rn_acks y1 \<and> \<not> rn_quit y1 \<and> rn_rep y1 = rn_rep y"
    using steps_more(4-8) by cases (auto simp: ackLoop_tick_def connected_def)
  then show ?case using steps_more by simp
qed simp

text \<open>C39: The primary sends every event as one frame, whatever its size, but the replica refuses a frame of more than 512 MiB; a key and a value of
  256 MiB each, which the server accepts, make a larger one. The read loop then ends with an error, but \<open>replicate\<close> waits for the loop of acknowledgements before
  it closes the connection. As long as the primary stays connected and the replica is not closed, whatever else happens, it never
  returns: the replica applies nothing more, does not connect anew, and goes on to report that it is synced.\<close>

theorem replica_stalls:
  assumes "rn_phase y = Reading" and "\<not> rn_broken y" and "rn_acks y" and "\<not> rn_quit y" and "rn_in y = event_frame ev @ rest"
    and "maxFrame < length (encodeEvent ev)" and "length (encodeEvent ev) < 2 ^ 32"
    and "replica_steps hash (FrameRead orders # ls) y z" and "\<forall>l \<in> set ls. l \<noteq> CloseCalled \<and> (\<forall>n. l \<noteq> Lost n)"
  shows "rn_phase z = Leaving ErrFrameTooLarge \<and> rn_rep z = rn_rep y \<and> Synced z = Synced y"
proof -
  obtain y1 where "replica_steps hash ls y1 z" "y1 = replicate_turn hash orders y"
    using assms(8) by (auto elim!: replica_steps_ConsE replica_stepE)
  moreover have "fst (readFrame (rn_in y)) = Inl ErrFrameTooLarge"
    unfolding assms(5) event_frame_def by (rule readFrame_too_large [OF assms(6,7)])
  ultimately show ?thesis using assms(2-4) leaving_stuck [OF _ assms(9), of hash y1 z ErrFrameTooLarge]
    by (auto simp: replicate_turn_def replicate_leave_def Synced_def split: prod.splits)
qed

definition ex_large :: event where
  "ex_large = ev_set (replicate (256 * 2 ^ 20) CHR ''k'') (Some (replicate (256 * 2 ^ 20) CHR ''v'')) 0"

theorem replica_stalls_witness:
  "\<exists>z. replica_steps ex_hash [FrameRead [[], []], AckTick True] (ex_dialled\<lparr>rn_in := event_frame ex_large\<rparr>) z \<and>
     rn_phase z = Leaving ErrFrameTooLarge"
proof -
  let ?y = "ex_dialled\<lparr>rn_in := event_frame ex_large\<rparr>"
  have y: "rn_phase ?y = Reading" "\<not> rn_broken ?y" "rn_acks ?y" "\<not> rn_quit ?y" "rn_in ?y = event_frame ex_large @ []" "rp_cache (rn_rep ?y) = ex_none"
    by (simp_all add: ex_dialled_def replicate_dial_def run_failed_def replica_Start_def NewReplica_def)
  have len: "length (encodeEvent ex_large) = 25 + 512 * 2 ^ 20"
    by (simp add: ex_large_def encodeEvent_def ev_set_def PutUint64_def)
  then have l: "maxFrame < length (encodeEvent ex_large)" "length (encodeEvent ex_large) < 2 ^ 32" by (simp_all add: maxFrame_def)
  then have t: "fst (readFrame (rn_in ?y)) = Inl ErrFrameTooLarge"
    using readFrame_too_large [OF l, of frameEvent "[]"] by (simp add: event_frame_def)
  have o: "orders_ok [[], []] ex_none" by code_simp
  let ?y1 = "replicate_turn ex_hash [[], []] ?y"
  have s1: "replica_step ex_hash (FrameRead [[], []]) ?y ?y1" using frame_read [OF y(1)] t o y(6) by (simp add: frame_ready_def)
  have "rn_acks ?y1" using t y(3) by (auto simp: replicate_turn_def replicate_leave_def split: prod.splits)
  then have "replica_step ex_hash (AckTick True) ?y1 (ackLoop_tick True ?y1)" by (rule ack_tick) simp
  note s = steps_more [OF s1 steps_more [OF this steps_none]]
  have "rn_phase (ackLoop_tick True ?y1) = Leaving ErrFrameTooLarge" using replica_stalls [OF y(1-5) l s] by simp
  then show ?thesis using s by (intro exI [of _ "ackLoop_tick True ?y1"] conjI)
qed

end
