(* ===== verification/Primary_Run.thy ===== *)
theory Primary_Run
  imports Replication
begin

section \<open>The goroutines of a primary\<close>

text \<open>
  internal/replication/primary.go: the accept loop of \<open>Serve\<close>, the goroutine of every connection with the whole of \<open>handle\<close>, and \<open>Close\<close>, which waits for the
  goroutines. A handler first reads the magic string, is then registered and streams, and is removed when it leaves. The steps compose in any
  order with the delivery of events.
\<close>

datatype handler = ReadingMagic | Streaming

record primary_run =
  pm_primary :: Primary
  pm_handlers :: "(nat \<times> handler) list"
  pm_serving :: bool


text \<open>A turn of \<open>Serve\<close>: a connection, or an error, which ends the loop; the second component is then whether \<open>Serve\<close> returns nil.\<close>

definition primary_Serve_turn :: "nat option \<Rightarrow> primary_run \<Rightarrow> primary_run \<times> bool option" where
  "primary_Serve_turn acc y =
     (case acc of
        Some i \<Rightarrow> (y\<lparr>pm_handlers := AList.update i ReadingMagic (pm_handlers y)\<rparr>, None)
      | None \<Rightarrow> (y\<lparr>pm_serving := False\<rparr>, Some (pr_quit (pm_primary y))))"

text \<open>\<open>Addr\<close>: the address of the listener, once there is one.\<close>

definition primary_Addr :: "string option \<Rightarrow> string \<Rightarrow> string" where
  "primary_Addr ln addr = (case ln of Some a \<Rightarrow> a | None \<Rightarrow> addr)"

text \<open>The goroutine ends: the deferred \<open>Done\<close>.\<close>

definition handler_done :: "nat \<Rightarrow> primary_run \<Rightarrow> primary_run" where
  "handler_done i y = y\<lparr>pm_handlers := AList.delete i (pm_handlers y)\<rparr>"

text \<open>\<open>handle\<close> up to the registration, on the bytes that reading the magic string gets.\<close>

definition handle_magic :: "nat \<Rightarrow> string \<Rightarrow> int \<Rightarrow> string \<Rightarrow> primary_run \<Rightarrow> primary_run" where
  "handle_magic i addr now inp y =
     (case handle_start i addr now inp (pm_primary y) of
        None \<Rightarrow> handler_done i y
      | Some p \<Rightarrow> y\<lparr>pm_primary := p, pm_handlers := AList.update i Streaming (pm_handlers y)\<rparr>)"

text \<open>The snapshot is sent; \<open>ok\<close> is False when a write fails, and then \<open>handle\<close> returns.\<close>

definition handle_leave :: "nat \<Rightarrow> primary_run \<Rightarrow> primary_run" where
  "handle_leave i y = handler_done i (y\<lparr>pm_primary := handle_end i (pm_primary y)\<rparr>)"

definition handle_snapshot :: "bool \<Rightarrow> u64 \<Rightarrow> (string \<times> bytes \<times> int) list \<Rightarrow> nat \<Rightarrow> primary_run \<Rightarrow> primary_run" where
  "handle_snapshot ok startSeq recs i y =
     (if \<not> ok then handle_leave i y
      else (case map_of (pr_replicas (pm_primary y)) i of
              None \<Rightarrow> y
            | Some rc \<Rightarrow>
                y\<lparr>pm_primary := (pm_primary y)\<lparr>pr_replicas :=
                   AList.update i (fst (sendSnapshot startSeq recs rc)) (pr_replicas (pm_primary y))\<rparr>\<rparr>))"

text \<open>A turn of \<open>stream\<close>: it returns when the primary is closed, when the connection has failed, or when a write fails.\<close>

definition stream_step :: "bool \<Rightarrow> nat \<Rightarrow> primary_run \<Rightarrow> primary_run" where
  "stream_step ok i y =
     (case map_of (pr_replicas (pm_primary y)) i of
        None \<Rightarrow> y
      | Some rc \<Rightarrow>
          if pr_quit (pm_primary y) \<or> rc_done rc \<or> \<not> ok then handle_leave i y
          else y\<lparr>pm_primary := (pm_primary y)\<lparr>pr_replicas :=
                 AList.update i (fst (stream_turn rc)) (pr_replicas (pm_primary y))\<rparr>\<rparr>)"

definition readAcks_step :: "(codec_error + frame) \<Rightarrow> nat \<Rightarrow> primary_run \<Rightarrow> primary_run" where
  "readAcks_step f i y =
     (case map_of (pr_replicas (pm_primary y)) i of
        None \<Rightarrow> y
      | Some rc \<Rightarrow>
          y\<lparr>pm_primary := (pm_primary y)\<lparr>pr_replicas := AList.update i (readAcks_frame f rc) (pr_replicas (pm_primary y))\<rparr>\<rparr>)"


datatype primary_event =
  Accept "nat option" | Magic nat string int string | SnapshotSent bool u64 "(string \<times> bytes \<times> int) list" nat | StreamTurn bool nat
  | AckRead "codec_error + frame" nat | EventDelivered event | PrimaryClosed

text \<open>The bytes of \<open>Magic\<close> are eight, or fewer when the peer has closed its end; a peer that does neither lets the handler wait.\<close>

fun primary_step :: "primary_event \<Rightarrow> primary_run \<Rightarrow> primary_run" where
  "primary_step (Accept acc) y = fst (primary_Serve_turn acc y)"
| "primary_step (Magic i addr now inp) y = handle_magic i addr now inp y"
| "primary_step (SnapshotSent ok s recs i) y = handle_snapshot ok s recs i y"
| "primary_step (StreamTurn ok i) y = stream_step ok i y"
| "primary_step (AckRead f i) y = readAcks_step f i y"
| "primary_step (EventDelivered ev) y = y\<lparr>pm_primary := primary_onEvent ev (pm_primary y)\<rparr>"
| "primary_step PrimaryClosed y = y\<lparr>pm_primary := Primary_Close (pm_primary y)\<rparr>"

text \<open>When a step is possible: the accept loop runs and gives a new connection, and a handler is where the step says.\<close>

fun primary_can :: "primary_event \<Rightarrow> primary_run \<Rightarrow> bool" where
  "primary_can (Accept acc) y = (pm_serving y \<and> (\<forall>i. acc = Some i \<longrightarrow> i \<notin> mkeys (pm_handlers y)))"
| "primary_can (Magic i addr now inp) y = (map_of (pm_handlers y) i = Some ReadingMagic)"
| "primary_can (SnapshotSent ok s recs i) y = (map_of (pm_handlers y) i = Some Streaming)"
| "primary_can (StreamTurn ok i) y = (map_of (pm_handlers y) i = Some Streaming)"
| "primary_can (AckRead f i) y = (map_of (pm_handlers y) i = Some Streaming)"
| "primary_can _ y = True"

fun primary_steps :: "primary_event list \<Rightarrow> primary_run \<Rightarrow> primary_run option" where
  "primary_steps [] y = Some y"
| "primary_steps (l # ls) y = (if primary_can l y then primary_steps ls (primary_step l y) else None)"

subsection \<open>The registered replicas\<close>

declare map_of_eq_Some_iff [simp del] Some_eq_map_of_iff [simp del]





lemma map_vals_fst [simp]: "map (fst \<circ> (\<lambda>(i, x). (i, f x))) m = map fst m" "fst ` (\<lambda>(i, x). (i, f x)) ` S = fst ` S"
  by (auto simp: image_image case_prod_unfold comp_def)



lemma primary_steps_append: "primary_steps (ls @ ms) y = (case primary_steps ls y of None \<Rightarrow> None | Some z \<Rightarrow> primary_steps ms z)"
  by (induction ls arbitrary: y) auto

subsection \<open>Closing\<close>








end
