(* ===== verification/Pubsub.thy ===== *)
theory Pubsub
  imports Prelude "HOL-Library.AList"
begin

section \<open>Publish and subscribe\<close>

text \<open>
  internal/pubsub/pubsub.go. A subscription is an object with a bounded channel; the broker maps each topic to
  the set of its subscriptions. Objects are named by numbers. The order in which \<open>Publish\<close> visits a set is an
  argument. \<open>Publish\<close> first copies the set under the lock and then sends without it, so a subscription may be closed between the
  two: a send on a closed channel panics (\<^const>\<open>None\<close>).
\<close>

record Message =
  ms_Topic :: string
  ms_Payload :: bytes

record Subscription =
  sb_topic :: string
  sb_cap :: nat
  sb_ch :: "Message list"
  sb_closed :: bool
  sb_dropped :: u64

record Broker =
  bk_topics :: "(string \<times> nat list) list"
  bk_subs :: "(nat \<times> Subscription) list"
  bk_next :: nat

definition NewBroker :: Broker where
  "NewBroker = \<lparr>bk_topics = [], bk_subs = [], bk_next = 0\<rparr>"

definition topic_subs :: "string \<Rightarrow> Broker \<Rightarrow> nat list" where
  "topic_subs topic b = (case map_of (bk_topics b) topic of None \<Rightarrow> [] | Some ids \<Rightarrow> ids)"

definition broker_Subscribe :: "string \<Rightarrow> int \<Rightarrow> Broker \<Rightarrow> Broker \<times> nat" where
  "broker_Subscribe topic buffer b =
     (let buffer1 = (if buffer \<le> 0 then 16 else buffer);
          i = bk_next b;
          sub = \<lparr>sb_topic = topic, sb_cap = nat buffer1, sb_ch = [], sb_closed = False, sb_dropped = 0\<rparr>
      in (b\<lparr>bk_topics := AList.update topic (topic_subs topic b @ [i]) (bk_topics b),
            bk_subs := AList.update i sub (bk_subs b), bk_next := Suc i\<rparr>, i))"

text \<open>\<open>select { case s.ch <- msg: default: s.dropped++ }\<close>\<close>

definition send_sub :: "Message \<Rightarrow> Subscription \<Rightarrow> Subscription option" where
  "send_sub msg s =
     (if sb_closed s then None
      else if length (sb_ch s) < sb_cap s then Some (s\<lparr>sb_ch := sb_ch s @ [msg]\<rparr>)
      else Some (s\<lparr>sb_dropped := sb_dropped s + 1\<rparr>))"

definition send_to :: "Message \<Rightarrow> nat \<Rightarrow> Broker \<Rightarrow> Broker option" where
  "send_to msg i b =
     (case map_of (bk_subs b) i of
        None \<Rightarrow> Some b
      | Some s \<Rightarrow> map_option (\<lambda>s'. b\<lparr>bk_subs := AList.update i s' (bk_subs b)\<rparr>) (send_sub msg s))"

fun send_all :: "Message \<Rightarrow> nat list \<Rightarrow> Broker \<Rightarrow> Broker option" where
  "send_all msg [] b = Some b"
| "send_all msg (i # targets) b = (case send_to msg i b of None \<Rightarrow> None | Some b1 \<Rightarrow> send_all msg targets b1)"

text \<open>\<open>targets\<close> is \<open>topic_subs topic b\<close> in the order of the range loop.\<close>

definition broker_Publish :: "string \<Rightarrow> bytes \<Rightarrow> nat list \<Rightarrow> Broker \<Rightarrow> Broker option \<times> nat" where
  "broker_Publish topic payload targets b =
     (send_all \<lparr>ms_Topic = topic, ms_Payload = payload\<rparr> targets b, length targets)"

definition broker_remove :: "nat \<Rightarrow> string \<Rightarrow> Broker \<Rightarrow> Broker" where
  "broker_remove i topic b =
     (case map_of (bk_topics b) topic of
        None \<Rightarrow> b
      | Some ids \<Rightarrow>
          (let ids1 = removeAll i ids in
           if ids1 = [] then b\<lparr>bk_topics := AList.delete topic (bk_topics b)\<rparr>
           else b\<lparr>bk_topics := AList.update topic ids1 (bk_topics b)\<rparr>))"

text \<open>\<open>Close\<close> has an effect once only.\<close>

definition sub_Close :: "nat \<Rightarrow> Broker \<Rightarrow> Broker" where
  "sub_Close i b =
     (case map_of (bk_subs b) i of
        None \<Rightarrow> b
      | Some s \<Rightarrow>
          if sb_closed s then b
          else (broker_remove i (sb_topic s) b)\<lparr>bk_subs := AList.update i (s\<lparr>sb_closed := True\<rparr>) (bk_subs b)\<rparr>)"

definition sub_Receive :: "nat \<Rightarrow> Broker \<Rightarrow> Broker \<times> Message option" where
  "sub_Receive i b =
     (case map_of (bk_subs b) i of
        None \<Rightarrow> (b, None)
      | Some s \<Rightarrow>
          (case sb_ch s of
             [] \<Rightarrow> (b, None)
           | m # ms \<Rightarrow> (b\<lparr>bk_subs := AList.update i (s\<lparr>sb_ch := ms\<rparr>) (bk_subs b)\<rparr>, Some m)))"

definition sub_Dropped :: "Subscription \<Rightarrow> u64" where
  "sub_Dropped s = sb_dropped s"

definition NumSubscribers :: "string \<Rightarrow> Broker \<Rightarrow> nat" where
  "NumSubscribers topic b = length (topic_subs topic b)"

definition Topics :: "Broker \<Rightarrow> string list" where
  "Topics b = map fst (bk_topics b)"

subsection \<open>The invariant\<close>

declare map_of_eq_Some_iff [simp del]

definition open_sub :: "Broker \<Rightarrow> nat \<Rightarrow> string \<Rightarrow> bool" where
  "open_sub b i t \<longleftrightarrow> (\<exists>s. map_of (bk_subs b) i = Some s \<and> sb_topic s = t \<and> \<not> sb_closed s)"

text \<open>A topic has an entry exactly when it has an open subscription, and lists each of them once. Channels are bounded.\<close>

definition broker_inv :: "Broker \<Rightarrow> bool" where
  "broker_inv b \<longleftrightarrow> wf_map (bk_topics b) \<and> (\<forall>t. map_of (bk_topics b) t \<noteq> Some []) \<and>
     (\<forall>t. distinct (topic_subs t b) \<and> (\<forall>i. i \<in> set (topic_subs t b) \<longleftrightarrow> open_sub b i t)) \<and>
     (\<forall>i s. map_of (bk_subs b) i = Some s \<longrightarrow> i < bk_next b \<and> length (sb_ch s) \<le> sb_cap s)"

lemma broker_inv_New: "broker_inv NewBroker"
  by (simp add: broker_inv_def NewBroker_def topic_subs_def open_sub_def)

lemma topic_subs_update [simp]:
  "topic_subs t (b\<lparr>bk_topics := AList.update t' ids m\<rparr>) = (if t = t' then ids else topic_subs t (b\<lparr>bk_topics := m\<rparr>))"
  "topic_subs t (b\<lparr>bk_topics := AList.delete t' m\<rparr>) = (if t = t' then [] else topic_subs t (b\<lparr>bk_topics := m\<rparr>))"
  "topic_subs t (b\<lparr>bk_subs := subs\<rparr>) = topic_subs t b" "topic_subs t (b\<lparr>bk_next := n\<rparr>) = topic_subs t b"
  "topic_subs t (b\<lparr>bk_topics := bk_topics b\<rparr>) = topic_subs t b"
  by (simp_all add: topic_subs_def)

lemma Subscribe_inv:
  assumes b: "broker_inv b" and sub: "broker_Subscribe topic buffer b = (b', i)"
  shows "broker_inv b'" and "open_sub b' i topic" and "i \<notin> mkeys (bk_subs b)"
proof -
  have i: "i = bk_next b" using sub by (simp add: broker_Subscribe_def Let_def)
  have fresh: "map_of (bk_subs b) i = None"
    using b unfolding broker_inv_def i by (cases "map_of (bk_subs b) (bk_next b)") auto
  then show "i \<notin> mkeys (bk_subs b)" by (simp add: map_of_eq_None_iff)
  define s where "s = \<lparr>sb_topic = topic, sb_cap = nat (if buffer \<le> 0 then 16 else buffer), sb_ch = [], sb_closed = False,
      sb_dropped = 0\<rparr>"
  have b': "bk_topics b' = AList.update topic (topic_subs topic b @ [i]) (bk_topics b)"
      "bk_subs b' = AList.update i s (bk_subs b)" "bk_next b' = Suc i"
    using sub by (auto simp: broker_Subscribe_def Let_def s_def)
  have subs: "topic_subs t b' = (if t = topic then topic_subs topic b @ [i] else topic_subs t b)" for t
    by (simp add: topic_subs_def [of t] b'(1))
  have op: "open_sub b' j t \<longleftrightarrow> open_sub b j t \<or> (j = i \<and> t = topic)" for j t
    using fresh by (auto simp: open_sub_def b'(2) s_def map_of_update)
  show "open_sub b' i topic" by (simp add: op)
  have inv: "wf_map (bk_topics b)" "\<forall>t. map_of (bk_topics b) t \<noteq> Some []" "distinct (topic_subs t b)"
      "j \<in> set (topic_subs t b) \<longleftrightarrow> open_sub b j t"
      "map_of (bk_subs b) j = Some s' \<Longrightarrow> j < bk_next b \<and> length (sb_ch s') \<le> sb_cap s'" for t j s'
    using b by (simp_all add: broker_inv_def)
  have ni: "\<not> open_sub b i t" for t using fresh by (simp add: open_sub_def)
  have "i \<notin> set (topic_subs t b)" for t using ni inv(4) by simp
  then have ms: "distinct (topic_subs t b')" "j \<in> set (topic_subs t b') \<longleftrightarrow> open_sub b' j t" for t j
    using inv(3,4) by (auto simp: subs op)
  have bound: "j < bk_next b' \<and> length (sb_ch s') \<le> sb_cap s'" if "map_of (bk_subs b') j = Some s'" for j s'
    using that inv(5) [of j s'] by (auto simp: b'(2,3) i s_def map_of_update split: if_splits)
  show "broker_inv b'"
    using ms bound inv(1,2) unfolding broker_inv_def b'(1) by (simp add: map_of_update)
qed


lemma put_sub_inv:
  assumes b: "broker_inv b" and s: "map_of (bk_subs b) i = Some s"
    and s': "sb_topic s' = sb_topic s" "sb_closed s' = sb_closed s" "length (sb_ch s') \<le> sb_cap s'"
  shows "broker_inv (b\<lparr>bk_subs := AList.update i s' (bk_subs b)\<rparr>)"
proof -
  let ?b = "b\<lparr>bk_subs := AList.update i s' (bk_subs b)\<rparr>"
  have op: "open_sub ?b j t = open_sub b j t" for j t
    using s s'(1,2) by (auto simp: open_sub_def map_of_update)
  have "j < bk_next ?b \<and> length (sb_ch u) \<le> sb_cap u" if "map_of (bk_subs ?b) j = Some u" for j u
    using that b s s'(3) unfolding broker_inv_def by (cases "j = i") (auto simp: map_of_update)
  then show ?thesis using b unfolding broker_inv_def op by simp
qed

lemma Receive_inv: "broker_inv b \<Longrightarrow> broker_inv (fst (sub_Receive i b))"
proof -
  assume b: "broker_inv b"
  then have "length (sb_ch s) \<le> sb_cap s" if "map_of (bk_subs b) i = Some s" for s
    using that unfolding broker_inv_def by blast
  then show ?thesis using put_sub_inv [OF b, of i]
    by (fastforce simp: sub_Receive_def b split: option.split list.split)
qed

lemma Close_inv:
  assumes b: "broker_inv b"
  shows "broker_inv (sub_Close i b)"
proof (cases "\<exists>s. map_of (bk_subs b) i = Some s \<and> \<not> sb_closed s")
  case False
  then have "sub_Close i b = b" by (auto simp: sub_Close_def split: option.split)
  with b show ?thesis by simp
next
  case True
  then obtain s where s: "map_of (bk_subs b) i = Some s" "\<not> sb_closed s" by blast
  let ?t = "sb_topic s" and ?b = "sub_Close i b"
  have inv: "wf_map (bk_topics b)" "\<forall>t. map_of (bk_topics b) t \<noteq> Some []" "distinct (topic_subs t b)"
      "j \<in> set (topic_subs t b) \<longleftrightarrow> open_sub b j t"
      "map_of (bk_subs b) j = Some s' \<Longrightarrow> j < bk_next b \<and> length (sb_ch s') \<le> sb_cap s'" for t j s'
    using b by (simp_all add: broker_inv_def)
  have "open_sub b i ?t" using s by (simp add: open_sub_def)
  then have "i \<in> set (topic_subs ?t b)" using inv(4) by simp
  then obtain ids where ids: "map_of (bk_topics b) ?t = Some ids" "topic_subs ?t b = ids"
    by (cases "map_of (bk_topics b) ?t") (simp_all add: topic_subs_def)
  have eq: "?b = (broker_remove i ?t b)\<lparr>bk_subs := AList.update i (s\<lparr>sb_closed := True\<rparr>) (bk_subs b)\<rparr>"
    using s by (simp add: sub_Close_def)
  have subs: "topic_subs t ?b = (if t = ?t then removeAll i (topic_subs t b) else topic_subs t b)" for t
    unfolding eq using ids by (auto simp: broker_remove_def Let_def)
  have bs: "bk_subs ?b = AList.update i (s\<lparr>sb_closed := True\<rparr>) (bk_subs b)" "bk_next ?b = bk_next b"
    unfolding eq by (simp_all add: broker_remove_def Let_def split: option.split)
  have op: "open_sub ?b j t \<longleftrightarrow> open_sub b j t \<and> j \<noteq> i" for j t
    using s by (auto simp: open_sub_def bs map_of_update)
  have other: "\<not> open_sub b i t" if "t \<noteq> ?t" for t using that s by (simp add: open_sub_def)
  have ms: "distinct (topic_subs t ?b)" "j \<in> set (topic_subs t ?b) \<longleftrightarrow> open_sub ?b j t" for t j
    using inv(3,4) other by (auto simp: subs op distinct_removeAll)
  have tops: "wf_map (bk_topics ?b)" "map_of (bk_topics ?b) t \<noteq> Some []" for t
    unfolding eq using inv(1,2) ids by (auto simp: broker_remove_def Let_def map_of_update split: if_splits)
  have bound: "j < bk_next ?b \<and> length (sb_ch s') \<le> sb_cap s'" if "map_of (bk_subs ?b) j = Some s'" for j s'
    using that inv(5) [OF s(1)] inv(5) [of j s'] by (auto simp: bs map_of_update split: if_splits)
  show ?thesis using ms tops bound by (simp add: broker_inv_def)
qed

subsection \<open>Publishing\<close>

definition room :: "Subscription \<Rightarrow> bool" where
  "room s \<longleftrightarrow> length (sb_ch s) < sb_cap s"

definition after_send :: "Message \<Rightarrow> Subscription \<Rightarrow> Subscription" where
  "after_send msg s = (if room s then s\<lparr>sb_ch := sb_ch s @ [msg]\<rparr> else s\<lparr>sb_dropped := sb_dropped s + 1\<rparr>)"

lemma after_send_keeps [simp]: "sb_topic (after_send msg s) = sb_topic s" "sb_closed (after_send msg s) = sb_closed s"
    "sb_cap (after_send msg s) = sb_cap s"
  by (simp_all add: after_send_def)

lemma send_all_spec:
  "distinct targets \<Longrightarrow> \<forall>i \<in> set targets. \<exists>s. map_of (bk_subs b) i = Some s \<and> \<not> sb_closed s \<Longrightarrow> broker_inv b \<Longrightarrow>
     \<exists>b'. send_all msg targets b = Some b' \<and> broker_inv b' \<and> bk_topics b' = bk_topics b \<and> bk_next b' = bk_next b \<and>
       (\<forall>i. map_of (bk_subs b') i = (if i \<in> set targets then map_option (after_send msg) (map_of (bk_subs b) i) else map_of (bk_subs b) i))"
proof (induction targets arbitrary: b)
  case (Cons i targets)
  obtain s where s: "map_of (bk_subs b) i = Some s" "\<not> sb_closed s" using Cons.prems(2) by auto
  let ?b = "b\<lparr>bk_subs := AList.update i (after_send msg s) (bk_subs b)\<rparr>"
  have st: "send_to msg i b = Some ?b" using s by (simp add: send_to_def send_sub_def after_send_def room_def)
  have "length (sb_ch s) \<le> sb_cap s" using Cons.prems(3) s(1) unfolding broker_inv_def by blast
  then have "length (sb_ch (after_send msg s)) \<le> sb_cap (after_send msg s)" by (simp add: after_send_def room_def)
  then have inv: "broker_inv ?b" using put_sub_inv [OF Cons.prems(3) s(1)] by simp
  have ts: "\<forall>j \<in> set targets. \<exists>s. map_of (bk_subs ?b) j = Some s \<and> \<not> sb_closed s"
    using Cons.prems(1,2) by (auto simp: map_of_update)
  obtain b' where b': "send_all msg targets ?b = Some b'" "broker_inv b'" "bk_topics b' = bk_topics ?b" "bk_next b' = bk_next ?b"
      "\<forall>i. map_of (bk_subs b') i = (if i \<in> set targets then map_option (after_send msg) (map_of (bk_subs ?b) i) else map_of (bk_subs ?b) i)"
    using Cons.IH [OF _ ts inv] Cons.prems(1) by auto
  have "map_of (bk_subs b') j = (if j \<in> set (i # targets) then map_option (after_send msg) (map_of (bk_subs b) j) else map_of (bk_subs b) j)" for j
    using b'(5) Cons.prems(1) s(1) by (cases "j = i") (auto simp: map_of_update)
  with b' st show ?case by simp
qed simp

text \<open>C35: Publishing delivers the message to exactly the open subscriptions of its topic: to each one that has room it is the last
  message of the channel, each one that is full counts a drop, nothing else changes, and the number of subscriptions is
  returned.\<close>

theorem publish_delivers:
  assumes "broker_inv b" and "distinct targets" and "set targets = set (topic_subs topic b)"
  shows "\<exists>b'. broker_Publish topic payload targets b = (Some b', NumSubscribers topic b) \<and> broker_inv b' \<and>
    (\<forall>i s. map_of (bk_subs b) i = Some s \<longrightarrow> map_of (bk_subs b') i = Some
       (if sb_topic s = topic \<and> \<not> sb_closed s
        then (if length (sb_ch s) < sb_cap s then s\<lparr>sb_ch := sb_ch s @ [\<lparr>ms_Topic = topic, ms_Payload = payload\<rparr>]\<rparr>
              else s\<lparr>sb_dropped := sb_dropped s + 1\<rparr>)
        else s))"
proof -
  let ?msg = "\<lparr>ms_Topic = topic, ms_Payload = payload\<rparr>"
  have mem: "i \<in> set targets \<longleftrightarrow> open_sub b i topic" for i using assms(1,3) by (simp add: broker_inv_def)
  then have t: "\<forall>i \<in> set targets. \<exists>s. map_of (bk_subs b) i = Some s \<and> \<not> sb_closed s" by (auto simp: open_sub_def)
  obtain b' where b': "send_all ?msg targets b = Some b'" "broker_inv b'"
      "\<forall>i. map_of (bk_subs b') i = (if i \<in> set targets then map_option (after_send ?msg) (map_of (bk_subs b) i) else map_of (bk_subs b) i)"
    using send_all_spec [OF assms(2) t assms(1)] by blast
  have "distinct (topic_subs topic b)" using assms(1) by (simp add: broker_inv_def)
  then have "length targets = NumSubscribers topic b"
    using assms(2,3) by (metis NumSubscribers_def distinct_card)
  with b' show ?thesis
    by (auto simp: broker_Publish_def mem open_sub_def after_send_def room_def)
qed

lemma ex_broker:
  "broker_inv (fst (broker_Subscribe ''t'' 1 NewBroker))" "topic_subs ''t'' (fst (broker_Subscribe ''t'' 1 NewBroker)) = [0]"
  using Subscribe_inv(1) [OF broker_inv_New, of "''t''" 1] by (auto simp: broker_Subscribe_def Let_def NewBroker_def topic_subs_def)

theorem publish_delivers_witness:
  "\<exists>b'. broker_Publish ''t'' (Some ''x'') [0] (fst (broker_Subscribe ''t'' 1 NewBroker)) = (Some b', 1)"
  using publish_delivers [OF ex_broker(1), of "[0]" "''t''" "Some ''x''"] ex_broker(2) by (auto simp: NumSubscribers_def)

text \<open>The targets are copied before the messages are sent. If a subscription is closed in between, the send panics.\<close>

theorem publish_races_close:
  assumes "broker_inv b" and "i \<in> set targets" and "set targets \<subseteq> set (topic_subs topic b)"
  shows "fst (broker_Publish topic payload targets (sub_Close i b)) = None"
proof -
  have mem: "\<exists>s. map_of (bk_subs b) j = Some s" if "j \<in> set targets" for j
  proof -
    have "open_sub b j topic" using that assms(1,3) by (auto simp: broker_inv_def)
    then show ?thesis by (auto simp: open_sub_def)
  qed
  have cl: "\<exists>s. map_of (bk_subs (sub_Close i b)) i = Some s \<and> sb_closed s"
    using mem [OF assms(2)] by (auto simp: sub_Close_def map_of_update split: option.split)
  have "send_all msg js c = None" if "i \<in> set js" "\<exists>s. map_of (bk_subs c) i = Some s \<and> sb_closed s" for msg js c
    using that
  proof (induction js arbitrary: c)
    case (Cons j js)
    show ?case
    proof (cases "j = i")
      case True
      then show ?thesis using Cons.prems(2) by (auto simp: send_to_def send_sub_def)
    next
      case False
      then have "\<exists>s. map_of (bk_subs c') i = Some s \<and> sb_closed s" if "send_to msg j c = Some c'" for c'
        using that Cons.prems(2) by (auto simp: send_to_def map_of_update split: option.splits)
      with Cons False show ?thesis by (auto split: option.split)
    qed
  qed simp
  then show ?thesis using assms(2) cl by (simp add: broker_Publish_def)
qed

theorem publish_races_close_witness:
  "fst (broker_Publish ''t'' None [0] (sub_Close 0 (fst (broker_Subscribe ''t'' 1 NewBroker)))) = None"
  using publish_races_close [OF ex_broker(1), of 0 "[0]" "''t''" None] ex_broker(2) by simp

end
