(* ===== verification/Registry.thy ===== *)
theory Registry
  imports Ring_Thms
begin

section \<open>The cluster registry\<close>

text \<open>
  internal/cluster/registry.go: the nodes of the cluster with the time at which each was last seen, and the
  hash ring of their names; and \<open>buildRegistry\<close> of cmd/cache-server/main.go, which reads the topology from a
  flag. A clock reading is an argument; times and durations are in nanoseconds.
\<close>

record nodeState =
  ns_id :: string
  ns_addr :: string
  ns_lastSeen :: int

record Node =
  nd_ID :: string
  nd_Addr :: string
  nd_LastSeen :: int
  nd_Alive :: bool
  nd_Self :: bool

record Registry =
  cr_selfID :: string
  cr_selfAddr :: string
  cr_rf :: int
  cr_failAfter :: int
  cr_nodes :: "(string \<times> nodeState) list"
  cr_ring :: ring

record cluster_config =
  cc_SelfID :: string
  cc_SelfAddr :: string
  cc_ReplicationFactor :: int
  cc_FailAfter :: int
  cc_VNodes :: int

definition addLocked :: "string \<Rightarrow> string \<Rightarrow> int \<Rightarrow> Registry \<Rightarrow> Registry" where
  "addLocked id' addr now r =
     (let r1 = (case map_of (cr_nodes r) id' of None \<Rightarrow> r\<lparr>cr_ring := ring_Add [id'] (cr_ring r)\<rparr> | Some n \<Rightarrow> r)
      in r1\<lparr>cr_nodes := AList.update id' \<lparr>ns_id = id', ns_addr = addr, ns_lastSeen = now\<rparr> (cr_nodes r)\<rparr>)"

definition registry_New :: "cluster_config \<Rightarrow> int \<Rightarrow> Registry" where
  "registry_New cfg now =
     addLocked (cc_SelfID cfg) (cc_SelfAddr cfg) now
       \<lparr>cr_selfID = cc_SelfID cfg, cr_selfAddr = cc_SelfAddr cfg,
        cr_rf = (if cc_ReplicationFactor cfg < 1 then 1 else cc_ReplicationFactor cfg), cr_failAfter = cc_FailAfter cfg,
        cr_nodes = [], cr_ring = ring_New (cc_VNodes cfg)\<rparr>"

definition registry_Add :: "string \<Rightarrow> string \<Rightarrow> int \<Rightarrow> Registry \<Rightarrow> Registry" where
  "registry_Add id' addr now r = addLocked id' addr now r"

definition registry_Remove :: "string \<Rightarrow> Registry \<Rightarrow> Registry" where
  "registry_Remove id' r =
     (case map_of (cr_nodes r) id' of
        None \<Rightarrow> r
      | Some n \<Rightarrow> r\<lparr>cr_nodes := AList.delete id' (cr_nodes r), cr_ring := ring_Remove id' (cr_ring r)\<rparr>)"

definition Heartbeat :: "string \<Rightarrow> int \<Rightarrow> Registry \<Rightarrow> Registry" where
  "Heartbeat id' now r =
     (case map_of (cr_nodes r) id' of
        None \<Rightarrow> r
      | Some n \<Rightarrow> r\<lparr>cr_nodes := AList.update id' (n\<lparr>ns_lastSeen := now\<rparr>) (cr_nodes r)\<rparr>)"

text \<open>\<open>time.Time.Sub\<close> saturates.\<close>

definition time_Sub :: "int \<Rightarrow> int \<Rightarrow> int" where
  "time_Sub t u = max (- (2 ^ 63)) (min maxInt64 (t - u))"

definition alive :: "Registry \<Rightarrow> nodeState \<Rightarrow> int \<Rightarrow> bool" where
  "alive r n now = (if cr_failAfter r \<le> 0 \<or> ns_id n = cr_selfID r then True else time_Sub now (ns_lastSeen n) \<le> cr_failAfter r)"

definition nodeView :: "string \<Rightarrow> int \<Rightarrow> Registry \<Rightarrow> Node" where
  "nodeView id' now r =
     (case map_of (cr_nodes r) id' of
        None \<Rightarrow> \<lparr>nd_ID = id', nd_Addr = '''', nd_LastSeen = 0, nd_Alive = False, nd_Self = False\<rparr>
      | Some n \<Rightarrow>
          \<lparr>nd_ID = ns_id n, nd_Addr = ns_addr n, nd_LastSeen = ns_lastSeen n, nd_Alive = alive r n now,
           nd_Self = (ns_id n = cr_selfID r)\<rparr>)"

definition Owner :: "string \<Rightarrow> int \<Rightarrow> Registry \<Rightarrow> Node option" where
  "Owner key now r = (let (id', ok) = ring_Get key (cr_ring r) in if \<not> ok then None else Some (nodeView id' now r))"

text \<open>Each call of \<open>nodeView\<close> reads the clock anew.\<close>

definition registry_Replicas :: "string \<Rightarrow> (nat \<Rightarrow> int) \<Rightarrow> Registry \<Rightarrow> Node list" where
  "registry_Replicas key now r =
     (let ids = ring_GetN key (cr_rf r) (cr_ring r) in map (\<lambda>(i, id'). nodeView id' (now i) r) (zip [0..<length ids] ids))"

definition IsLocal :: "string \<Rightarrow> Registry \<Rightarrow> bool" where
  "IsLocal key r = (let (id', ok) = ring_Get key (cr_ring r) in ok \<and> id' = cr_selfID r)"

definition registry_Nodes :: "(nat \<Rightarrow> int) \<Rightarrow> Registry \<Rightarrow> Node list" where
  "registry_Nodes now r =
     (let ids = map fst (cr_nodes r)
      in sort_key nd_ID (map (\<lambda>(i, id'). nodeView id' (now i) r) (zip [0..<length ids] ids)))"

definition registry_Self :: "int \<Rightarrow> Registry \<Rightarrow> Node" where
  "registry_Self now r = nodeView (cr_selfID r) now r"

definition registry_Size :: "Registry \<Rightarrow> nat" where
  "registry_Size r = length (cr_nodes r)"

subsection \<open>The topology flag\<close>

fun split_on :: "char \<Rightarrow> string \<Rightarrow> string list" where
  "split_on c [] = [[]]"
| "split_on c (x # xs) =
     (if x = c then [] # split_on c xs else (case split_on c xs of [] \<Rightarrow> [[x]] | s # ss \<Rightarrow> (x # s) # ss))"

text \<open>\<open>strings.TrimSpace\<close>; \<open>uni\<close> is its result on a string with bytes above 127, which may hold other spaces.\<close>

definition TrimSpace :: "(string \<Rightarrow> string) \<Rightarrow> string \<Rightarrow> string" where
  "TrimSpace uni s = (if is_ascii s then rev (dropWhile is_space (rev (dropWhile is_space s))) else uni s)"

text \<open>\<open>strings.Cut\<close>\<close>

definition cut :: "char \<Rightarrow> string \<Rightarrow> string \<times> string \<times> bool" where
  "cut c s =
     (case dropWhile (\<lambda>x. x \<noteq> c) s of
        [] \<Rightarrow> (s, [], False)
      | _ # rest \<Rightarrow> (takeWhile (\<lambda>x. x \<noteq> c) s, rest, True))"

text \<open>The loop over the parts of the flag; \<open>now i\<close> is the clock at the \<open>i\<close>-th node that is added. The error names the
  entry.\<close>

fun add_parts :: "(string \<Rightarrow> string) \<Rightarrow> (nat \<Rightarrow> int) \<Rightarrow> nat \<Rightarrow> string list \<Rightarrow> Registry \<Rightarrow> string + Registry" where
  "add_parts uni now i [] reg = Inr reg"
| "add_parts uni now i (p # ps) reg =
     (let part = TrimSpace uni p in
      if part = [] then add_parts uni now i ps reg
      else
        (let (id', addr, ok) = cut (CHR ''='') part in
         if \<not> ok then Inl part
         else add_parts uni now (Suc i) ps (registry_Add (TrimSpace uni id') (TrimSpace uni addr) (now i) reg)))"

definition buildRegistry ::
  "(string \<Rightarrow> string) \<Rightarrow> (nat \<Rightarrow> int) \<Rightarrow> int \<Rightarrow> string \<Rightarrow> string \<Rightarrow> int \<Rightarrow> string \<Rightarrow> string + Registry" where
  "buildRegistry uni now start selfID selfAddr rf spec =
     add_parts uni now 0 (split_on (CHR '','') spec)
       (registry_New \<lparr>cc_SelfID = selfID, cc_SelfAddr = selfAddr, cc_ReplicationFactor = rf,
          cc_FailAfter = 10 * 1000000000, cc_VNodes = 0\<rparr> start)"

subsection \<open>The invariant\<close>

declare map_of_eq_Some_iff [simp del]

inductive registry_reach :: "Registry \<Rightarrow> bool" where
  reg_new: "registry_reach (registry_New cfg now)"
| reg_add: "registry_reach r \<Longrightarrow> registry_reach (registry_Add id' addr now r)"
| reg_remove: "registry_reach r \<Longrightarrow> registry_reach (registry_Remove id' r)"
| reg_heartbeat: "registry_reach r \<Longrightarrow> registry_reach (Heartbeat id' now r)"

definition registry_inv :: "Registry \<Rightarrow> bool" where
  "registry_inv r \<longleftrightarrow> ring_reach (cr_ring r) \<and> wf_map (cr_nodes r) \<and>
     (\<forall>n. n \<in> mkeys (rg_nodes (cr_ring r)) \<longleftrightarrow> n \<in> mkeys (cr_nodes r)) \<and>
     (\<forall>id' n. map_of (cr_nodes r) id' = Some n \<longrightarrow> ns_id n = id')"

lemma ring_Add_nodes: "n \<in> mkeys (rg_nodes (ring_Add [m] r)) \<longleftrightarrow> n = m \<or> n \<in> mkeys (rg_nodes r)"
  by (cases "n = m") (auto simp: mkeys_iff ring_Add_def Let_def add_node_owners(4))

lemma ring_Remove_nodes:
  assumes "ring_reach r"
  shows "n \<in> mkeys (rg_nodes (ring_Remove m r)) \<longleftrightarrow> n \<noteq> m \<and> n \<in> mkeys (rg_nodes r)"
  using ring_member [of r m] ring_reach_inv [OF assms]
  by (auto simp: ring_inv_def ring_Remove_def Let_def mkeys_iff split: if_splits)

lemma addLocked_inv: "registry_inv r \<Longrightarrow> registry_inv (addLocked id' addr now r)"
  by (auto simp: registry_inv_def addLocked_def Let_def ring_Add_nodes [unfolded mkeys_iff] mkeys_iff map_of_update
      intro: ring_reach.add split: option.splits if_splits)

lemma registry_inv_reach: "registry_reach r \<Longrightarrow> registry_inv r"
proof (induction rule: registry_reach.induct)
  case (reg_new cfg now)
  show ?case unfolding registry_New_def
    by (rule addLocked_inv) (simp add: registry_inv_def ring_reach.fresh, simp add: ring_New_def)
next
  case (reg_add r id' addr now)
  then show ?case by (simp add: registry_Add_def addLocked_inv)
next
  case (reg_remove r id')
  then show ?case
    using ring_Remove_nodes [of "cr_ring r", unfolded mkeys_iff]
    by (auto simp: registry_inv_def registry_Remove_def mkeys_iff intro: ring_reach.remove split: option.splits if_splits)
next
  case (reg_heartbeat r id' now)
  then show ?case
    by (auto simp: registry_inv_def Heartbeat_def mkeys_iff map_of_update split: option.splits if_splits)
qed


subsection \<open>Owners\<close>

text \<open>The owner of a key is a registered node. Whatever nodes were added, removed and heard of, \<open>Owner\<close> returns a node of the
  registry with its current address and its liveness at the time of the call, and \<open>IsLocal\<close> holds exactly when that
  node is the server itself.\<close>

theorem owner_registered:
  assumes "registry_reach r" and "Owner key now r = Some n"
  shows "\<exists>ns. map_of (cr_nodes r) (nd_ID n) = Some ns \<and> nd_Addr n = ns_addr ns \<and>
    nd_Alive n = (cr_failAfter r \<le> 0 \<or> nd_ID n = cr_selfID r \<or> time_Sub now (ns_lastSeen ns) \<le> cr_failAfter r) \<and>
    nd_Self n = IsLocal key r"
proof -
  have inv: "registry_inv r" by (rule registry_inv_reach [OF assms(1)])
  obtain id' where g: "ring_Get key (cr_ring r) = (id', True)" "n = nodeView id' now r"
    using assms(2) by (auto simp: Owner_def split: prod.splits if_splits)
  have rr: "ring_inv (cr_ring r)" using inv ring_reach_inv by (simp add: registry_inv_def)
  have "rg_ring (cr_ring r) \<noteq> []" using g(1) by (auto simp: ring_Get_def)
  from ring_Get_owner(3) [OF rr this g(1)] have "id' \<in> mkeys (cr_nodes r)" using inv by (simp add: registry_inv_def)
  then obtain ns where ns: "map_of (cr_nodes r) id' = Some ns" by (auto simp: mkeys_iff)
  then have "ns_id ns = id'" using inv by (simp add: registry_inv_def)
  with ns g show ?thesis by (simp add: nodeView_def alive_def IsLocal_def)
qed

definition ex_registry :: Registry where
  "ex_registry = registry_Add ''b'' ''h2'' 5 (registry_New \<lparr>cc_SelfID = ''a'', cc_SelfAddr = ''h1'', cc_ReplicationFactor = 1,
     cc_FailAfter = 10, cc_VNodes = 1\<rparr> 0)"

lemma ex_registry_ring: "cr_ring ex_registry = ex_ring"
  by (simp add: ex_registry_def registry_Add_def registry_New_def addLocked_def Let_def ring_Add_def ring_New_def add_node_def
      add_vnode_def vnodes_one ex_hashes ex_ring_def)

theorem owner_registered_witness:
  "\<exists>n ns. Owner ''key'' 9 ex_registry = Some n \<and> nd_ID n = ''b'' \<and> map_of (cr_nodes ex_registry) ''b'' = Some ns \<and> nd_Addr n = ns_addr ns"
proof -
  have r: "registry_reach ex_registry" unfolding ex_registry_def by (intro registry_reach.intros)
  have o: "Owner ''key'' 9 ex_registry = Some (nodeView ''b'' 9 ex_registry)"
    by (simp add: Owner_def ex_registry_ring ex_ring_Get)
  have "nd_ID (nodeView ''b'' 9 ex_registry) = ''b''"
    by (simp add: nodeView_def ex_registry_def registry_Add_def registry_New_def addLocked_def Let_def)
  with owner_registered [OF r o] o show ?thesis by auto
qed

subsection \<open>The flag round trip\<close>

fun join_with :: "char \<Rightarrow> string list \<Rightarrow> string" where
  "join_with c [] = []"
| "join_with c [x] = x"
| "join_with c (x # y # xs) = x @ c # join_with c (y # xs)"

definition entry :: "string \<times> string \<Rightarrow> string" where
  "entry e = fst e @ ''='' @ snd e"

definition spaced :: "string \<Rightarrow> bool" where
  "spaced s \<longleftrightarrow> s \<noteq> [] \<and> (is_space (hd s) \<or> is_space (last s))"

definition entry_ok :: "string \<times> string \<Rightarrow> bool" where
  "entry_ok e \<longleftrightarrow> is_ascii (entry e) \<and> CHR '','' \<notin> set (entry e) \<and> CHR ''='' \<notin> set (fst e) \<and> \<not> spaced (fst e) \<and> \<not> spaced (snd e)"

lemma split_on_append: "c \<notin> set x \<Longrightarrow> split_on c (x @ c # r) = x # split_on c r"
  by (induction x) auto

lemma split_on_single: "c \<notin> set x \<Longrightarrow> split_on c x = [x]"
  by (induction x) auto

lemma split_join: "xs \<noteq> [] \<Longrightarrow> \<forall>x \<in> set xs. c \<notin> set x \<Longrightarrow> split_on c (join_with c xs) = xs"
  by (induction c xs rule: join_with.induct) (simp_all add: split_on_append split_on_single)

lemma TrimSpace_id: "is_ascii s \<Longrightarrow> \<not> spaced s \<Longrightarrow> TrimSpace uni s = s"
proof (cases "s = []")
  case False
  assume "is_ascii s" "\<not> spaced s"
  moreover have "dropWhile is_space s = s" "dropWhile is_space (rev s) = rev s"
    using False \<open>\<not> spaced s\<close> by (cases s, simp_all add: spaced_def, cases s rule: rev_cases, auto simp: spaced_def)
  ultimately show ?thesis by (simp add: TrimSpace_def)
qed (simp add: TrimSpace_def)

lemma entry_not_spaced: "entry_ok e \<Longrightarrow> \<not> spaced (entry e)"
  by (cases "fst e"; cases "snd e" rule: rev_cases) (auto simp: entry_ok_def spaced_def entry_def is_space_def split: if_splits)

lemma cut_entry: "entry_ok e \<Longrightarrow> cut (CHR ''='') (entry e) = (fst e, snd e, True)"
proof -
  assume "entry_ok e"
  then have "\<forall>x \<in> set (fst e). x \<noteq> CHR ''=''" by (auto simp: entry_ok_def)
  then show ?thesis by (simp add: cut_def entry_def dropWhile_append2 takeWhile_append2)
qed

fun add_entries :: "(nat \<Rightarrow> int) \<Rightarrow> nat \<Rightarrow> (string \<times> string) list \<Rightarrow> Registry \<Rightarrow> Registry" where
  "add_entries now i [] reg = reg"
| "add_entries now i (e # es) reg = add_entries now (Suc i) es (registry_Add (fst e) (snd e) (now i) reg)"

lemma add_parts_entries:
  "\<forall>e \<in> set es. entry_ok e \<Longrightarrow> add_parts uni now i (map entry es) reg = Inr (add_entries now i es reg)"
proof (induction es arbitrary: i reg)
  case (Cons e es)
  then have e: "entry_ok e" by simp
  then have "is_ascii (fst e)" "is_ascii (snd e)" "is_ascii (entry e)" "\<not> spaced (fst e)" "\<not> spaced (snd e)"
    by (auto simp: entry_ok_def entry_def is_ascii_def)
  with e entry_not_spaced [OF e] cut_entry [OF e] have "TrimSpace uni (entry e) = entry e" "TrimSpace uni (fst e) = fst e"
      "TrimSpace uni (snd e) = snd e" "entry e \<noteq> []"
    by (simp_all add: TrimSpace_id) (simp add: entry_def)
  with Cons cut_entry [OF e] show ?case by simp
qed simp

lemma add_entries_nodes:
  "mkeys (cr_nodes (add_entries now i es reg)) = mkeys (cr_nodes reg) \<union> fst ` set es"
proof (induction es arbitrary: i reg)
  case (Cons e es)
  have "mkeys (cr_nodes (registry_Add (fst e) (snd e) (now i) reg)) = insert (fst e) (mkeys (cr_nodes reg))"
    by (auto simp: registry_Add_def addLocked_def Let_def mkeys_iff map_of_update split: option.splits if_splits)
  with Cons show ?case by auto
qed simp

lemma add_entries_addr:
  "distinct (map fst es) \<Longrightarrow> (id', addr) \<in> set es \<or> id' \<notin> fst ` set es \<and> (\<exists>ns. map_of (cr_nodes reg) id' = Some ns \<and> ns_addr ns = addr) \<Longrightarrow>
     \<exists>ns. map_of (cr_nodes (add_entries now i es reg)) id' = Some ns \<and> ns_addr ns = addr"
proof (induction es arbitrary: i reg)
  case (Cons e es)
  let ?r = "registry_Add (fst e) (snd e) (now i) reg"
  have "map_of (cr_nodes ?r) id' = (if id' = fst e then Some \<lparr>ns_id = fst e, ns_addr = snd e, ns_lastSeen = now i\<rparr> else map_of (cr_nodes reg) id')"
    by (auto simp: registry_Add_def addLocked_def Let_def map_of_update split: option.splits)
  with Cons.prems have "(id', addr) \<in> set es \<or> id' \<notin> fst ` set es \<and> (\<exists>ns. map_of (cr_nodes ?r) id' = Some ns \<and> ns_addr ns = addr)"
    by (cases e) (auto simp: image_iff)
  with Cons.IH [of ?r "Suc i"] Cons.prems show ?case by simp
qed auto

text \<open>The topology flag. The printed form of a list of distinct nodes, with no commas, equal signs in names, or surrounding
  spaces in them, is read as the registry of exactly these nodes and the server itself, each with its address.\<close>

theorem topology_roundtrip:
  assumes "\<forall>e \<in> set es. entry_ok e" and "distinct (map fst es)"
  shows "\<exists>reg. buildRegistry uni now start selfID selfAddr rf (join_with (CHR '','') (map entry es)) = Inr reg \<and>
    mkeys (cr_nodes reg) = insert selfID (fst ` set es) \<and>
    (\<forall>(id', addr) \<in> set es. \<exists>ns. map_of (cr_nodes reg) id' = Some ns \<and> ns_addr ns = addr)"
proof -
  let ?cfg = "\<lparr>cc_SelfID = selfID, cc_SelfAddr = selfAddr, cc_ReplicationFactor = rf, cc_FailAfter = 10 * 1000000000, cc_VNodes = 0\<rparr>"
  let ?r0 = "registry_New ?cfg start" and ?spec = "join_with (CHR '','') (map entry es)"
  let ?reg = "add_entries now 0 es ?r0"
  have "add_parts uni now 0 (split_on (CHR '','') ?spec) ?r0 = Inr ?reg"
  proof (cases "es = []")
    case True
    then show ?thesis by (simp add: TrimSpace_def is_ascii_def)
  next
    case False
    have "\<forall>x \<in> set (map entry es). CHR '','' \<notin> set x" using assms(1) by (auto simp: entry_ok_def)
    then have "split_on (CHR '','') ?spec = map entry es" using False by (intro split_join) simp_all
    then show ?thesis using add_parts_entries [OF assms(1)] by simp
  qed
  moreover have "mkeys (cr_nodes ?r0) = {selfID}"
    by (simp add: registry_New_def addLocked_def Let_def)
  moreover have "\<forall>(id', addr) \<in> set es. \<exists>ns. map_of (cr_nodes ?reg) id' = Some ns \<and> ns_addr ns = addr"
    using add_entries_addr [OF assms(2)] by blast
  ultimately show ?thesis by (auto simp: buildRegistry_def add_entries_nodes)
qed

theorem topology_roundtrip_witness:
  "\<exists>reg. buildRegistry id (\<lambda>i. 0) 0 ''a'' ''h1'' 1 ''b=h2,c=h3'' = Inr reg \<and> mkeys (cr_nodes reg) = {''a'', ''b'', ''c''}"
  using topology_roundtrip [of "[(''b'', ''h2''), (''c'', ''h3'')]" id "\<lambda>i. 0" 0 "''a''" "''h1''" 1]
  by (auto simp: entry_ok_def entry_def spaced_def is_space_def is_ascii_def)

end
