(* ===== verification/Glob.thy ===== *)
theory Glob
  imports Prelude
begin

section \<open>Patterns of KEYS\<close>

text \<open>
  \<open>filepath.Match\<close> as \<open>cmdKeys\<close> of internal/server/commands.go uses it, on strings of ASCII bytes: on others a character
  may be several bytes, and the result is a parameter \<open>uni\<close>. \<^const>\<open>None\<close> is a malformed pattern, which the
  command treats as no match. A pattern is cut at its stars into chunks; after a star the first position at which the next
  chunk matches is taken.
\<close>

abbreviation Sep :: char where "Sep \<equiv> CHR ''/''"
abbreviation Esc :: char where "Esc \<equiv> CHR 0x5C"

fun scan_chunk :: "bool \<Rightarrow> string \<Rightarrow> string \<times> string" where
  "scan_chunk inrange [] = ([], [])"
| "scan_chunk inrange (c # cs) =
     (if c = Esc then
        (case cs of [] \<Rightarrow> ([c], []) | d # ds \<Rightarrow> (let (chunk, rest) = scan_chunk inrange ds in (c # d # chunk, rest)))
      else if c = CHR ''*'' \<and> \<not> inrange then ([], c # cs)
      else
        (let inrange1 = (if c = CHR ''['' then True else if c = CHR '']'' then False else inrange);
             (chunk, rest) = scan_chunk inrange1 cs
         in (c # chunk, rest)))"

definition scanChunk :: "string \<Rightarrow> bool \<times> string \<times> string" where
  "scanChunk pattern =
     (let p = dropWhile (\<lambda>c. c = CHR ''*'') pattern in (p \<noteq> pattern, scan_chunk False p))"

definition getEsc :: "string \<Rightarrow> (char \<times> string) option" where
  "getEsc chunk =
     (case chunk of
        [] \<Rightarrow> None
      | c # cs \<Rightarrow>
          if c = CHR ''-'' \<or> c = CHR '']'' then None
          else
            (case (if c = Esc then cs else chunk) of
               [] \<Rightarrow> None
             | d # ds \<Rightarrow> if ds = [] then None else Some (d, ds)))"

lemma getEsc_shorter: "getEsc chunk = Some (c, rest) \<Longrightarrow> length rest < length chunk"
  by (auto simp: getEsc_def split: list.splits if_splits)

definition char_le :: "char \<Rightarrow> char \<Rightarrow> bool" where
  "char_le a b \<longleftrightarrow> (of_char a :: nat) \<le> of_char b"

text \<open>The ranges of a class; \<open>first\<close> holds before the first of them.\<close>

function class_loop :: "char \<Rightarrow> bool \<Rightarrow> bool \<Rightarrow> string \<Rightarrow> (bool \<times> string) option" where
  "class_loop r first matched chunk =
     (if \<not> first \<and> chunk \<noteq> [] \<and> hd chunk = CHR '']'' then Some (matched, tl chunk)
      else
        (case getEsc chunk of
           None \<Rightarrow> None
         | Some (lo, chunk1) \<Rightarrow>
             if hd chunk1 = CHR ''-'' then
               (case getEsc (tl chunk1) of
                  None \<Rightarrow> None
                | Some (hi, chunk2) \<Rightarrow> class_loop r False (matched \<or> (char_le lo r \<and> char_le r hi)) chunk2)
             else class_loop r False (matched \<or> r = lo) chunk1))"
  by pat_completeness auto
termination
  by (relation "measure (\<lambda>(r, first, matched, chunk). length chunk)") (auto dest!: getEsc_shorter)

declare class_loop.simps [simp del]

lemma class_loop_shorter: "class_loop r first matched chunk = Some (m, rest) \<Longrightarrow> length rest < length chunk"
proof (induction "length chunk" arbitrary: chunk first matched rule: less_induct)
  case less
  have ih: "length rest < length chunk" if "class_loop r f' m' c' = Some (m, rest)" "length c' < length chunk" for f' m' c'
    using less.hyps [OF that(2,1)] that(2) by simp
  from less.prems show ?case
    by (subst (asm) class_loop.simps)
      (force split: if_splits option.splits prod.splits dest: getEsc_shorter intro: ih)
qed

text \<open>\<open>matchChunk\<close>: the rest of the name and whether the chunk matched; a chunk that does not match is still parsed to its
  end.\<close>

function match_chunk :: "bool \<Rightarrow> string \<Rightarrow> string \<Rightarrow> (string \<times> bool) option" where
  "match_chunk failed [] s = Some (if failed then ([], False) else (s, True))"
| "match_chunk failed (c # cs) s =
     (let failed1 = (failed \<or> s = []) in
      if c = CHR ''['' then
        (let r = (if failed1 then CHR 0x00 else hd s);
             s1 = (if failed1 then s else tl s);
             negated = (cs \<noteq> [] \<and> hd cs = CHR ''^'')
         in case class_loop r True False (if negated then tl cs else cs) of
              None \<Rightarrow> None
            | Some (m, rest) \<Rightarrow> match_chunk (failed1 \<or> m = negated) rest s1)
      else if c = CHR ''?'' then
        (if failed1 then match_chunk True cs s else match_chunk (hd s = Sep) cs (tl s))
      else
        (case (if c = Esc then cs else c # cs) of
           [] \<Rightarrow> None
         | d # ds \<Rightarrow> if failed1 then match_chunk True ds s else match_chunk (d \<noteq> hd s) ds (tl s)))"
  by pat_completeness auto
termination
  by (relation "measure (\<lambda>(failed, chunk, s). length chunk)")
    (auto dest!: class_loop_shorter [OF sym] class_loop_shorter split: if_splits list.splits)

declare match_chunk.simps [simp del]

definition matchChunk :: "string \<Rightarrow> string \<Rightarrow> (string \<times> bool) option" where
  "matchChunk chunk s = match_chunk False chunk s"

text \<open>The positions after a star: those that are reached without passing a separator.\<close>

fun star_loop :: "string \<Rightarrow> bool \<Rightarrow> string \<Rightarrow> string option option" where
  "star_loop chunk atend [] = Some None"
| "star_loop chunk atend (x # xs) =
     (if x = Sep then Some None
      else
        (case matchChunk chunk xs of
           None \<Rightarrow> None
         | Some (t, True) \<Rightarrow> if atend \<and> t \<noteq> [] then star_loop chunk atend xs else Some (Some t)
         | Some (t, False) \<Rightarrow> star_loop chunk atend xs))"

lemma scan_chunk_append: "fst (scan_chunk i p) @ snd (scan_chunk i p) = p"
  by (induction i p rule: scan_chunk.induct) (simp_all add: Let_def split_beta split: list.split)

lemma scan_chunk_rest: "scan_chunk i p = (chunk, rest) \<Longrightarrow> p = chunk @ rest"
  using scan_chunk_append [of i p] by simp

lemma scanChunk_shorter: "p \<noteq> [] \<Longrightarrow> scanChunk p = (star, chunk, rest) \<Longrightarrow> length rest < length p"
proof -
  assume p: "p \<noteq> []" "scanChunk p = (star, chunk, rest)"
  let ?q = "dropWhile (\<lambda>c. c = CHR ''*'') p"
  have s: "scan_chunk False ?q = (chunk, rest)" "star = (?q \<noteq> p)" using p(2) by (auto simp: scanChunk_def Let_def)
  have len: "length ?q \<le> length p" by (rule length_dropWhile_le)
  have "?q = chunk @ rest" by (rule scan_chunk_rest [OF s(1)])
  then have qlen: "length ?q = length chunk + length rest" by simp
  show "length rest < length p"
  proof (cases "?q = p")
    case False
    then have "length ?q < length p"
      by (metis len append_Nil length_append less_le takeWhile_dropWhile_id add_eq_self_zero length_0_conv add.commute le_neq_implies_less)
    then show ?thesis using qlen by simp
  next
    case True
    obtain c cs where p_eq: "p = c # cs" using p(1) by (cases p) auto
    have "c \<noteq> CHR ''*''" using True hd_dropWhile [of "\<lambda>c. c = CHR ''*''" p] p(1) by (metis p_eq list.sel(1))
    with p_eq have pc: "p = c # cs" "c \<noteq> CHR ''*''" by simp_all
    then have "chunk \<noteq> []" using s(1) True by (auto split: if_splits list.splits prod.splits)
    then show ?thesis using qlen True by (cases chunk) auto
  qed
qed

function Match_loop :: "string \<Rightarrow> string \<Rightarrow> bool option" where
  "Match_loop pattern name =
     (if pattern = [] then Some (name = [])
      else
        (let (star, chunk, pattern1) = scanChunk pattern in
         if star \<and> chunk = [] then Some (Sep \<notin> set name)
         else
           (case matchChunk chunk name of
              None \<Rightarrow> None
            | Some (t, ok) \<Rightarrow>
                if ok \<and> (t = [] \<or> pattern1 \<noteq> []) then Match_loop pattern1 t
                else if star then
                  (case star_loop chunk (pattern1 = []) name of
                     None \<Rightarrow> None
                   | Some (Some t') \<Rightarrow> Match_loop pattern1 t'
                   | Some None \<Rightarrow> Some False)
                else Some False)))"
  by pat_completeness auto
termination
  by (relation "measure (\<lambda>(pattern, name). length pattern)") (auto dest: scanChunk_shorter [OF _ sym])

declare Match_loop.simps [simp del]

text \<open>The check that the rest of a pattern that does not match is well-formed changes only the error, which the command
  ignores.\<close>

definition Match :: "(string \<Rightarrow> string \<Rightarrow> bool) \<Rightarrow> string \<Rightarrow> string \<Rightarrow> bool" where
  "Match uni pattern name =
     (if is_ascii pattern \<and> is_ascii name then Match_loop pattern name = Some True else uni pattern name)"

end
