(* ===== verification/Metrics.thy ===== *)
theory Metrics
  imports Prelude
begin

section \<open>Counters and the latency histogram\<close>

text \<open>
  internal/metrics/metrics.go. Durations are nanoseconds. The bounds of the histogram are seconds in the code and
  nanoseconds here: \<open>Duration.Seconds\<close> of a duration below one second is the floating-point number nearest to it, as the
  literals of the bounds are, and from one second on it exceeds every bound unless it is the last, so the comparison is that of the integers. Gauges hold floating-point numbers, of any type
  \<open>'f\<close> here. The text for Prometheus is in the theory Prometheus.
\<close>

record Histogram =
  hi_bounds :: "int list"
  hi_buckets :: "u64 list"
  hi_sum :: u64
  hi_count :: u64

definition DefaultLatencyBounds :: "int list" where
  "DefaultLatencyBounds =
     [100000, 250000, 500000, 1000000, 2500000, 5000000, 10000000, 25000000, 50000000, 100000000, 250000000, 500000000,
      1000000000]"

definition newHistogram :: "int list \<Rightarrow> Histogram" where
  "newHistogram bounds = \<lparr>hi_bounds = bounds, hi_buckets = replicate (length bounds) 0, hi_sum = 0, hi_count = 0\<rparr>"

definition hist_Observe :: "int \<Rightarrow> Histogram \<Rightarrow> Histogram" where
  "hist_Observe d h =
     h\<lparr>hi_buckets := map (\<lambda>(b, n). if d \<le> b then n + 1 else n) (zip (hi_bounds h) (hi_buckets h)),
       hi_sum := hi_sum h + of_int (go_div d 1000),
       hi_count := hi_count h + 1\<rparr>"

record 'f metrics =
  mt_CommandsTotal :: u64
  mt_ConnectionsOpened :: u64
  mt_ConnectionsActive :: int
  mt_PubSubMessages :: u64
  mt_NetInBytes :: u64
  mt_NetOutBytes :: u64
  mt_Latency :: Histogram
  mt_gauges :: "(string \<times> 'f) list"
  mt_labeledNodes :: "(string \<times> string) list"
  mt_start :: int
  mt_nodeID :: string

definition metrics_New :: "string \<Rightarrow> int \<Rightarrow> 'f metrics" where
  "metrics_New nodeID now =
     \<lparr>mt_CommandsTotal = 0, mt_ConnectionsOpened = 0, mt_ConnectionsActive = 0, mt_PubSubMessages = 0, mt_NetInBytes = 0,
      mt_NetOutBytes = 0, mt_Latency = newHistogram DefaultLatencyBounds, mt_gauges = [], mt_labeledNodes = [],
      mt_start = now, mt_nodeID = nodeID\<rparr>"

definition IncCommands :: "'f metrics \<Rightarrow> 'f metrics" where
  "IncCommands r = r\<lparr>mt_CommandsTotal := mt_CommandsTotal r + 1\<rparr>"

definition IncPubSub :: "'f metrics \<Rightarrow> 'f metrics" where
  "IncPubSub r = r\<lparr>mt_PubSubMessages := mt_PubSubMessages r + 1\<rparr>"

definition AddNetIn :: "int \<Rightarrow> 'f metrics \<Rightarrow> 'f metrics" where
  "AddNetIn n r = r\<lparr>mt_NetInBytes := mt_NetInBytes r + of_int n\<rparr>"

definition AddNetOut :: "int \<Rightarrow> 'f metrics \<Rightarrow> 'f metrics" where
  "AddNetOut n r = r\<lparr>mt_NetOutBytes := mt_NetOutBytes r + of_int n\<rparr>"

definition ConnOpened :: "'f metrics \<Rightarrow> 'f metrics" where
  "ConnOpened r = r\<lparr>mt_ConnectionsOpened := mt_ConnectionsOpened r + 1,
     mt_ConnectionsActive := wrap64 (mt_ConnectionsActive r + 1)\<rparr>"

definition ConnClosed :: "'f metrics \<Rightarrow> 'f metrics" where
  "ConnClosed r = r\<lparr>mt_ConnectionsActive := wrap64 (mt_ConnectionsActive r - 1)\<rparr>"

definition metrics_Observe :: "int \<Rightarrow> 'f metrics \<Rightarrow> 'f metrics" where
  "metrics_Observe d r = r\<lparr>mt_Latency := hist_Observe d (mt_Latency r)\<rparr>"

definition SetGauge :: "string \<Rightarrow> 'f \<Rightarrow> 'f metrics \<Rightarrow> 'f metrics" where
  "SetGauge name v r = r\<lparr>mt_gauges := AList.update name v (mt_gauges r)\<rparr>"

definition SetNodeState :: "string \<Rightarrow> string \<Rightarrow> 'f metrics \<Rightarrow> 'f metrics" where
  "SetNodeState nodeID state r = r\<lparr>mt_labeledNodes := AList.update nodeID state (mt_labeledNodes r)\<rparr>"

subsection \<open>The buckets are cumulative\<close>

lemma observe_all:
  assumes "hi_buckets h = map n (hi_bounds h)"
  shows "hi_bounds (fold hist_Observe ds h) = hi_bounds h \<and>
    hi_buckets (fold hist_Observe ds h) = map (\<lambda>b. n b + of_nat (length (filter (\<lambda>d. d \<le> b) ds))) (hi_bounds h) \<and>
    hi_count (fold hist_Observe ds h) = hi_count h + of_nat (length ds)"
  using assms
proof (induction ds arbitrary: h n)
  case (Cons d ds)
  have "hi_buckets (hist_Observe d h) = map (\<lambda>b. if d \<le> b then n b + 1 else n b) (hi_bounds (hist_Observe d h))"
    by (simp add: hist_Observe_def Cons.prems zip_map2 zip_same_conv_map comp_def)
  from Cons.IH [OF this] show ?case by (auto simp: hist_Observe_def algebra_simps)
qed simp

text \<open>The histogram after any observations: the bucket of a bound holds the number of durations not above it, and the count
  their number, as long as these fit the counters. So the buckets grow with the bounds up to the count.\<close>

theorem histogram_counts:
  assumes "length ds < 2 ^ 64" and "h = fold hist_Observe ds (newHistogram bounds)" and "i < length bounds"
  shows "unat (hi_buckets h ! i) = length (filter (\<lambda>d. d \<le> bounds ! i) ds) \<and> unat (hi_count h) = length ds \<and>
    (\<forall>j < length bounds. bounds ! i \<le> bounds ! j \<longrightarrow> hi_buckets h ! i \<le> hi_buckets h ! j)"
proof -
  let ?n = "\<lambda>b. length (filter (\<lambda>d. d \<le> b) ds)"
  have "hi_buckets (newHistogram bounds) = map (\<lambda>b. 0) (hi_bounds (newHistogram bounds))"
    by (simp add: newHistogram_def map_replicate_const)
  note all = observe_all [OF this, of ds, folded assms(2)]
  have b: "hi_buckets h ! j = of_nat (?n (bounds ! j))" if "j < length bounds" for j
    using all that by (simp add: newHistogram_def)
  have fits: "unat (of_nat m :: u64) = m" if "m \<le> length ds" for m
    using that assms(1) by (simp add: unat_of_nat take_bit_nat_eq_self)
  have le: "?n x \<le> length ds" for x by (rule length_filter_le)
  have mono: "?n x \<le> ?n y" if "x \<le> y" for x y
    using that by (induction ds) auto
  have "hi_buckets h ! i \<le> hi_buckets h ! j" if "j < length bounds" "bounds ! i \<le> bounds ! j" for j
    using mono [OF that(2)] by (simp add: b assms(3) that(1) word_le_nat_alt fits le)
  moreover have "hi_count h = of_nat (length ds)" using all by (simp add: newHistogram_def)
  ultimately show ?thesis by (simp add: b assms(3) fits le)
qed

theorem histogram_counts_witness:
  "unat (hi_buckets (fold hist_Observe [90000, 100000, 300000] (newHistogram DefaultLatencyBounds)) ! 0) = 2"
proof -
  have "0 < length DefaultLatencyBounds" by (simp add: DefaultLatencyBounds_def)
  from histogram_counts [OF _ refl this, of "[90000, 100000, 300000]"] show ?thesis
    by (simp add: DefaultLatencyBounds_def)
qed

end
