(* ===== verification/Commands.thy ===== *)
theory Commands
  imports Cache_Props Resp Glob "HOL-Library.State_Monad"
begin

section \<open>The server's commands on keys\<close>

text \<open>
  The handlers of internal/server/commands.go and their replies. A handler is a program of the state monad over the
  \<open>world\<close>: the cache and the events it has sent that the transaction coordinator has not been handed yet. What the
  environment decides is in \<open>env\<close>: the hash, the clock, the orders of range loops and the random tokens, each indexed by a
  counter of the world that every reading advances; the Unicode tables; and the rendering of the hit ratio, a
  floating-point number, and of the Go version. Connections run concurrently: before every call
  of the cache, the operations of others that come in between (\<open>en_others\<close>) are run.
\<close>

subsection \<open>The world\<close>

record env =
  en_hash :: "string \<Rightarrow> u64"
  en_clock :: "nat \<Rightarrow> int"
  en_orders :: "nat \<Rightarrow> cache \<Rightarrow> string list list"
  en_topics :: "nat \<Rightarrow> string list \<Rightarrow> string list"
  en_targets :: "nat \<Rightarrow> nat list \<Rightarrow> nat list"
  en_token :: "nat \<Rightarrow> string"
  en_upper :: "string \<Rightarrow> string"
  en_lower :: "string \<Rightarrow> string"
  en_match :: "string \<Rightarrow> string \<Rightarrow> bool"
  en_ratio :: "u64 \<Rightarrow> u64 \<Rightarrow> string"
  en_goversion :: string
  en_others :: "nat \<Rightarrow> cache \<Rightarrow> cache_op list"

record world =
  w_cache :: cache
  w_events :: "event list"
  w_tick :: nat

type_synonym 'a prog = "(world, 'a) state"

definition reading :: "(nat \<Rightarrow> 'a) \<Rightarrow> 'a prog" where
  "reading f = State (\<lambda>w. (f (w_tick w), w\<lparr>w_tick := Suc (w_tick w)\<rparr>))"

definition clock :: "env \<Rightarrow> int prog" where
  "clock E = reading (en_clock E)"

definition orders :: "env \<Rightarrow> string list list prog" where
  "orders E = State (\<lambda>w. (en_orders E (w_tick w) (w_cache w), w\<lparr>w_tick := Suc (w_tick w)\<rparr>))"

definition the_cache :: "cache prog" where
  "the_cache = State (\<lambda>w. (w_cache w, w))"

text \<open>A call of a method of the cache: its events are sent. Others may have come first.\<close>

definition call :: "(cache \<Rightarrow> cache \<times> 'a \<times> event list) \<Rightarrow> 'a prog" where
  "call f = State (\<lambda>w. let (c, r, evs) = f (w_cache w) in (r, w\<lparr>w_cache := c, w_events := w_events w @ evs\<rparr>))"

definition others :: "env \<Rightarrow> unit prog" where
  "others E =
     do { xs \<leftarrow> State (\<lambda>w. (en_others E (w_tick w) (w_cache w), w\<lparr>w_tick := Suc (w_tick w)\<rparr>));
          call (\<lambda>c. let (c1, evs) = cache_run (en_hash E) xs c in (c1, (), evs)) }"

definition call_SetTTL :: "env \<Rightarrow> string \<Rightarrow> bytes \<Rightarrow> int \<Rightarrow> unit prog" where
  "call_SetTTL E key value ttl =
     do { now \<leftarrow> clock E; others E; call (\<lambda>c. let (c1, evs) = SetTTL (en_hash E) key value ttl now c in (c1, (), evs)) }"

definition call_Get :: "env \<Rightarrow> string \<Rightarrow> (bytes \<times> bool) prog" where
  "call_Get E key = do { now \<leftarrow> clock E; others E; call (Get (en_hash E) key now) }"

definition call_Delete :: "env \<Rightarrow> string \<Rightarrow> bool prog" where
  "call_Delete E key = do { others E; call (Delete (en_hash E) key) }"

definition call_Exists :: "env \<Rightarrow> string \<Rightarrow> bool prog" where
  "call_Exists E key = do { now \<leftarrow> clock E; others E; call (Exists (en_hash E) key now) }"

definition call_IncrBy :: "env \<Rightarrow> string \<Rightarrow> int \<Rightarrow> (cache_error + int) prog" where
  "call_IncrBy E key delta = do { now \<leftarrow> clock E; others E; call (IncrBy (en_hash E) key delta now) }"

definition call_Expire :: "env \<Rightarrow> string \<Rightarrow> int \<Rightarrow> bool prog" where
  "call_Expire E key ttl = do { now1 \<leftarrow> clock E; now2 \<leftarrow> clock E; others E; call (Expire (en_hash E) key ttl now1 now2) }"

definition call_TTL :: "env \<Rightarrow> string \<Rightarrow> (int \<times> bool \<times> bool) prog" where
  "call_TTL E key = do { now \<leftarrow> clock E; others E; call (TTL (en_hash E) key now) }"

text \<open>\<open>MSet\<close> and \<open>MGet\<close> are loops of \<open>SetTTL\<close> and \<open>Get\<close>.\<close>

fun call_MSet :: "env \<Rightarrow> KV list \<Rightarrow> unit prog" where
  "call_MSet E [] = State_Monad.return ()"
| "call_MSet E (p # ps) = do { call_SetTTL E (kv_Key p) (kv_Value p) (kv_TTL p); call_MSet E ps }"

fun call_MGet :: "env \<Rightarrow> string list \<Rightarrow> (bytes \<times> bool) list prog" where
  "call_MGet E [] = State_Monad.return []"
| "call_MGet E (k # ks) = do { v \<leftarrow> call_Get E k; vs \<leftarrow> call_MGet E ks; State_Monad.return (v # vs) }"

definition call_FlushAll :: "env \<Rightarrow> unit prog" where
  "call_FlushAll E = do { others E; os \<leftarrow> orders E; call (\<lambda>c. let (c1, evs) = FlushAll os c in (c1, (), evs)) }"

definition call_Keys :: "env \<Rightarrow> string list prog" where
  "call_Keys E = do { others E; os \<leftarrow> orders E; now \<leftarrow> clock E; c \<leftarrow> the_cache; State_Monad.return (Keys os now c) }"

subsection \<open>Replies\<close>

datatype reply =
    RepSimple string
  | RepErr string
  | RepInt int
  | RepBulk bytes
  | RepNil
  | RepArray "reply list"
  | RepNilArray

definition rOK :: reply where
  "rOK = RepSimple ''OK''"

definition rBulk :: "bytes \<Rightarrow> reply" where
  "rBulk b = (if b = None then RepNil else RepBulk b)"

definition rBulkStr :: "string \<Rightarrow> reply" where
  "rBulkStr s = RepBulk (Some s)"

fun writeReply :: "reply \<Rightarrow> string" where
  "writeReply (RepSimple s) = WriteSimple s"
| "writeReply (RepErr s) = WriteError s"
| "writeReply (RepInt n) = WriteInt n"
| "writeReply (RepBulk b) = WriteBulk b"
| "writeReply RepNil = WriteNil"
| "writeReply (RepArray arr) = WriteArrayHeader (int (length arr)) @ concat (map writeReply arr)"
| "writeReply RepNilArray = WriteArrayHeader (- 1)"

subsection \<open>Handlers\<close>

type_synonym handler = "env \<Rightarrow> string list \<Rightarrow> reply prog"

abbreviation err :: "string \<Rightarrow> reply prog" where
  "err s \<equiv> State_Monad.return (RepErr s)"

abbreviation second :: int where "second \<equiv> 1000000000"
abbreviation millisecond :: int where "millisecond \<equiv> 1000000"

text \<open>\<open>rErr\<close> with a word in quotes.\<close>

definition quoted :: "string \<Rightarrow> string" where
  "quoted s = CHR 0x27 # s @ [CHR 0x27]"

definition wrong_number :: "string \<Rightarrow> reply" where
  "wrong_number cmd = RepErr (''ERR wrong number of arguments for '' @ quoted cmd)"

definition not_an_integer :: reply where
  "not_an_integer = RepErr ''ERR value is not an integer or out of range''"

definition cmdPing :: handler where
  "cmdPing E args = State_Monad.return (if 2 \<le> length args then rBulk (Some (args ! 1)) else RepSimple ''PONG'')"

definition cmdEcho :: handler where
  "cmdEcho E args =
     State_Monad.return (if length args \<noteq> 2 then wrong_number ''echo'' else rBulk (Some (args ! 1)))"

text \<open>The loop over the options of \<open>SET\<close>.\<close>

fun set_options :: "env \<Rightarrow> int \<Rightarrow> string list \<Rightarrow> reply + int" where
  "set_options E ttl [] = Inr ttl"
| "set_options E ttl (a # as) =
     (let opt = to_upper (en_upper E) a in
      if opt = ''EX'' \<or> opt = ''PX'' then
        (case as of
           [] \<Rightarrow> Inl (RepErr ''ERR syntax error'')
         | b # bs \<Rightarrow>
             (case parse_int b of
                None \<Rightarrow> Inl (RepErr (''ERR invalid expire time in '' @ quoted ''set''))
              | Some n \<Rightarrow>
                  if n \<le> 0 then Inl (RepErr (''ERR invalid expire time in '' @ quoted ''set''))
                  else set_options E (if opt = ''EX'' then wrap64 (n * second) else wrap64 (n * millisecond)) bs))
      else Inl (RepErr ''ERR syntax error''))"

definition cmdSet :: handler where
  "cmdSet E args =
     (if length args < 3 then State_Monad.return (wrong_number ''set'')
      else
        (case set_options E 0 (drop 3 args) of
           Inl e \<Rightarrow> State_Monad.return e
         | Inr ttl \<Rightarrow> do { call_SetTTL E (args ! 1) (Some (args ! 2)) ttl; State_Monad.return rOK }))"

definition cmdGet :: handler where
  "cmdGet E args =
     (if length args \<noteq> 2 then State_Monad.return (wrong_number ''get'')
      else do { (v, ok) \<leftarrow> call_Get E (args ! 1); State_Monad.return (if \<not> ok then RepNil else rBulk v) })"

text \<open>The loops of \<open>DEL\<close> and \<open>EXISTS\<close>, which count.\<close>

fun count_keys :: "(string \<Rightarrow> bool prog) \<Rightarrow> int \<Rightarrow> string list \<Rightarrow> int prog" where
  "count_keys f n [] = State_Monad.return n"
| "count_keys f n (k # ks) = do { ok \<leftarrow> f k; count_keys f (if ok then wrap64 (n + 1) else n) ks }"

definition cmdDel :: handler where
  "cmdDel E args =
     (if length args < 2 then State_Monad.return (wrong_number ''del'')
      else do { n \<leftarrow> count_keys (call_Delete E) 0 (drop 1 args); State_Monad.return (RepInt n) })"

definition cmdExists :: handler where
  "cmdExists E args =
     (if length args < 2 then State_Monad.return (wrong_number ''exists'')
      else do { n \<leftarrow> count_keys (call_Exists E) 0 (drop 1 args); State_Monad.return (RepInt n) })"

definition error_text :: "cache_error \<Rightarrow> string" where
  "error_text e = (case e of ErrNotInteger \<Rightarrow> ''cache: value is not an integer'' | ErrClosed \<Rightarrow> ''cache: closed'')"

definition incr_delta :: "env \<Rightarrow> int \<Rightarrow> bool \<Rightarrow> string list \<Rightarrow> reply + int" where
  "incr_delta E step explicit args =
     (let name = to_upper (en_upper E) (args ! 0) in
      if explicit then
        (if length args \<noteq> 3 then Inl (wrong_number (to_lower (en_lower E) name))
         else
           (case parse_int (args ! 2) of
              None \<Rightarrow> Inl not_an_integer
            | Some n \<Rightarrow> Inr (if name = ''DECRBY'' then wrap64 (- n) else n)))
      else if length args \<noteq> 2 then Inl (wrong_number (to_lower (en_lower E) name))
      else Inr step)"

definition cmd_incrBy :: "int \<Rightarrow> bool \<Rightarrow> handler" where
  "cmd_incrBy step explicit E args =
     (case incr_delta E step explicit args of
        Inl e \<Rightarrow> State_Monad.return e
      | Inr delta \<Rightarrow>
          do { r \<leftarrow> call_IncrBy E (args ! 1) delta;
               State_Monad.return
                 (case r of
                    Inl e \<Rightarrow> if e = ErrNotInteger then not_an_integer else RepErr (''ERR '' @ error_text e)
                  | Inr v \<Rightarrow> RepInt v) })"

fun mset_pairs :: "string list \<Rightarrow> KV list" where
  "mset_pairs (k # v # rest) = \<lparr>kv_Key = k, kv_Value = Some v, kv_TTL = 0\<rparr> # mset_pairs rest"
| "mset_pairs _ = []"

definition cmdMSet :: handler where
  "cmdMSet E args =
     (if length args < 3 \<or> length args mod 2 = 0 then State_Monad.return (wrong_number ''mset'')
      else do { call_MSet E (mset_pairs (drop 1 args)); State_Monad.return rOK })"

definition cmdMGet :: handler where
  "cmdMGet E args =
     (if length args < 2 then State_Monad.return (wrong_number ''mget'')
      else
        do { vs \<leftarrow> call_MGet E (drop 1 args);
             State_Monad.return (RepArray (map (\<lambda>(v, found). if found then rBulk v else RepNil) vs)) })"

definition cmd_expire :: "int \<Rightarrow> handler" where
  "cmd_expire unit E args =
     (if length args \<noteq> 3 then err ''ERR wrong number of arguments''
      else
        (case parse_int (args ! 2) of
           None \<Rightarrow> State_Monad.return not_an_integer
         | Some n \<Rightarrow>
             do { ok \<leftarrow> call_Expire E (args ! 1) (wrap64 (n * unit)); State_Monad.return (RepInt (if ok then 1 else 0)) }))"

definition cmdPersist :: handler where
  "cmdPersist E args =
     (if length args \<noteq> 2 then State_Monad.return (wrong_number ''persist'')
      else do { ok \<leftarrow> call_Expire E (args ! 1) 0; State_Monad.return (RepInt (if ok then 1 else 0)) })"

definition cmd_ttl :: "bool \<Rightarrow> handler" where
  "cmd_ttl millis E args =
     (if length args \<noteq> 2 then err ''ERR wrong number of arguments''
      else
        do { (rem, found, persists) \<leftarrow> call_TTL E (args ! 1);
             State_Monad.return
               (if \<not> found then RepInt (- 2)
                else if persists then RepInt (- 1)
                else if millis then RepInt (go_div rem millisecond)
                else RepInt (go_div rem second)) })"

definition cmdKeys :: handler where
  "cmdKeys E args =
     (let pattern = (if 2 \<le> length args then args ! 1 else ''*'') in
      do { ks \<leftarrow> call_Keys E;
           State_Monad.return
             (RepArray (map rBulkStr (filter (\<lambda>k. pattern = ''*'' \<or> Match (en_match E) pattern k) ks))) })"

definition cmdDBSize :: handler where
  "cmdDBSize E args = do { c \<leftarrow> the_cache; State_Monad.return (RepInt (int (cache_Len c))) }"

definition cmdType :: handler where
  "cmdType E args =
     (if length args \<noteq> 2 then State_Monad.return (wrong_number ''type'')
      else do { ok \<leftarrow> call_Exists E (args ! 1); State_Monad.return (RepSimple (if ok then ''string'' else ''none'')) })"

definition cmdFlushAll :: handler where
  "cmdFlushAll E args = do { call_FlushAll E; State_Monad.return rOK }"

definition handlers :: "(string \<times> handler) list" where
  "handlers =
     [(''PING'', cmdPing), (''ECHO'', cmdEcho), (''SET'', cmdSet), (''GET'', cmdGet), (''DEL'', cmdDel),
      (''EXISTS'', cmdExists), (''INCR'', cmd_incrBy 1 False), (''DECR'', cmd_incrBy (- 1) False),
      (''INCRBY'', cmd_incrBy 0 True), (''DECRBY'', cmd_incrBy 0 True), (''MSET'', cmdMSet), (''MGET'', cmdMGet),
      (''EXPIRE'', cmd_expire second), (''PEXPIRE'', cmd_expire millisecond), (''TTL'', cmd_ttl False),
      (''PTTL'', cmd_ttl True), (''PERSIST'', cmdPersist), (''KEYS'', cmdKeys), (''DBSIZE'', cmdDBSize),
      (''TYPE'', cmdType), (''FLUSHALL'', cmdFlushAll)]"

end
