(* ===== verification/Server.thy ===== *)
theory Server
  imports Commands Txn Locks Pubsub Registry Replication Metrics
begin

section \<open>The server: connections and dispatch\<close>

text \<open>
  The rest of internal/server/commands.go, with server.go and server_pubsub.go. A connection is a record with the bytes that
  were written on it and the subscriptions whose \<open>forward\<close> was started; its input is a byte string. A write that fails is ignored by the code and has no counterpart here.
  \<^const>\<open>None\<close> is a panic, which ends the process. The events of the cache reach the transaction coordinator when
  the dispatcher hands them over (\<open>hand_over\<close>); \<open>WATCH\<close> waits until all have. Logging, listening, the HTTP
  endpoint and the tracking of connections for shutdown are left out.
\<close>

record 'f server =
  sv_Password :: string
  sv_NodeID :: string
  sv_world :: world
  sv_broker :: Broker
  sv_locks :: locks
  sv_co :: coordinator
  sv_metrics :: "'f metrics"
  sv_quit :: bool
  sv_registry :: "Registry option"
  sv_primary :: "Primary option"
  sv_replica :: "(string \<times> bool \<times> u64) option"

record conn =
  cn_authed :: bool
  cn_tx :: "(world, reply) tx option"
  cn_inMulti :: bool
  cn_subs :: "(string \<times> nat) list"
  cn_forwards :: "nat list"
  cn_remote :: string
  cn_local :: string
  cn_out :: string

definition server_New :: "cache \<Rightarrow> string \<Rightarrow> string \<Rightarrow> int \<Rightarrow> 'f server" where
  "server_New c password nodeID now =
     (let nodeID1 = (if nodeID = [] then ''node-1'' else nodeID) in
      \<lparr>sv_Password = password, sv_NodeID = nodeID1, sv_world = \<lparr>w_cache = c, w_events = [], w_tick = 0\<rparr>,
       sv_broker = NewBroker, sv_locks = locks_New, sv_co = NewCoordinator, sv_metrics = metrics_New nodeID1 now,
       sv_quit = False, sv_registry = None, sv_primary = None, sv_replica = None\<rparr>)"

definition AttachCluster :: "Registry \<Rightarrow> 'f server \<Rightarrow> 'f server" where
  "AttachCluster r s = s\<lparr>sv_registry := Some r\<rparr>"

definition AttachPrimary :: "Primary \<Rightarrow> 'f server \<Rightarrow> 'f server" where
  "AttachPrimary p s = s\<lparr>sv_primary := Some p\<rparr>"

text \<open>Of a replica the server reads the address of its primary, whether it is synced, and the last number it applied.\<close>

definition AttachReplica :: "string \<Rightarrow> Replica \<Rightarrow> 'f server \<Rightarrow> 'f server" where
  "AttachReplica addr r s = s\<lparr>sv_replica := Some (addr, rp_synced r, rp_lastApplied r)\<rparr>"

definition server_newConn :: "string \<Rightarrow> string \<Rightarrow> conn" where
  "server_newConn remote local =
     \<lparr>cn_authed = False, cn_tx = None, cn_inMulti = False, cn_subs = [], cn_forwards = [], cn_remote = remote,
      cn_local = local, cn_out = []\<rparr>"

definition reply_to :: "reply \<Rightarrow> conn \<Rightarrow> conn" where
  "reply_to rep c = c\<lparr>cn_out := cn_out c @ writeReply rep\<rparr>"

text \<open>The readings of the environment that are not made by a handler advance the same counter.\<close>

definition now_tick :: "'f server \<Rightarrow> nat" where
  "now_tick s = w_tick (sv_world s)"

definition advance :: "nat \<Rightarrow> 'f server \<Rightarrow> 'f server" where
  "advance n s = s\<lparr>sv_world := (sv_world s)\<lparr>w_tick := w_tick (sv_world s) + n\<rparr>\<rparr>"

definition run_handler :: "handler \<Rightarrow> env \<Rightarrow> string list \<Rightarrow> 'f server \<Rightarrow> 'f server \<times> reply" where
  "run_handler h E args s = (let (rep, w) = run_state (h E args) (sv_world s) in (s\<lparr>sv_world := w\<rparr>, rep))"

text \<open>The dispatcher of the cache hands the oldest \<open>n\<close> events to the coordinator.\<close>

definition hand_over :: "nat \<Rightarrow> 'f server \<Rightarrow> 'f server" where
  "hand_over n s =
     s\<lparr>sv_co := fold onEvent (take n (w_events (sv_world s))) (sv_co s),
       sv_world := (sv_world s)\<lparr>w_events := drop n (w_events (sv_world s))\<rparr>\<rparr>"

definition cache_Sync :: "'f server \<Rightarrow> 'f server" where
  "cache_Sync s = hand_over (length (w_events (sv_world s))) s"

subsection \<open>Authentication and transactions\<close>

definition cmdAuth :: "string list \<Rightarrow> 'f server \<Rightarrow> conn \<Rightarrow> conn \<times> reply" where
  "cmdAuth args s c =
     (if length args \<noteq> 2 then (c, wrong_number ''auth'')
      else if sv_Password s = [] then (c, RepErr ''ERR Client sent AUTH, but no password is set'')
      else if args ! 1 \<noteq> sv_Password s then (c, RepErr ''WRONGPASS invalid username-password pair'')
      else (c\<lparr>cn_authed := True\<rparr>, rOK))"

definition tx_of :: "conn \<Rightarrow> (world, reply) tx" where
  "tx_of c = (case cn_tx c of None \<Rightarrow> Begin | Some tx \<Rightarrow> tx)"

definition beginMulti :: "conn \<Rightarrow> conn \<times> reply" where
  "beginMulti c =
     (if cn_inMulti c then (c, RepErr ''ERR MULTI calls can not be nested'')
      else
        (let tx1 = (case Multi (tx_of c) of Inl e \<Rightarrow> tx_of c | Inr tx \<Rightarrow> tx)
         in (c\<lparr>cn_tx := Some tx1, cn_inMulti := True\<rparr>, rOK)))"

definition txn_text :: "txn_error \<Rightarrow> string" where
  "txn_text e = (if e = ErrAborted then ''txn: aborted, watched key modified'' else ''txn: EXEC/queue without MULTI'')"

definition execTx :: "'f server \<Rightarrow> conn \<Rightarrow> ('f server \<times> conn \<times> reply) option" where
  "execTx s c =
     (if \<not> cn_inMulti c then Some (s, c, RepErr ''ERR EXEC without MULTI'')
      else
        (case cn_tx c of
           None \<Rightarrow> None
         | Some tx \<Rightarrow>
             (case Exec (sv_co s) tx (sv_world s) of
                (co, tx1, w, res) \<Rightarrow>
                  Some (s\<lparr>sv_co := co, sv_world := w\<rparr>, c\<lparr>cn_inMulti := False, cn_tx := None\<rparr>,
                    (case res of
                       Inl e \<Rightarrow> if e = ErrAborted then RepNilArray else RepErr (''ERR '' @ txn_text e)
                     | Inr results \<Rightarrow> RepArray results)))))"

definition conn_discard :: "'f server \<Rightarrow> conn \<Rightarrow> 'f server \<times> conn \<times> reply" where
  "conn_discard s c =
     (case cn_tx c of
        None \<Rightarrow> (s, c, RepErr ''ERR DISCARD without MULTI'')
      | Some tx \<Rightarrow> (s\<lparr>sv_co := fst (Discard (sv_co s) tx)\<rparr>, c\<lparr>cn_tx := None, cn_inMulti := False\<rparr>, rOK))"

definition conn_watch :: "string list \<Rightarrow> 'f server \<Rightarrow> conn \<Rightarrow> 'f server \<times> conn \<times> reply" where
  "conn_watch args s c =
     (if cn_inMulti c then (s, c, RepErr ''ERR WATCH inside MULTI is not allowed'')
      else if length args < 2 then (s, c, wrong_number ''watch'')
      else
        (let s1 = cache_Sync s in
         case Watch (drop 1 args) (sv_co s1) (tx_of c) of
           Inl e \<Rightarrow> (s1, c\<lparr>cn_tx := Some (tx_of c)\<rparr>, rOK)
         | Inr (co, tx) \<Rightarrow> (s1\<lparr>sv_co := co\<rparr>, c\<lparr>cn_tx := Some tx\<rparr>, rOK)))"

definition conn_unwatch :: "'f server \<Rightarrow> conn \<Rightarrow> 'f server \<times> conn \<times> reply" where
  "conn_unwatch s c =
     (case cn_tx c of
        None \<Rightarrow> (s, c, rOK)
      | Some tx \<Rightarrow>
          if cn_inMulti c then (s, c, rOK)
          else (s\<lparr>sv_co := fst (Discard (sv_co s) tx)\<rparr>, c\<lparr>cn_tx := None\<rparr>, rOK))"

text \<open>A command inside \<open>MULTI\<close> is queued; a nil transaction would be a panic.\<close>

definition queue_command :: "handler \<Rightarrow> env \<Rightarrow> string list \<Rightarrow> conn \<Rightarrow> conn option" where
  "queue_command h E args c =
     (case cn_tx c of
        None \<Rightarrow> None
      | Some tx \<Rightarrow>
          (case Queue (\<lambda>w. prod.swap (run_state (h E args) w)) tx of
             Inl e \<Rightarrow> Some c
           | Inr tx1 \<Rightarrow> Some (c\<lparr>cn_tx := Some tx1\<rparr>)))"

subsection \<open>Locks\<close>

definition cmdLock :: "env \<Rightarrow> string list \<Rightarrow> 'f server \<Rightarrow> conn \<Rightarrow> 'f server \<times> reply" where
  "cmdLock E args s c =
     (if length args < 3 then (s, RepErr ''ERR usage: LOCK key ttlSeconds [owner]'')
      else
        (case parse_int (args ! 2) of
           None \<Rightarrow> (s, RepErr ''ERR invalid ttl'')
         | Some secs \<Rightarrow>
             if secs \<le> 0 then (s, RepErr ''ERR invalid ttl'')
             else
               (let owner = (if 4 \<le> length args then args ! 3 else cn_remote c);
                    (m, tok, ok) = Acquire (args ! 1) owner (wrap64 (secs * second)) (en_clock E (now_tick s))
                      (en_token E (now_tick s)) (sv_locks s)
                in (advance 1 (s\<lparr>sv_locks := m\<rparr>), if \<not> ok then RepNil else rBulkStr tok))))"

definition cmdUnlock :: "string list \<Rightarrow> 'f server \<Rightarrow> 'f server \<times> reply" where
  "cmdUnlock args s =
     (if length args \<noteq> 3 then (s, RepErr ''ERR usage: UNLOCK key token'')
      else
        (let (m, ok) = Release (args ! 1) (args ! 2) (sv_locks s)
         in (s\<lparr>sv_locks := m\<rparr>, RepInt (if ok then 1 else 0))))"

definition cmdRenewLock :: "env \<Rightarrow> string list \<Rightarrow> 'f server \<Rightarrow> 'f server \<times> reply" where
  "cmdRenewLock E args s =
     (if length args \<noteq> 4 then (s, RepErr ''ERR usage: RENEWLOCK key token ttlSeconds'')
      else
        (case parse_int (args ! 3) of
           None \<Rightarrow> (s, RepErr ''ERR invalid ttl'')
         | Some secs \<Rightarrow>
             if secs \<le> 0 then (s, RepErr ''ERR invalid ttl'')
             else
               (let (m, ok) = Renew (args ! 1) (args ! 2) (wrap64 (secs * second)) (en_clock E (now_tick s)) (sv_locks s)
                in (advance 1 (s\<lparr>sv_locks := m\<rparr>), RepInt (if ok then 1 else 0)))))"

subsection \<open>Publish and subscribe\<close>

definition confirm_bytes :: "string \<Rightarrow> string \<Rightarrow> nat \<Rightarrow> string" where
  "confirm_bytes kind topic n =
     WriteArrayHeader 3 @ WriteBulkString kind @ (if topic = [] then WriteNil else WriteBulkString topic) @ WriteInt (int n)"

definition confirm :: "string \<Rightarrow> string \<Rightarrow> nat \<Rightarrow> conn \<Rightarrow> conn" where
  "confirm kind topic n c = c\<lparr>cn_out := cn_out c @ confirm_bytes kind topic n\<rparr>"

fun subscribe_all :: "string list \<Rightarrow> 'f server \<Rightarrow> conn \<Rightarrow> 'f server \<times> conn" where
  "subscribe_all [] s c = (s, c)"
| "subscribe_all (topic # topics) s c =
     (let (s1, c1) =
            (if topic \<in> mkeys (cn_subs c) then (s, c)
             else
               (let (b, sub) = broker_Subscribe topic 256 (sv_broker s)
                in (s\<lparr>sv_broker := b\<rparr>,
                   c\<lparr>cn_subs := AList.update topic sub (cn_subs c), cn_forwards := cn_forwards c @ [sub]\<rparr>)))
      in subscribe_all topics s1 (confirm ''subscribe'' topic (length (cn_subs c1)) c1))"

definition doSubscribe :: "string list \<Rightarrow> 'f server \<Rightarrow> conn \<Rightarrow> 'f server \<times> conn" where
  "doSubscribe args s c =
     (if length args < 2 then (s, reply_to (wrong_number ''subscribe'') c) else subscribe_all (drop 1 args) s c)"

fun unsubscribe_all :: "string list \<Rightarrow> 'f server \<Rightarrow> conn \<Rightarrow> 'f server \<times> conn" where
  "unsubscribe_all [] s c = (s, c)"
| "unsubscribe_all (topic # topics) s c =
     (let (s1, c1) =
            (case map_of (cn_subs c) topic of
               None \<Rightarrow> (s, c)
             | Some sub \<Rightarrow>
                 (s\<lparr>sv_broker := sub_Close sub (sv_broker s)\<rparr>, c\<lparr>cn_subs := AList.delete topic (cn_subs c)\<rparr>))
      in unsubscribe_all topics s1 (confirm ''unsubscribe'' topic (length (cn_subs c1)) c1))"

definition doUnsubscribe :: "env \<Rightarrow> string list \<Rightarrow> 'f server \<Rightarrow> conn \<Rightarrow> 'f server \<times> conn" where
  "doUnsubscribe E args s c =
     (let topics = (if 2 \<le> length args then drop 1 args else en_topics E (now_tick s) (map fst (cn_subs c)));
          s1 = (if 2 \<le> length args then s else advance 1 s)
      in if topics = [] then (s1, confirm ''unsubscribe'' [] 0 c) else unsubscribe_all topics s1 c)"

definition cmdPublish :: "env \<Rightarrow> string list \<Rightarrow> 'f server \<Rightarrow> ('f server \<times> reply) option" where
  "cmdPublish E args s =
     (if length args \<noteq> 3 then Some (s, wrong_number ''publish'')
      else
        (case broker_Publish (args ! 1) (Some (args ! 2)) (en_targets E (now_tick s) (topic_subs (args ! 1) (sv_broker s)))
                (sv_broker s) of
           (None, n) \<Rightarrow> None
         | (Some b, n) \<Rightarrow>
             Some (advance 1 (s\<lparr>sv_broker := b, sv_metrics := IncPubSub (sv_metrics s)\<rparr>), RepInt (int n))))"

text \<open>One message of the goroutine \<open>forward\<close> of a subscription.\<close>

definition message_bytes :: "Message \<Rightarrow> string" where
  "message_bytes msg =
     WriteArrayHeader 3 @ WriteBulkString ''message'' @ WriteBulkString (ms_Topic msg) @ WriteBulk (ms_Payload msg)"

definition forward_turn :: "nat \<Rightarrow> 'f server \<Rightarrow> conn \<Rightarrow> 'f server \<times> conn" where
  "forward_turn sub s c =
     (case sub_Receive sub (sv_broker s) of
        (b, None) \<Rightarrow> (s, c)
      | (b, Some msg) \<Rightarrow> (s\<lparr>sv_broker := b\<rparr>, c\<lparr>cn_out := cn_out c @ message_bytes msg\<rparr>))"

subsection \<open>\<open>INFO\<close> and \<open>CLUSTER\<close>\<close>

definition field :: "string \<Rightarrow> string \<Rightarrow> string" where
  "field name v = name @ '':'' @ v @ CRLF"

definition u64_text :: "u64 \<Rightarrow> string" where
  "u64_text n = format_nat (unat n)"

definition linkStatus :: "bool \<Rightarrow> string" where
  "linkStatus synced = (if synced then ''up'' else ''down'')"

definition slave_line :: "nat \<times> ReplicaState \<Rightarrow> string" where
  "slave_line x =
     (case x of (i, rp) \<Rightarrow>
        ''slave'' @ format_nat i @ '':addr='' @ rs_Addr rp @ '',sent_seq='' @ u64_text (rs_LastSentSeq rp) @
        '',ack_seq='' @ u64_text (rs_LastAckSeq rp) @ CRLF)"

definition info_replication :: "'f server \<Rightarrow> string" where
  "info_replication s =
     (case sv_replica s of
        Some (addr, synced, lastApplied) \<Rightarrow>
          field ''role'' ''replica'' @ field ''master_addr'' addr @ field ''master_link_status'' (linkStatus synced) @
          field ''slave_repl_offset'' (u64_text lastApplied)
      | None \<Rightarrow>
          (case sv_primary s of
             Some p \<Rightarrow>
               (let reps = Replicas p in
                field ''role'' ''master'' @ field ''connected_slaves'' (format_nat (length reps)) @
                concat (map slave_line (zip [0..<length reps] reps)))
           | None \<Rightarrow> field ''role'' ''master'' @ field ''connected_slaves'' ''0''))"

definition cmdInfo :: "env \<Rightarrow> 'f server \<Rightarrow> reply" where
  "cmdInfo E s =
     (let st = cache_Stats (w_cache (sv_world s)) in
      rBulkStr
        (''# Server'' @ CRLF @ field ''distcache_version'' ''1.0.0'' @ field ''node_id'' (sv_NodeID s) @
         field ''go_version'' (en_goversion E) @ ''# Stats'' @ CRLF @ field ''keyspace_hits'' (u64_text (st_Hits st)) @
         field ''keyspace_misses'' (u64_text (st_Misses st)) @
         field ''hit_ratio'' (en_ratio E (st_Hits st) (st_Misses st)) @
         field ''evictions'' (u64_text (st_Evictions st)) @ field ''expirations'' (u64_text (st_Expirations st)) @
         field ''keys'' (format_int (st_Keys st)) @ field ''memory_bytes'' (format_int (st_MemoryBytes st)) @
         ''# Replication'' @ CRLF @ info_replication s))"

definition node_line :: "Node \<Rightarrow> string" where
  "node_line n =
     nd_ID n @ '' '' @ nd_Addr n @ '' '' @ (if nd_Self n then ''myself,master'' else ''master'') @ '' '' @
     (if nd_Alive n then ''connected'' else ''disconnected'') @ CRLF"

definition cmdCluster :: "env \<Rightarrow> string list \<Rightarrow> 'f server \<Rightarrow> conn \<Rightarrow> 'f server \<times> reply" where
  "cmdCluster E args s c =
     (let sub = (if 2 \<le> length args then to_upper (en_upper E) (args ! 1) else ''INFO'') in
      if sub = ''MYID'' then (s, rBulkStr (sv_NodeID s))
      else if sub = ''INFO'' then
        (s, rBulkStr
          (case sv_registry s of
             None \<Rightarrow> field ''cluster_enabled'' ''0'' @ field ''cluster_known_nodes'' ''1''
           | Some r \<Rightarrow> field ''cluster_enabled'' ''1'' @ field ''cluster_known_nodes'' (format_nat (registry_Size r))))
      else if sub = ''NODES'' then
        (case sv_registry s of
           None \<Rightarrow> (s, rBulkStr (sv_NodeID s @ '' '' @ cn_local c @ '' myself'' @ CRLF))
         | Some r \<Rightarrow>
             (advance (registry_Size r) s,
              rBulkStr (concat (map node_line (registry_Nodes (\<lambda>i. en_clock E (now_tick s + i)) r)))))
      else (s, RepErr (''ERR unknown CLUSTER subcommand '' @ quoted sub)))"

subsection \<open>Dispatch and the read loop\<close>

abbreviation answered :: "'f server \<times> conn \<times> reply \<Rightarrow> ('f server \<times> conn \<times> bool) option" where
  "answered x \<equiv> (case x of (s, c, rep) \<Rightarrow> Some (s, reply_to rep c, True))"

definition dispatch :: "env \<Rightarrow> string list \<Rightarrow> 'f server \<Rightarrow> conn \<Rightarrow> ('f server \<times> conn \<times> bool) option" where
  "dispatch E args s c =
     (let cmd = to_upper (en_upper E) (args ! 0) in
      if sv_Password s \<noteq> [] \<and> \<not> cn_authed c \<and> cmd \<notin> {''AUTH'', ''QUIT'', ''PING''} then
        answered (s, c, RepErr ''NOAUTH Authentication required.'')
      else if cn_inMulti c \<and> cmd \<notin> {''EXEC'', ''DISCARD'', ''MULTI'', ''WATCH'', ''RESET'', ''QUIT''} then
        (case map_of handlers cmd of
           None \<Rightarrow> answered (s, c, RepErr (''ERR command '' @ quoted cmd @ '' not allowed in MULTI''))
         | Some h \<Rightarrow>
             (case queue_command h E args c of None \<Rightarrow> None | Some c1 \<Rightarrow> answered (s, c1, RepSimple ''QUEUED'')))
      else if cmd = ''QUIT'' then Some (s, reply_to rOK c, False)
      else if cmd = ''AUTH'' then (let (c1, rep) = cmdAuth args s c in answered (s, c1, rep))
      else if cmd = ''MULTI'' then (let (c1, rep) = beginMulti c in answered (s, c1, rep))
      else if cmd = ''EXEC'' then (case execTx s c of None \<Rightarrow> None | Some x \<Rightarrow> answered x)
      else if cmd = ''DISCARD'' then answered (conn_discard s c)
      else if cmd = ''WATCH'' then answered (conn_watch args s c)
      else if cmd = ''UNWATCH'' then answered (conn_unwatch s c)
      else if cmd = ''SUBSCRIBE'' then (let (s1, c1) = doSubscribe args s c in Some (s1, c1, True))
      else if cmd = ''UNSUBSCRIBE'' then (let (s1, c1) = doUnsubscribe E args s c in Some (s1, c1, True))
      else if cmd = ''PUBLISH'' then
        (case cmdPublish E args s of None \<Rightarrow> None | Some (s1, rep) \<Rightarrow> answered (s1, c, rep))
      else if cmd = ''LOCK'' then (let (s1, rep) = cmdLock E args s c in answered (s1, c, rep))
      else if cmd = ''UNLOCK'' then (let (s1, rep) = cmdUnlock args s in answered (s1, c, rep))
      else if cmd = ''RENEWLOCK'' then (let (s1, rep) = cmdRenewLock E args s in answered (s1, c, rep))
      else if cmd = ''INFO'' then answered (s, c, cmdInfo E s)
      else if cmd = ''CLUSTER'' then (let (s1, rep) = cmdCluster E args s c in answered (s1, c, rep))
      else if cmd = ''COMMAND'' then answered (s, c, RepArray [])
      else
        (case map_of handlers cmd of
           Some h \<Rightarrow> (let (s1, rep) = run_handler h E args s in answered (s1, c, rep))
         | None \<Rightarrow> answered (s, c, RepErr (''ERR unknown command '' @ quoted cmd))))"

definition closeSubs :: "'f server \<Rightarrow> conn \<Rightarrow> 'f server \<times> conn" where
  "closeSubs s c = (s\<lparr>sv_broker := fold sub_Close (map snd (cn_subs c)) (sv_broker s)\<rparr>, c\<lparr>cn_subs := []\<rparr>)"

text \<open>The end of a connection; the deferred calls of \<open>Serve\<close> and \<open>serve\<close>.\<close>

definition conn_end :: "'f server \<Rightarrow> conn \<Rightarrow> 'f server \<times> conn" where
  "conn_end s c = (let (s1, c1) = closeSubs s c in (s1\<lparr>sv_metrics := ConnClosed (sv_metrics s1)\<rparr>, c1))"

text \<open>One turn of the loop of \<open>serve\<close> on the input that is still to come, and whether there is another.\<close>

definition serve_turn ::
  "env \<Rightarrow> limits \<Rightarrow> (string \<Rightarrow> string list) \<Rightarrow> string \<Rightarrow> 'f server \<Rightarrow> conn \<Rightarrow> ('f server \<times> conn \<times> string \<times> bool) option" where
  "serve_turn E lim uni inp s c =
     (if sv_quit s then (let (s1, c1) = conn_end s c in Some (s1, c1, inp, False))
      else
        (case ReadCommand lim uni inp of
           (Inl e, r) \<Rightarrow> if e = Panic then None else (let (s1, c1) = conn_end s c in Some (s1, c1, r, False))
         | (Inr args, r) \<Rightarrow>
             if args = [] then Some (s, c, r, True)
             else
               (let start = en_clock E (now_tick s);
                    s1 = advance 1 (s\<lparr>sv_metrics := IncCommands (sv_metrics s)\<rparr>)
                in case dispatch E args s1 c of
                     None \<Rightarrow> None
                   | Some (s2, c2, False) \<Rightarrow> (let (s3, c3) = conn_end s2 c2 in Some (s3, c3, r, False))
                   | Some (s2, c2, True) \<Rightarrow>
                       (let d = wrap64 (en_clock E (now_tick s2) - start)
                        in Some (advance 1 (s2\<lparr>sv_metrics := metrics_Observe d (sv_metrics s2)\<rparr>), c2, r, True)))))"

end
