(* ===== verification/Server_Inv.thy ===== *)
theory Server_Inv
  imports Server
begin

section \<open>What commands do to the cache\<close>

text \<open>
  Every program that a handler runs is a run of operations on the cache: a rule per construct of the monad and per call. So the
  properties of runs of the cache hold for the cache of the server. The environment is sane when the orders of its range
  loops visit what there is to visit, and others run operations that can run.
\<close>

definition env_ok :: "env \<Rightarrow> bool" where
  "env_ok E \<longleftrightarrow> (\<forall>n c. cache_inv (en_hash E) c \<longrightarrow> orders_ok (en_orders E n c) c) \<and>
     (\<forall>n c. cache_inv (en_hash E) c \<longrightarrow> cache_run_ok (en_hash E) (en_others E n c) c) \<and>
     (\<forall>n ids. mset (en_targets E n ids) = mset ids) \<and> (\<forall>n ts. mset (en_topics E n ts) = mset ts)"

definition evolves :: "env \<Rightarrow> world \<Rightarrow> world \<Rightarrow> bool" where
  "evolves E w w' \<longleftrightarrow> (\<exists>xs evs. cache_run_ok (en_hash E) xs (w_cache w) \<and>
     cache_run (en_hash E) xs (w_cache w) = (w_cache w', evs) \<and> w_events w' = w_events w @ evs)"

lemma evolves_refl [simp]: "evolves E w w" "evolves E w (w\<lparr>w_tick := n\<rparr>)"
  unfolding evolves_def by (rule exI [of _ "[]"], simp)+

lemma evolves_trans: "evolves E w1 w2 \<Longrightarrow> evolves E w2 w3 \<Longrightarrow> evolves E w1 w3"
  unfolding evolves_def
proof (elim exE conjE)
  fix xs evs ys evs'
  assume "cache_run_ok (en_hash E) xs (w_cache w1)" "cache_run (en_hash E) xs (w_cache w1) = (w_cache w2, evs)"
    "w_events w2 = w_events w1 @ evs"
    "cache_run_ok (en_hash E) ys (w_cache w2)" "cache_run (en_hash E) ys (w_cache w2) = (w_cache w3, evs')"
    "w_events w3 = w_events w2 @ evs'"
  then show "\<exists>xs evs. cache_run_ok (en_hash E) xs (w_cache w1) \<and>
     cache_run (en_hash E) xs (w_cache w1) = (w_cache w3, evs) \<and> w_events w3 = w_events w1 @ evs"
    by (intro exI [of _ "xs @ ys"]) (simp add: run_steps_append run_ok_append)
qed

lemma evolves_inv: "evolves E w w' \<Longrightarrow> cache_inv (en_hash E) (w_cache w) \<Longrightarrow> cache_inv (en_hash E) (w_cache w')"
  unfolding evolves_def using ca.run_replay by blast

lemma cache_step_exec: "cache_exec hash x c = (c', res, evs) \<Longrightarrow> cache_step hash x c = (c', evs)"
  by (simp add: cache_step_def)

lemma evolves_exec:
  assumes "cache_exec (en_hash E) x (w_cache w) = (c, res, evs)" and "cache_op_ok x (w_cache w)"
  shows "evolves E w (w\<lparr>w_cache := c, w_events := w_events w @ evs\<rparr>)"
  unfolding evolves_def using assms by (intro exI [of _ "[x]"]) (simp add: cache_step_def)

subsection \<open>Programs\<close>

definition sound_prog :: "env \<Rightarrow> 'a prog \<Rightarrow> bool" where
  "sound_prog E m \<longleftrightarrow> state_io_rel (\<lambda>w w'. cache_inv (en_hash E) (w_cache w) \<longrightarrow> evolves E w w') m"

named_theorems sound_intros \<open>programs whose effect on the cache is a run\<close>

lemma sound_return [sound_intros]: "sound_prog E (State_Monad.return x)"
  by (simp add: sound_prog_def state_io_rel_def)

lemma sound_bind [sound_intros]:
  assumes "sound_prog E m" and "\<And>x. sound_prog E (f x)"
  shows "sound_prog E (State_Monad.bind m f)"
  unfolding sound_prog_def
proof (intro state_io_relI impI)
  fix a w w'
  assume run: "run_state (State_Monad.bind m f) w = (a, w')" and inv: "cache_inv (en_hash E) (w_cache w)"
  obtain x w1 where m: "run_state m w = (x, w1)" by (cases "run_state m w")
  with run have f: "run_state (f x) w1 = (a, w')" by simp
  have 1: "evolves E w w1" using state_io_relD [OF assms(1) [unfolded sound_prog_def] m] inv by simp
  from evolves_inv [OF 1 inv] have "evolves E w1 w'"
    using state_io_relD [OF assms(2) [unfolded sound_prog_def] f] by simp
  with 1 show "evolves E w w'" by (rule evolves_trans)
qed

lemma sound_if [sound_intros]: "sound_prog E m \<Longrightarrow> sound_prog E n \<Longrightarrow> sound_prog E (if b then m else n)"
  by simp

lemma sound_reading [sound_intros]: "sound_prog E (reading f)"
  by (simp add: sound_prog_def state_io_rel_def reading_def)

lemma sound_clock [sound_intros]: "sound_prog E (clock E)"
  unfolding clock_def by (rule sound_reading)

lemma sound_the_cache [sound_intros]: "sound_prog E the_cache"
  by (simp add: sound_prog_def state_io_rel_def the_cache_def)

lemma sound_orders [sound_intros]: "sound_prog E (orders E)"
  by (simp add: sound_prog_def state_io_rel_def orders_def)

lemma sound_call:
  assumes "\<And>c. cache_inv (en_hash E) c \<Longrightarrow> cache_op_ok (x c) c"
    and "\<And>c. \<exists>res. cache_exec (en_hash E) (x c) c = (fst (f c), res, snd (snd (f c)))"
  shows "sound_prog E (call f)"
  unfolding sound_prog_def call_def
proof (intro state_io_relI impI)
  fix a and w w' :: world
  assume run: "run_state (State (\<lambda>w. let (c, r, evs) = f (w_cache w) in (r, w\<lparr>w_cache := c, w_events := w_events w @ evs\<rparr>))) w = (a, w')"
    and inv: "cache_inv (en_hash E) (w_cache w)"
  obtain res where "cache_exec (en_hash E) (x (w_cache w)) (w_cache w) = (fst (f (w_cache w)), res, snd (snd (f (w_cache w))))"
    using assms(2) by blast
  from evolves_exec [OF this] assms(1) [OF inv]
  have "evolves E w (w\<lparr>w_cache := fst (f (w_cache w)), w_events := w_events w @ snd (snd (f (w_cache w)))\<rparr>)" by blast
  with run show "evolves E w w'" by (auto simp: Let_def split: prod.splits)
qed

lemma sound_calls [sound_intros]:
  "sound_prog E (call (\<lambda>c. let (c1, evs) = SetTTL (en_hash E) k v ttl now c in (c1, (), evs)))"
  "sound_prog E (call (Get (en_hash E) k now))"
  "sound_prog E (call (Delete (en_hash E) k))"
  "sound_prog E (call (Exists (en_hash E) k now))"
  "sound_prog E (call (IncrBy (en_hash E) k d now))"
  "sound_prog E (call (Expire (en_hash E) k ttl now now2))"
  "sound_prog E (call (TTL (en_hash E) k now))"
  by (rule sound_call [where x = "\<lambda>_. CSet k v ttl now"] sound_call [where x = "\<lambda>_. CGet k now"]
      sound_call [where x = "\<lambda>_. CDel k"] sound_call [where x = "\<lambda>_. CExists k now"]
      sound_call [where x = "\<lambda>_. CIncrBy k d now"] sound_call [where x = "\<lambda>_. CExpire k ttl now now2"]
      sound_call [where x = "\<lambda>_. CTtl k now"]; simp add: split_beta Let_def)+

lemma sound_others [sound_intros]:
  assumes "env_ok E"
  shows "sound_prog E (others E)"
  unfolding sound_prog_def
proof (intro state_io_relI impI)
  fix a and w w' :: world
  assume run: "run_state (others E) w = (a, w')" and inv: "cache_inv (en_hash E) (w_cache w)"
  let ?xs = "en_others E (w_tick w) (w_cache w)"
  have "cache_run_ok (en_hash E) ?xs (w_cache w)" using assms inv by (simp add: env_ok_def)
  moreover obtain c evs where "cache_run (en_hash E) ?xs (w_cache w) = (c, evs)" by (cases "cache_run (en_hash E) ?xs (w_cache w)")
  ultimately show "evolves E w w'" using run unfolding evolves_def
    by (intro exI [of _ ?xs] exI [of _ evs]) (auto simp: others_def call_def)
qed

text \<open>A flush takes the orders of its range loops and then clears the shards.\<close>

lemma sound_flush:
  assumes "env_ok E"
  shows "sound_prog E (do { os \<leftarrow> orders E; call (\<lambda>c. let (c1, evs) = FlushAll os c in (c1, (), evs)) })" (is "sound_prog E ?p")
  unfolding sound_prog_def
proof (intro state_io_relI impI)
  fix a and w w' :: world
  assume run: "run_state ?p w = (a, w')" and inv: "cache_inv (en_hash E) (w_cache w)"
  let ?os = "en_orders E (w_tick w) (w_cache w)" and ?w = "w\<lparr>w_tick := Suc (w_tick w)\<rparr>"
  obtain c evs where fl: "FlushAll ?os (w_cache w) = (c, evs)" by (cases "FlushAll ?os (w_cache w)")
  have ok: "cache_op_ok (CFlushAll ?os) (w_cache ?w)" using assms inv by (simp add: env_ok_def)
  have "cache_exec (en_hash E) (CFlushAll ?os) (w_cache ?w) = (c, RUnit, evs)" using fl by simp
  from evolves_trans [OF evolves_refl(2) evolves_exec [OF this ok]] run fl show "evolves E w w'"
    by (simp add: orders_def call_def)
qed

lemmas cache_calls = call_SetTTL_def call_Get_def call_Delete_def call_Exists_def call_IncrBy_def call_Expire_def
  call_TTL_def call_Keys_def

lemma sound_cache_calls [sound_intros]:
  assumes "env_ok E"
  shows "sound_prog E (call_SetTTL E k v ttl)" "sound_prog E (call_Get E k)" "sound_prog E (call_Delete E k)"
    "sound_prog E (call_Exists E k)" "sound_prog E (call_IncrBy E k d)" "sound_prog E (call_Expire E k ttl)"
    "sound_prog E (call_TTL E k)" "sound_prog E (call_Keys E)"
  unfolding cache_calls by (intro sound_intros assms)+

lemma sound_multi [sound_intros]:
  assumes "env_ok E"
  shows "sound_prog E (call_MSet E ps)" "sound_prog E (call_MGet E ks)"
  by (induction ps, simp_all add: sound_intros assms) (induction ks, simp_all add: sound_intros assms)

lemma sound_FlushAll [sound_intros]: "env_ok E \<Longrightarrow> sound_prog E (call_FlushAll E)"
  unfolding call_FlushAll_def by (rule sound_bind [OF sound_others sound_flush])

lemma sound_count_keys [sound_intros]: "(\<And>k. sound_prog E (f k)) \<Longrightarrow> sound_prog E (count_keys f n ks)"
  by (induction ks arbitrary: n) (auto intro!: sound_intros)

lemma sound_case [sound_intros]:
  "(\<And>e. sound_prog E (f e)) \<Longrightarrow> (\<And>x. sound_prog E (g x)) \<Longrightarrow> sound_prog E (case s of Inl e \<Rightarrow> f e | Inr x \<Rightarrow> g x)"
  "sound_prog E m \<Longrightarrow> (\<And>x. sound_prog E (h x)) \<Longrightarrow> sound_prog E (case o' of None \<Rightarrow> m | Some x \<Rightarrow> h x)"
  "(\<And>x y. sound_prog E (p x y)) \<Longrightarrow> sound_prog E (case q of (x, y) \<Rightarrow> p x y)"
  by (auto split: sum.split option.split prod.split)

lemmas command_defs = cmdPing_def cmdEcho_def cmdSet_def cmdGet_def cmdDel_def cmdExists_def cmd_incrBy_def cmdMSet_def
  cmdMGet_def cmd_expire_def cmdPersist_def cmd_ttl_def cmdKeys_def cmdDBSize_def cmdType_def cmdFlushAll_def

lemma handler_cases:
  assumes "map_of handlers cmd = Some h"
  shows "h \<in> {cmdPing, cmdEcho, cmdSet, cmdGet, cmdDel, cmdExists, cmd_incrBy 1 False, cmd_incrBy (- 1) False,
    cmd_incrBy 0 True, cmdMSet, cmdMGet, cmd_expire second, cmd_expire millisecond, cmd_ttl False, cmd_ttl True,
    cmdPersist, cmdKeys, cmdDBSize, cmdType, cmdFlushAll}"
proof -
  have "h \<in> snd ` set handlers" using map_of_SomeD [OF assms] by force
  then show ?thesis by (simp add: handlers_def)
qed

lemma sound_handler:
  assumes "env_ok E" and "map_of handlers cmd = Some h"
  shows "sound_prog E (h E args)"
  using handler_cases [OF assms(2)] assms(1)
  by (auto simp: command_defs Let_def intro!: sound_intros)

end
