(* ===== verification/Server_Sys.thy ===== *)
theory Server_Sys
  imports Server_Inv
begin

section \<open>The server with its connections\<close>

text \<open>
  All connections of a server, interleaved between commands and, by \<open>en_others\<close>, before every call of the cache, with the dispatcher that hands events over, the forwarding of
  messages and the expiry ticks. The invariant: the cache and the broker satisfy theirs, and what a connection has queued are
  runs of commands.
\<close>

subsection \<open>What a command may do\<close>

definition progress :: "env \<Rightarrow> world \<Rightarrow> world \<Rightarrow> bool" where
  "progress E w w' \<longleftrightarrow> (\<exists>xs evs gone. cache_run_ok (en_hash E) xs (w_cache w) \<and>
     cache_run (en_hash E) xs (w_cache w) = (w_cache w', evs) \<and> w_events w @ evs = gone @ w_events w')"

lemma evolves_progress: "evolves E w w' \<Longrightarrow> progress E w w'"
  unfolding evolves_def progress_def by (metis append_Nil)

lemma progress_refl [simp]: "progress E w w" "progress E w (w\<lparr>w_tick := n\<rparr>)" "progress E w (w\<lparr>w_events := drop n (w_events w)\<rparr>)"
proof -
  show "progress E w w" "progress E w (w\<lparr>w_tick := n\<rparr>)" by (simp_all add: evolves_progress)
  have "w_events w = take n (w_events w) @ drop n (w_events w)" by simp
  then show "progress E w (w\<lparr>w_events := drop n (w_events w)\<rparr>)" unfolding progress_def
    by (intro exI [of _ "[]"] exI [of _ "take n (w_events w)"]) simp
qed

lemma progress_drained [simp]: "progress E w (w\<lparr>w_events := []\<rparr>)"
  using progress_refl(3) [of E w "length (w_events w)"] by simp

lemma progress_trans: "progress E w1 w2 \<Longrightarrow> progress E w2 w3 \<Longrightarrow> progress E w1 w3"
  unfolding progress_def
proof (elim exE conjE)
  fix xs evs gone ys evs' gone'
  assume "cache_run_ok (en_hash E) xs (w_cache w1)" "cache_run (en_hash E) xs (w_cache w1) = (w_cache w2, evs)"
    "cache_run_ok (en_hash E) ys (w_cache w2)" "cache_run (en_hash E) ys (w_cache w2) = (w_cache w3, evs')"
    and ev: "w_events w1 @ evs = gone @ w_events w2" "w_events w2 @ evs' = gone' @ w_events w3"
  moreover have "w_events w1 @ evs @ evs' = (gone @ gone') @ w_events w3"
    using ev by (metis append.assoc)
  ultimately show "\<exists>xs evs gone. cache_run_ok (en_hash E) xs (w_cache w1) \<and>
     cache_run (en_hash E) xs (w_cache w1) = (w_cache w3, evs) \<and> w_events w1 @ evs = gone @ w_events w3"
    by (intro exI [of _ "xs @ ys"] exI [of _ "evs @ evs'"] exI [of _ "gone @ gone'"])
      (simp add: run_steps_append run_ok_append)
qed

lemma progress_inv: "progress E w w' \<Longrightarrow> cache_inv (en_hash E) (w_cache w) \<Longrightarrow> cache_inv (en_hash E) (w_cache w')"
  unfolding progress_def using ca.run_replay by blast

definition server_ok :: "env \<Rightarrow> 'f server \<Rightarrow> bool" where
  "server_ok E s \<longleftrightarrow> cache_inv (en_hash E) (w_cache (sv_world s)) \<and> broker_inv (sv_broker s)"

definition conn_ok :: "env \<Rightarrow> conn \<Rightarrow> bool" where
  "conn_ok E c \<longleftrightarrow> (cn_inMulti c \<longrightarrow> cn_tx c \<noteq> None) \<and>
     (\<forall>tx. cn_tx c = Some tx \<longrightarrow> tx_inMulti tx = cn_inMulti c \<and>
        (\<forall>q \<in> set (tx_queued tx). sound_prog E (State (\<lambda>w. prod.swap (q w)))))"

text \<open>A step from \<open>s\<close> that returns, keeps the invariants and makes progress.\<close>

definition step_ok :: "env \<Rightarrow> 'f server \<Rightarrow> ('f server \<times> conn \<times> bool) option \<Rightarrow> bool" where
  "step_ok E s x \<longleftrightarrow> (case x of
     None \<Rightarrow> False
   | Some (s', c', k) \<Rightarrow> server_ok E s' \<and> conn_ok E c' \<and> progress E (sv_world s) (sv_world s'))"

lemma server_ok_world: "server_ok E s \<Longrightarrow> progress E (sv_world s) w \<Longrightarrow> server_ok E (s\<lparr>sv_world := w\<rparr>)"
  by (simp add: server_ok_def progress_inv)

lemma server_ok_simps [simp]:
  "server_ok E (s\<lparr>sv_co := co\<rparr>) = server_ok E s" "server_ok E (s\<lparr>sv_locks := m\<rparr>) = server_ok E s"
  "server_ok E (s\<lparr>sv_metrics := mt\<rparr>) = server_ok E s" "server_ok E (advance n s) = server_ok E s"
  "server_ok E (hand_over n s) = server_ok E s"
  by (simp_all add: server_ok_def advance_def hand_over_def)

lemma sv_world_simps [simp]:
  "sv_world (advance n s) = (sv_world s)\<lparr>w_tick := w_tick (sv_world s) + n\<rparr>"
  "sv_world (hand_over n s) = (sv_world s)\<lparr>w_events := drop n (w_events (sv_world s))\<rparr>"
  "sv_broker (advance n s) = sv_broker s" "sv_broker (hand_over n s) = sv_broker s"
  by (simp_all add: advance_def hand_over_def)

lemma conn_ok_simps [simp]:
  "conn_ok E (c\<lparr>cn_out := out\<rparr>) = conn_ok E c" "conn_ok E (c\<lparr>cn_subs := subs\<rparr>) = conn_ok E c"
  "conn_ok E (c\<lparr>cn_forwards := fs\<rparr>) = conn_ok E c"
  "conn_ok E (c\<lparr>cn_authed := b\<rparr>) = conn_ok E c" "conn_ok E (reply_to rep c) = conn_ok E c"
  "conn_ok E (confirm kind topic n c) = conn_ok E c"
  by (simp_all add: conn_ok_def reply_to_def confirm_def)

lemma step_SomeI [intro!]:
  "server_ok E s' \<Longrightarrow> conn_ok E c' \<Longrightarrow> progress E (sv_world s) (sv_world s') \<Longrightarrow> step_ok E s (Some (s', c', k))"
  by (simp add: step_ok_def)

subsection \<open>Transactions\<close>

lemma watch_keys_keeps:
  "watch_keys ks (co, tx) = (co', tx') \<Longrightarrow> tx_inMulti tx' = tx_inMulti tx \<and> tx_queued tx' = tx_queued tx"
  by (induction ks "(co, tx)" arbitrary: co tx rule: watch_keys.induct) (auto simp: Let_def split: if_splits)

lemma queued_sound:
  "\<forall>q \<in> set qs. sound_prog E (State (\<lambda>w. prod.swap (q w))) \<Longrightarrow> cache_inv (en_hash E) (w_cache w) \<Longrightarrow>
     evolves E w (fst (run_queued qs w))"
proof (induction qs arbitrary: w)
  case (Cons q qs)
  obtain w1 r where q: "q w = (w1, r)" by (cases "q w")
  have "state_io_rel (\<lambda>w w'. cache_inv (en_hash E) (w_cache w) \<longrightarrow> evolves E w w') (State (\<lambda>w. prod.swap (q w)))"
    using Cons.prems(1) by (simp add: sound_prog_def)
  from state_io_relD [OF this, of w r w1] have 1: "evolves E w w1" using q Cons.prems(2) by simp
  have "evolves E w1 (fst (run_queued qs w1))"
    using Cons.IH Cons.prems evolves_inv [OF 1] by simp
  with 1 q show ?case by (auto simp: split_beta intro: evolves_trans)
qed simp

lemma tx_of_ok: "conn_ok E c \<Longrightarrow> tx_inMulti (tx_of c) = cn_inMulti c \<and>
  (\<forall>q \<in> set (tx_queued (tx_of c)). sound_prog E (State (\<lambda>w. prod.swap (q w))))"
  by (auto simp: conn_ok_def tx_of_def Begin_def split: option.split)

lemma beginMulti_ok: "conn_ok E c \<Longrightarrow> conn_ok E (fst (beginMulti c))"
  using tx_of_ok [of E c] by (auto simp: beginMulti_def Multi_def conn_ok_def)

lemma queue_ok:
  assumes "conn_ok E c" and "cn_inMulti c" and "sound_prog E (h E args)"
  shows "\<exists>c'. queue_command h E args c = Some c' \<and> conn_ok E c'"
proof -
  obtain tx where tx: "cn_tx c = Some tx" "tx_inMulti tx" using assms(1,2) by (auto simp: conn_ok_def)
  have "State (\<lambda>w. run_state (h E args) w) = h E args" by (cases "h E args") simp
  then show ?thesis using assms tx by (auto simp: queue_command_def Queue_def conn_ok_def)
qed

lemma execTx_ok:
  assumes "server_ok E s" and "conn_ok E c"
  shows "\<exists>s' c' rep. execTx s c = Some (s', c', rep) \<and> server_ok E s' \<and> conn_ok E c' \<and>
    progress E (sv_world s) (sv_world s')"
proof (cases "cn_inMulti c")
  case False
  with assms show ?thesis by (simp add: execTx_def)
next
  case True
  then obtain tx where tx: "cn_tx c = Some tx" "tx_inMulti tx"
    "\<forall>q \<in> set (tx_queued tx). sound_prog E (State (\<lambda>w. prod.swap (q w)))" using assms(2) by (auto simp: conn_ok_def)
  obtain co tx1 w res where ex: "Exec (sv_co s) tx (sv_world s) = (co, tx1, w, res)"
    by (cases "Exec (sv_co s) tx (sv_world s)")
  have "w = sv_world s \<or> w = fst (run_queued (tx_queued tx) (sv_world s))"
    using ex by (auto simp: Exec_def Let_def split: if_splits prod.splits)
  with queued_sound [OF tx(3), of "sv_world s"] assms(1) have "progress E (sv_world s) w"
    by (auto simp: server_ok_def intro: evolves_progress)
  with server_ok_world [OF assms(1) this] True tx(1) ex show ?thesis
    by (simp add: execTx_def conn_ok_def server_ok_def)
qed

lemma discard_ok:
  "conn_ok E c \<Longrightarrow> conn_discard s c = (s', c', rep) \<Longrightarrow>
     conn_ok E c' \<and> sv_world s' = sv_world s \<and> sv_broker s' = sv_broker s"
  "conn_ok E c \<Longrightarrow> conn_unwatch s c = (s', c', rep) \<Longrightarrow>
     conn_ok E c' \<and> sv_world s' = sv_world s \<and> sv_broker s' = sv_broker s"
  by (auto simp: conn_discard_def conn_unwatch_def conn_ok_def split: option.splits if_splits)

lemma watch_ok:
  assumes "server_ok E s" and "conn_ok E c" and "conn_watch args s c = (s', c', rep)"
  shows "server_ok E s' \<and> conn_ok E c' \<and> progress E (sv_world s) (sv_world s')"
proof (cases "cn_inMulti c \<or> length args < 2")
  case True
  with assms show ?thesis by (auto simp: conn_watch_def split: if_splits)
next
  case False
  note tx = tx_of_ok [OF assms(2)]
  obtain co tx1 where wk: "watch_keys (drop 1 args) (sv_co (cache_Sync s), tx_of c) = (co, tx1)"
    by (cases "watch_keys (drop 1 args) (sv_co (cache_Sync s), tx_of c)")
  from False tx wk assms(3) have "s' = (cache_Sync s)\<lparr>sv_co := co\<rparr>" "c' = c\<lparr>cn_tx := Some tx1\<rparr>"
    by (auto simp: conn_watch_def Watch_def)
  then show ?thesis using watch_keys_keeps [OF wk] tx assms(1) False by (simp add: cache_Sync_def conn_ok_def)
qed

subsection \<open>The other commands\<close>

lemma lock_ok:
  "cmdLock E args s c = (s', rep) \<Longrightarrow> server_ok E s \<Longrightarrow> server_ok E s' \<and> progress E (sv_world s) (sv_world s')"
  "cmdUnlock args s = (s', rep) \<Longrightarrow> server_ok E s \<Longrightarrow> server_ok E s' \<and> progress E (sv_world s) (sv_world s')"
  "cmdRenewLock E args s = (s', rep) \<Longrightarrow> server_ok E s \<Longrightarrow> server_ok E s' \<and> progress E (sv_world s) (sv_world s')"
  by (auto simp: cmdLock_def cmdUnlock_def cmdRenewLock_def Let_def split: if_splits option.splits prod.splits)

lemma cluster_ok:
  "cmdCluster E args s c = (s', rep) \<Longrightarrow> server_ok E s \<Longrightarrow> server_ok E s' \<and> progress E (sv_world s) (sv_world s')"
  by (auto simp: cmdCluster_def Let_def split: if_splits option.splits)

lemma broker_ok: "server_ok E s \<Longrightarrow> broker_inv b \<Longrightarrow> server_ok E (s\<lparr>sv_broker := b\<rparr>)"
  by (simp add: server_ok_def)

lemma subscribe_ok:
  "server_ok E s \<Longrightarrow> conn_ok E c \<Longrightarrow> subscribe_all ts s c = (s', c') \<Longrightarrow>
     server_ok E s' \<and> conn_ok E c' \<and> sv_world s' = sv_world s"
proof (induction ts arbitrary: s c)
  case (Cons t ts)
  obtain b i where sub: "broker_Subscribe t 256 (sv_broker s) = (b, i)" by (cases "broker_Subscribe t 256 (sv_broker s)")
  have "broker_inv b" using Subscribe_inv(1) [OF _ sub] Cons.prems(1) by (simp add: server_ok_def)
  from broker_ok [OF Cons.prems(1) this] show ?case using Cons.prems sub
    by (auto split: if_splits dest!: Cons.IH [rotated 2])
qed simp

lemma unsubscribe_ok:
  "server_ok E s \<Longrightarrow> conn_ok E c \<Longrightarrow> unsubscribe_all ts s c = (s', c') \<Longrightarrow>
     server_ok E s' \<and> conn_ok E c' \<and> sv_world s' = sv_world s"
proof (induction ts arbitrary: s c)
  case (Cons t ts)
  have "server_ok E (s\<lparr>sv_broker := sub_Close i (sv_broker s)\<rparr>)" for i
    using Cons.prems(1) Close_inv by (auto simp: server_ok_def)
  then show ?case using Cons.prems by (auto split: option.splits dest!: Cons.IH [rotated 2])
qed simp

lemma publish_ok:
  assumes "env_ok E" and "server_ok E s"
  shows "\<exists>s' rep. cmdPublish E args s = Some (s', rep) \<and> server_ok E s' \<and> progress E (sv_world s) (sv_world s')"
proof -
  let ?t = "topic_subs (args ! 1) (sv_broker s)" and ?msg = "\<lparr>ms_Topic = args ! 1, ms_Payload = Some (args ! 2)\<rparr>"
  let ?targets = "en_targets E (now_tick s) ?t"
  have b: "broker_inv (sv_broker s)" using assms(2) by (simp add: server_ok_def)
  have m: "mset ?targets = mset ?t" using assms(1) by (simp add: env_ok_def)
  have "distinct ?t" using b by (simp add: broker_inv_def)
  then have d: "distinct ?targets" using mset_eq_imp_distinct_iff [OF m] by simp
  have "\<forall>i \<in> set ?targets. \<exists>x. map_of (bk_subs (sv_broker s)) i = Some x \<and> \<not> sb_closed x"
    using b unfolding mset_eq_setD [OF m] by (auto simp: broker_inv_def open_sub_def)
  from send_all_spec [OF d this b] obtain b' where "send_all ?msg ?targets (sv_broker s) = Some b'" "broker_inv b'" by blast
  then show ?thesis using broker_ok [OF assms(2)] assms(2)
    by (auto simp: cmdPublish_def broker_Publish_def server_ok_def)
qed

lemma handler_ok:
  assumes "env_ok E" and "map_of handlers cmd = Some h" and "server_ok E s" and "run_handler h E args s = (s', rep)"
  shows "server_ok E s' \<and> progress E (sv_world s) (sv_world s')"
proof -
  obtain w where w: "run_state (h E args) (sv_world s) = (rep, w)" "s' = s\<lparr>sv_world := w\<rparr>"
    using assms(4) by (auto simp: run_handler_def split: prod.splits)
  have "progress E (sv_world s) w"
    using state_io_relD [OF sound_handler [OF assms(1,2), unfolded sound_prog_def] w(1)] assms(3)
    by (auto simp: server_ok_def intro: evolves_progress)
  with server_ok_world [OF assms(3) this] w(2) show ?thesis by simp
qed

lemma pubsub_ok:
  assumes E: "env_ok E" and s: "server_ok E s" and c: "conn_ok E c"
  shows "step_ok E s (let (s1, c1) = doSubscribe args s c in Some (s1, c1, True))"
    and "step_ok E s (let (s1, c1) = doUnsubscribe E args s c in Some (s1, c1, True))"
    and "step_ok E s (case cmdPublish E args s of None \<Rightarrow> None | Some (s1, rep) \<Rightarrow> answered (s1, c, rep))"
  using s c publish_ok [OF E s, of args]
  by (auto simp: doSubscribe_def doUnsubscribe_def Let_def split: prod.split if_splits
      dest!: subscribe_ok [OF s c] unsubscribe_ok [rotated 2])

lemma dispatch_ok:
  assumes E: "env_ok E" and s: "server_ok E s" and c: "conn_ok E c"
  shows "step_ok E s (dispatch E args s c)"
proof -
  let ?cmd = "to_upper (en_upper E) (args ! 0)"
  have stay: "step_ok E s (answered (s, c, rep))" for rep using s c by auto
  have queue: "step_ok E s (case map_of handlers ?cmd of
      None \<Rightarrow> answered (s, c, rep)
    | Some h \<Rightarrow> (case queue_command h E args c of None \<Rightarrow> None | Some c1 \<Rightarrow> answered (s, c1, rep')))"
    if "cn_inMulti c" for rep rep'
  proof (cases "map_of handlers ?cmd")
    case (Some h)
    from queue_ok [of E c h args, OF c that sound_handler [OF E Some]] Some s show ?thesis by auto
  qed (use stay in simp)
  have auth: "step_ok E s (let (c1, rep) = cmdAuth args s c in answered (s, c1, rep))"
    using c s by (auto simp: cmdAuth_def)
  have multi: "step_ok E s (let (c1, rep) = beginMulti c in answered (s, c1, rep))"
    using beginMulti_ok [OF c] s by (auto split: prod.splits)
  have exec: "step_ok E s (case execTx s c of None \<Rightarrow> None | Some x \<Rightarrow> answered x)"
    using execTx_ok [OF s c] by auto
  have discard: "step_ok E s (answered (conn_discard s c))" "step_ok E s (answered (conn_unwatch s c))"
    using s by (auto simp: server_ok_def split: prod.split dest!: discard_ok [OF c])
  have watch: "step_ok E s (answered (conn_watch args s c))"
    by (auto split: prod.split dest!: watch_ok [OF s c])
  have locks: "step_ok E s (let (s1, rep) = cmdLock E args s c in answered (s1, c, rep))"
    "step_ok E s (let (s1, rep) = cmdUnlock args s in answered (s1, c, rep))"
    "step_ok E s (let (s1, rep) = cmdRenewLock E args s in answered (s1, c, rep))"
    "step_ok E s (let (s1, rep) = cmdCluster E args s c in answered (s1, c, rep))"
    using s c by (auto split: prod.split dest!: lock_ok(1) [OF _ s] lock_ok(2) [OF _ s] lock_ok(3) [OF _ s] cluster_ok [OF _ s])
  have handler: "step_ok E s (case map_of handlers ?cmd of
      Some h \<Rightarrow> (let (s1, rep) = run_handler h E args s in answered (s1, c, rep)) | None \<Rightarrow> answered (s, c, rep))" for rep
    using stay c by (auto split: option.split prod.split dest!: handler_ok [OF E _ s])
  have quit: "step_ok E s (Some (s, reply_to rOK c, False))" using s c by (simp add: step_ok_def)
  show ?thesis unfolding dispatch_def Let_def [of ?cmd]
    using stay queue auth multi exec discard watch pubsub_ok [OF E s c, of args] locks handler quit by (simp only: if_split) blast
qed

lemma conn_end_ok:
  assumes "server_ok E s" and "conn_ok E c" and "conn_end s c = (s', c')"
  shows "server_ok E s' \<and> conn_ok E c' \<and> sv_world s' = sv_world s"
proof -
  have "broker_inv (fold sub_Close ids b)" if "broker_inv b" for ids b
    using that by (induction ids arbitrary: b) (simp_all add: Close_inv)
  then show ?thesis using assms by (auto simp: conn_end_def closeSubs_def server_ok_def)
qed

lemma serve_turn_ok:
  assumes E: "env_ok E" and s: "server_ok E s" and c: "conn_ok E c" and "fst (ReadCommand lim uni inp) \<noteq> Inl Panic"
  shows "\<exists>s' c' r k. serve_turn E lim uni inp s c = Some (s', c', r, k) \<and> server_ok E s' \<and> conn_ok E c' \<and>
    progress E (sv_world s) (sv_world s')"
proof -
  let ?s = "advance 1 (s\<lparr>sv_metrics := IncCommands (sv_metrics s)\<rparr>)"
  have d: "step_ok E ?s (dispatch E args ?s c)" for args by (rule dispatch_ok [OF E _ c]) (use s in simp)
  have p: "progress E (sv_world s) w" if "progress E (sv_world ?s) w" for w
    using progress_trans [OF progress_refl(2) that [unfolded sv_world_simps]] by simp
  have obs: "progress E (sv_world s) (w\<lparr>w_tick := n\<rparr>)" if "progress E (sv_world s) w" for w n
    using progress_trans [OF that progress_refl(2)] .
  obtain x r where rc: "ReadCommand lim uni inp = (x, r)" by (cases "ReadCommand lim uni inp")
  show ?thesis
  proof (cases "sv_quit s \<or> (\<exists>e. x = Inl e) \<or> x = Inr []")
    case True
    with rc assms(4) s c show ?thesis
      by (auto simp: serve_turn_def split: prod.splits dest!: conn_end_ok [OF s c] simp del: sv_world_simps)
  next
    case False
    then obtain args where args: "x = Inr args" "args \<noteq> []" by (cases x) auto
    obtain s2 c2 k where d2: "dispatch E args ?s c = Some (s2, c2, k)" "server_ok E s2" "conn_ok E c2"
      "progress E (sv_world s) (sv_world s2)" using d [of args] p by (auto simp: step_ok_def split: option.splits)
    obtain s3 c3 where e: "conn_end s2 c2 = (s3, c3)" by (cases "conn_end s2 c2")
    show ?thesis using False args rc d2 e conn_end_ok [OF d2(2,3) e] obs
      by (cases k) (auto simp: serve_turn_def Let_def)
  qed
qed

subsection \<open>All connections\<close>

record 'f system =
  ss_server :: "'f server"
  ss_conns :: "(nat \<times> conn \<times> string) list"

text \<open>\<open>trackConn\<close>: a connection, with the bytes its client is going to send, is added to or removed from the map.\<close>

definition trackConn :: "nat \<Rightarrow> (conn \<times> string) option \<Rightarrow> 'f system \<Rightarrow> 'f system" where
  "trackConn i x y =
     y\<lparr>ss_conns := (case x of Some c \<Rightarrow> AList.update i c (ss_conns y) | None \<Rightarrow> AList.delete i (ss_conns y))\<rparr>"

lemma trackConn_server [simp]: "ss_server (trackConn i x y) = ss_server y"
  by (simp add: trackConn_def)

text \<open>What \<open>Serve\<close> does for a connection that it has accepted.\<close>

definition accept_conn :: "nat \<Rightarrow> string \<Rightarrow> string \<Rightarrow> string \<Rightarrow> 'f system \<Rightarrow> 'f system" where
  "accept_conn i remote local inp y =
     (let y1 = trackConn i (Some (server_newConn remote local, inp)) y
      in y1\<lparr>ss_server := (ss_server y1)\<lparr>sv_metrics := ConnOpened (sv_metrics (ss_server y1))\<rparr>\<rparr>)"

text \<open>\<open>Close\<close> tells the connections to stop and closes their sockets, from which nothing more can be read.\<close>

definition Server_Close :: "'f system \<Rightarrow> 'f system" where
  "Server_Close y =
     y\<lparr>ss_server := (ss_server y)\<lparr>sv_quit := True\<rparr>, ss_conns := map (\<lambda>(i, c, inp). (i, c, [])) (ss_conns y)\<rparr>"

text \<open>The steps: a client connects, with the bytes it is going to send; a connection takes a turn, or its last one; a
  subscription's message is written on a connection; the dispatcher hands an event over; expired items are swept; the server is
  closed.\<close>

inductive sys_step :: "env \<Rightarrow> limits \<Rightarrow> (string \<Rightarrow> string list) \<Rightarrow> 'f system \<Rightarrow> 'f system \<Rightarrow> bool"
  for E :: env and lim :: limits and uni :: "string \<Rightarrow> string list" where
  accept: "i \<notin> mkeys (ss_conns y) \<Longrightarrow> sys_step E lim uni y (accept_conn i remote local inp y)"
| turn: "map_of (ss_conns y) i = Some (c, inp) \<Longrightarrow> serve_turn E lim uni inp (ss_server y) c = Some (s, c', r, k) \<Longrightarrow>
    sys_step E lim uni y (trackConn i (if k then Some (c', r) else None) (y\<lparr>ss_server := s\<rparr>))"
| forward: "map_of (ss_conns y) i = Some (c, inp) \<Longrightarrow> sub \<in> set (cn_forwards c) \<Longrightarrow> forward_turn sub (ss_server y) c = (s, c') \<Longrightarrow>
    sys_step E lim uni y (y\<lparr>ss_server := s, ss_conns := AList.update i (c', inp) (ss_conns y)\<rparr>)"
| deliver: "sys_step E lim uni y (y\<lparr>ss_server := hand_over 1 (ss_server y)\<rparr>)"
| sweep: "orders_ok os (w_cache (sv_world (ss_server y))) \<Longrightarrow>
    expiry_tick os now (w_cache (sv_world (ss_server y))) = (c, evs) \<Longrightarrow>
    sys_step E lim uni y
      (y\<lparr>ss_server := (ss_server y)\<lparr>sv_world := (sv_world (ss_server y))\<lparr>w_cache := c,
         w_events := w_events (sv_world (ss_server y)) @ evs\<rparr>\<rparr>\<rparr>)"
| stop: "sys_step E lim uni y (Server_Close y)"

inductive sys_reach :: "env \<Rightarrow> limits \<Rightarrow> (string \<Rightarrow> string list) \<Rightarrow> 'f system \<Rightarrow> 'f system \<Rightarrow> bool"
  for E :: env and lim :: limits and uni :: "string \<Rightarrow> string list" and y0 :: "'f system" where
  sys_start: "sys_reach E lim uni y0 y0"
| sys_next: "sys_reach E lim uni y0 y \<Longrightarrow> sys_step E lim uni y z \<Longrightarrow> sys_reach E lim uni y0 z"

definition sys_New :: "cache \<Rightarrow> string \<Rightarrow> string \<Rightarrow> int \<Rightarrow> 'f system" where
  "sys_New c password nodeID now = \<lparr>ss_server = server_New c password nodeID now, ss_conns = []\<rparr>"

definition sys_inv :: "env \<Rightarrow> 'f system \<Rightarrow> bool" where
  "sys_inv E y \<longleftrightarrow> server_ok E (ss_server y) \<and> (\<forall>i c inp. map_of (ss_conns y) i = Some (c, inp) \<longrightarrow> conn_ok E c)"

lemma sys_inv_New: "cache_inv (en_hash E) c \<Longrightarrow> sys_inv E (sys_New c password nodeID now)"
  by (simp add: sys_inv_def sys_New_def server_New_def server_ok_def broker_inv_New Let_def)

lemma Server_Close_conns: "map_of (ss_conns (Server_Close y)) i = map_option (\<lambda>(c, inp). (c, [])) (map_of (ss_conns y) i)"
  using fun_cong [OF map_of_map [of "\<lambda>(c, inp). (c, [])" "ss_conns y"], of i] by (simp add: Server_Close_def case_prod_unfold)

lemma newConn_ok [simp]: "conn_ok E (server_newConn remote local)"
  by (simp add: conn_ok_def server_newConn_def)

lemma forward_ok:
  assumes "server_ok E s" and "conn_ok E c" and "forward_turn sub s c = (s', c')"
  shows "server_ok E s' \<and> conn_ok E c' \<and> sv_world s' = sv_world s"
  using assms Receive_inv [of "sv_broker s" sub]
  by (auto simp: forward_turn_def server_ok_def split: prod.splits option.splits)

lemma turn_ok:
  assumes "env_ok E" and "server_ok E s" and "conn_ok E c" and "serve_turn E lim uni inp s c = Some (s', c', r, k)"
  shows "server_ok E s' \<and> conn_ok E c' \<and> progress E (sv_world s) (sv_world s')"
proof (cases "fst (ReadCommand lim uni inp) = Inl Panic \<and> \<not> sv_quit s")
  case True
  then show ?thesis using assms(4) by (auto simp: serve_turn_def split: prod.splits)
next
  case False
  show ?thesis
  proof (cases "sv_quit s")
    case True
    with assms(4) conn_end_ok [OF assms(2,3)] show ?thesis by (auto simp: serve_turn_def split: prod.splits)
  qed (use False serve_turn_ok [OF assms(1-3), of lim uni inp] assms(4) in auto)
qed

lemma sys_step_ok:
  assumes "sys_step E lim uni y z" and "env_ok E" and "sys_inv E y"
  shows "sys_inv E z \<and> progress E (sv_world (ss_server y)) (sv_world (ss_server z))"
  using assms(1)
proof cases
  case (turn i c inp s c' r k)
  have c: "conn_ok E c" "server_ok E (ss_server y)" using assms(3) turn(2) by (auto simp: sys_inv_def)
  from turn_ok [OF assms(2) c(2,1) turn(3)] assms(3) turn(1) show ?thesis by (auto simp: sys_inv_def trackConn_def split: if_splits)
next
  case (forward i c inp sub s c')
  have c: "conn_ok E c" "server_ok E (ss_server y)" using assms(3) forward(2) by (auto simp: sys_inv_def)
  from forward_ok [OF c(2,1) forward(4)] assms(3) forward(1) show ?thesis by (auto simp: sys_inv_def split: if_splits)
next
  case (sweep os now c evs)
  let ?w = "sv_world (ss_server y)"
  have "cache_exec (en_hash E) (CTick os now) (w_cache ?w) = (c, RUnit, evs)" using sweep(3) by simp
  from evolves_progress [OF evolves_exec [OF this]] sweep(2)
  have p: "progress E ?w (?w\<lparr>w_cache := c, w_events := w_events ?w @ evs\<rparr>)" by simp
  with server_ok_world [OF _ p] assms(3) sweep(1) show ?thesis by (simp add: sys_inv_def)
next
  case stop
  then show ?thesis using assms(3) by (auto simp: sys_inv_def Server_Close_conns) (simp_all add: Server_Close_def server_ok_def)
qed (use assms(3) in \<open>auto simp: sys_inv_def server_ok_def accept_conn_def trackConn_def split: if_splits\<close>)

lemma sys_reach_ok:
  "sys_reach E lim uni y0 y \<Longrightarrow> env_ok E \<Longrightarrow> sys_inv E y0 \<Longrightarrow>
     sys_inv E y \<and> progress E (sv_world (ss_server y0)) (sv_world (ss_server y))"
  by (induction rule: sys_reach.induct) (auto dest: sys_step_ok intro: progress_trans)

end
