(* ===== verification/Server_Auth.thy ===== *)
theory Server_Auth
  imports Server_Sys
begin

section \<open>Authentication\<close>

text \<open>
  What a connection to a server with a password can do before it has authenticated: the check at the start of \<open>dispatch\<close> lets
  \<open>AUTH\<close>, \<open>QUIT\<close> and \<open>PING\<close> through, and none of them touches the server.
\<close>

text \<open>What commands do not change: the password, whether the server is closed, and the number of connections.\<close>

definition server_fixed :: "'f server \<Rightarrow> string \<times> bool \<times> int" where
  "server_fixed s = (sv_Password s, sv_quit s, mt_ConnectionsActive (sv_metrics s))"

lemma keeps_simps [simp]:
  "server_fixed (advance n s) = server_fixed s" "server_fixed (hand_over n s) = server_fixed s" "server_fixed (cache_Sync s) = server_fixed s"
  "sv_Password (advance n s) = sv_Password s" "sv_Password (hand_over n s) = sv_Password s"
  "server_fixed (s\<lparr>sv_world := w\<rparr>) = server_fixed s" "server_fixed (s\<lparr>sv_broker := b\<rparr>) = server_fixed s"
  "server_fixed (s\<lparr>sv_co := co\<rparr>) = server_fixed s" "server_fixed (s\<lparr>sv_locks := m\<rparr>) = server_fixed s"
  "server_fixed (s\<lparr>sv_registry := reg\<rparr>) = server_fixed s"
  "server_fixed (s\<lparr>sv_broker := b, sv_metrics := IncPubSub (sv_metrics s)\<rparr>) = server_fixed s"
  "server_fixed (s\<lparr>sv_metrics := IncCommands (sv_metrics s)\<rparr>) = server_fixed s"
  "server_fixed (s\<lparr>sv_metrics := metrics_Observe d (sv_metrics s)\<rparr>) = server_fixed s"
  "cn_authed (reply_to rep c) = cn_authed c" "cn_tx (reply_to rep c) = cn_tx c" "cn_inMulti (reply_to rep c) = cn_inMulti c"
  "cn_subs (reply_to rep c) = cn_subs c" "cn_forwards (reply_to rep c) = cn_forwards c" "cn_authed (confirm kind t n c) = cn_authed c"
  by (simp_all add: server_fixed_def IncPubSub_def IncCommands_def metrics_Observe_def Let_def advance_def hand_over_def cache_Sync_def reply_to_def confirm_def)

lemma topics_keep:
  "subscribe_all ts s c = (s', c') \<Longrightarrow> server_fixed s' = server_fixed s \<and> cn_authed c' = cn_authed c"
  "unsubscribe_all ts s c = (s', c') \<Longrightarrow> server_fixed s' = server_fixed s \<and> cn_authed c' = cn_authed c"
  by (induction ts arbitrary: s c) (fastforce simp: confirm_def split: if_splits prod.splits option.splits)+

lemma branches_keep:
  "run_handler h E args s = (s', rep) \<Longrightarrow> server_fixed s' = server_fixed s"
  "cmdLock E args s c = (s', rep) \<Longrightarrow> server_fixed s' = server_fixed s"
  "cmdUnlock args s = (s', rep) \<Longrightarrow> server_fixed s' = server_fixed s"
  "cmdRenewLock E args s = (s', rep) \<Longrightarrow> server_fixed s' = server_fixed s"
  "cmdCluster E args s c = (s', rep) \<Longrightarrow> server_fixed s' = server_fixed s"
  "cmdPublish E args s = Some (s', rep) \<Longrightarrow> server_fixed s' = server_fixed s"
  by (auto simp: run_handler_def cmdLock_def cmdUnlock_def cmdRenewLock_def cmdCluster_def cmdPublish_def Let_def
      split: prod.splits if_splits option.splits)

lemma conn_branches_keep:
  "queue_command h E args c = Some c' \<Longrightarrow> cn_authed c' = cn_authed c"
  "cmdAuth args s c = (c', rep) \<Longrightarrow> cn_authed c \<Longrightarrow> cn_authed c'"
  "beginMulti c = (c', rep) \<Longrightarrow> cn_authed c' = cn_authed c"
  "execTx s c = Some (s', c', rep) \<Longrightarrow> server_fixed s' = server_fixed s \<and> cn_authed c' = cn_authed c"
  "conn_discard s c = (s', c', rep) \<Longrightarrow> server_fixed s' = server_fixed s \<and> cn_authed c' = cn_authed c"
  "conn_unwatch s c = (s', c', rep) \<Longrightarrow> server_fixed s' = server_fixed s \<and> cn_authed c' = cn_authed c"
  "conn_watch args s c = (s', c', rep) \<Longrightarrow> server_fixed s' = server_fixed s \<and> cn_authed c' = cn_authed c"
  "doSubscribe args s c = (s', c') \<Longrightarrow> server_fixed s' = server_fixed s \<and> cn_authed c' = cn_authed c"
  "doUnsubscribe E args s c = (s', c') \<Longrightarrow> server_fixed s' = server_fixed s \<and> cn_authed c' = cn_authed c"
  by (auto simp: queue_command_def cmdAuth_def beginMulti_def execTx_def conn_discard_def conn_unwatch_def conn_watch_def
      cache_Sync_def doSubscribe_def doUnsubscribe_def Let_def
      split: option.splits sum.splits prod.splits if_splits dest!: topics_keep)

lemma dispatch_keeps:
  assumes "dispatch E args s c = Some (s', c', k)"
  shows "server_fixed s' = server_fixed s \<and> (cn_authed c \<longrightarrow> cn_authed c')"
  using assms unfolding dispatch_def Let_def
  by (auto split: if_splits option.splits prod.splits dest!: branches_keep conn_branches_keep)

text \<open>A connection that has not authenticated has done nothing.\<close>

definition fresh_conn :: "conn \<Rightarrow> bool" where
  "fresh_conn c \<longleftrightarrow> \<not> cn_authed c \<and> cn_tx c = None \<and> \<not> cn_inMulti c \<and> cn_subs c = [] \<and> cn_forwards c = []"

lemma dispatch_fresh:
  assumes "dispatch E args s c = Some (s', c', k)" and "sv_Password s \<noteq> []" and "fresh_conn c"
  shows "s' = s \<and> cn_subs c' = [] \<and> (fresh_conn c' \<or> (cn_authed c' \<and> length args = 2 \<and> args ! 1 = sv_Password s))"
proof -
  let ?cmd = "to_upper (en_upper E) (args ! 0)"
  consider "?cmd = ''AUTH''" | "?cmd = ''QUIT''" | "?cmd = ''PING''" | "?cmd \<notin> {''AUTH'', ''QUIT'', ''PING''}" by blast
  then show ?thesis
    using assms by cases (auto simp: dispatch_def fresh_conn_def cmdAuth_def handlers_def run_handler_def cmdPing_def split: if_splits)
qed

definition auth_inv :: "string \<Rightarrow> 'f system \<Rightarrow> bool" where
  "auth_inv password y \<longleftrightarrow> sv_Password (ss_server y) = password \<and>
     (\<forall>i c inp. map_of (ss_conns y) i = Some (c, inp) \<longrightarrow> fresh_conn c \<or> cn_authed c)"

lemma conn_end_simps:
  "conn_end s c = (s\<lparr>sv_broker := fold sub_Close (map snd (cn_subs c)) (sv_broker s), sv_metrics := ConnClosed (sv_metrics s)\<rparr>,
     c\<lparr>cn_subs := []\<rparr>)"
  by (simp add: conn_end_def closeSubs_def)

lemma turn_fixed:
  assumes "serve_turn E lim uni inp s c = Some (s', c', r, k)"
  shows "sv_Password s' = sv_Password s" and "sv_quit s' = sv_quit s" and "cn_authed c \<Longrightarrow> cn_authed c'"
    and "mt_ConnectionsActive (sv_metrics s') = (if k then mt_ConnectionsActive (sv_metrics s)
      else wrap64 (mt_ConnectionsActive (sv_metrics s) - 1))"
  using assms unfolding serve_turn_def Let_def conn_end_simps
  by (auto split: if_splits prod.splits sum.splits option.splits bool.splits dest!: dispatch_keeps
      simp: server_fixed_def advance_def IncCommands_def metrics_Observe_def ConnClosed_def)

lemma turn_auth:
  assumes "serve_turn E lim uni inp s c = Some (s', c', r, k)" and "sv_Password s \<noteq> []"
  shows "sv_Password s' = sv_Password s" and "cn_authed c \<Longrightarrow> cn_authed c'"
    and "fresh_conn c \<Longrightarrow> w_cache (sv_world s') = w_cache (sv_world s) \<and> w_events (sv_world s') = w_events (sv_world s) \<and>
      sv_broker s' = sv_broker s \<and> sv_locks s' = sv_locks s \<and> sv_co s' = sv_co s \<and>
      (fresh_conn c' \<or> (cn_authed c' \<and>
        (\<exists>args. fst (ReadCommand lim uni inp) = Inr args \<and> length args = 2 \<and> args ! 1 = sv_Password s)))"
proof -
  have fr: "s2 = s1 \<and> cn_subs c2 = [] \<and> (fresh_conn c2 \<or> (cn_authed c2 \<and> length args = 2 \<and> args ! 1 = sv_Password s))"
    if "fresh_conn c" "dispatch E args s1 c = Some (s2, c2, k2)" "sv_Password s1 = sv_Password s" for args s1 s2 c2 k2
    using dispatch_fresh [OF that(2) _ that(1)] that(3) assms(2) by simp
  show "sv_Password s' = sv_Password s" "cn_authed c \<Longrightarrow> cn_authed c'" by (rule turn_fixed [OF assms(1)])+
  show "w_cache (sv_world s') = w_cache (sv_world s) \<and> w_events (sv_world s') = w_events (sv_world s) \<and>
      sv_broker s' = sv_broker s \<and> sv_locks s' = sv_locks s \<and> sv_co s' = sv_co s \<and>
      (fresh_conn c' \<or> (cn_authed c' \<and>
        (\<exists>args. fst (ReadCommand lim uni inp) = Inr args \<and> length args = 2 \<and> args ! 1 = sv_Password s)))"
    if "fresh_conn c"
    using assms(1) that unfolding serve_turn_def Let_def conn_end_simps
    by (auto split: if_splits prod.splits sum.splits option.splits bool.splits dest!: fr [OF that]
        simp: fresh_conn_def advance_def)
qed

lemma sys_step_auth:
  assumes "sys_step E lim uni y z" and "auth_inv password y" and "password \<noteq> []"
  shows "auth_inv password z"
  using assms(1)
proof cases
  case (turn i c inp s c' r k)
  have pw: "sv_Password (ss_server y) = password" "fresh_conn c \<or> cn_authed c" using assms(2) turn(2) by (auto simp: auth_inv_def)
  note t = turn_auth [OF turn(3)]
  have "fresh_conn c' \<or> cn_authed c'" "sv_Password s = password" using t pw assms(3) by blast+
  with assms(2) turn(1) show ?thesis by (auto simp: auth_inv_def trackConn_def split: if_splits)
next
  case (forward i c inp sub s c')
  have "fresh_conn c \<or> cn_authed c" "sv_Password (ss_server y) = password"
    using assms(2) forward(2) unfolding auth_inv_def by blast+
  then have "cn_authed c" "sv_Password (ss_server y) = password" using forward(3) by (auto simp: fresh_conn_def)
  then have "cn_authed c'" "sv_Password s = password" using forward(4)
    by (auto simp: forward_turn_def split: prod.splits option.splits)
  with assms(2) forward(1) show ?thesis by (auto simp: auth_inv_def split: if_splits)
next
  case stop
  then show ?thesis using assms(2) by (auto simp: auth_inv_def Server_Close_conns) (simp add: Server_Close_def)
qed (use assms(2) in \<open>auto simp: auth_inv_def server_newConn_def fresh_conn_def accept_conn_def trackConn_def split: if_splits\<close>)

lemma sys_reach_auth:
  "sys_reach E lim uni y0 y \<Longrightarrow> auth_inv password y0 \<Longrightarrow> password \<noteq> [] \<Longrightarrow> auth_inv password y"
  by (induction rule: sys_reach.induct) (auto dest: sys_step_auth)

lemma auth_inv_New: "auth_inv password (sys_New c password nodeID now)"
  by (simp add: auth_inv_def sys_New_def server_New_def Let_def)

end
