(* ===== verification/Server_Thms.thy ===== *)
theory Server_Thms
  imports Server_Auth Cache_Thms
begin

section \<open>Properties of the server\<close>

text \<open>
  The statements about internal/server that the development claims: the server as a client of the cache, panics, authentication,
  and transactions over connections.
\<close>

definition ex_env :: env where
  "ex_env = \<lparr>en_hash = ex_hash, en_clock = int, en_orders = (\<lambda>n c. map (\<lambda>s. map fst (sh_items s)) (c_shards c)),
     en_topics = (\<lambda>n ts. ts), en_targets = (\<lambda>n ids. ids), en_token = (\<lambda>n. format_nat n), en_upper = id, en_lower = id,
     en_match = (\<lambda>p s. False), en_ratio = (\<lambda>h m. []), en_goversion = ''go'', en_others = (\<lambda>n c. [])\<rparr>"

lemma ex_env_ok: "env_ok ex_env"
proof -
  have "orders_ok (map (\<lambda>s. map fst (sh_items s)) (c_shards c)) c" if "cache_inv ex_hash c" for c
    using that unfolding orders_ok_def list_all2_map1
    by (auto simp: list_all2_conv_all_nth cache_inv_def visits_def shards_inv_def shard_inv_def)
  then show ?thesis by (simp add: env_ok_def ex_env_def)
qed

abbreviation ex_server :: "unit server" where
  "ex_server \<equiv> server_New ex_lru ''pw'' '''' 0"


definition ex_limits :: limits where
  "ex_limits = \<lparr>lim_args = 100, lim_values = 100, lim_bytes = 1000\<rparr>"

definition ex_set :: string where
  "ex_set = WriteCommand [''SET'', ''k'', ''v'']"

definition ex_system :: "unit system" where
  "ex_system = (sys_New ex_lru [] [] 0)
     \<lparr>ss_server := (server_New ex_lru [] [] 0)\<lparr>sv_metrics := ConnOpened (metrics_New ''node-1'' 0)\<rparr>,
      ss_conns := [(0, server_newConn ''a'' ''b'', ex_set)]\<rparr>"

lemma ex_system_reach: "sys_reach ex_env ex_limits (\<lambda>_. []) (sys_New ex_lru [] [] 0) ex_system"
  using sys_next [OF sys_start accept [of 0 "sys_New ex_lru [] [] 0" ex_env ex_limits "\<lambda>_. []" "''a''" "''b''" ex_set]]
  by (simp add: ex_system_def sys_New_def server_New_def accept_conn_def trackConn_def Let_def)

lemma ex_read: "ReadCommand ex_limits uni ex_set = (Inr [''SET'', ''k'', ''v''], [])"
  using ReadCommand_write [of "[''SET'', ''k'', ''v'']" ex_limits uni "[]"]
  by (simp add: ex_set_def ex_limits_def arg_ok_def maxBulkLen_def)


text \<open>C27: Well-formed states. In every reachable state the cache satisfies its invariant for every shard and the broker its own; and a
  connection is in a transaction exactly when its transaction object is, every command in the queue of which is a
  run of cache operations.\<close>

theorem system_well_formed:
  assumes "env_ok E" and "cache_New uc rs cfg = Some (Inr c)" and "sys_reach E lim uni (sys_New c password nodeID now) y"
  shows "cache_inv (en_hash E) (w_cache (sv_world (ss_server y))) \<and> broker_inv (sv_broker (ss_server y)) \<and>
    (\<forall>i cn inp. map_of (ss_conns y) i = Some (cn, inp) \<longrightarrow> conn_ok E cn)"
proof -
  have "sys_inv E y"
    using sys_reach_ok [OF assms(3,1)] sys_inv_New cache_New_props(1) [OF assms(2)] by blast
  then show ?thesis unfolding sys_inv_def server_ok_def by blast
qed

theorem system_well_formed_witness: "conn_ok ex_env (server_newConn ''a'' ''b'') \<and> cache_inv ex_hash (w_cache (sv_world (ss_server ex_system)))"
  using system_well_formed [OF ex_env_ok ex_lru_New ex_system_reach] by (simp add: ex_system_def ex_env_def)



text \<open>The reader of commands does panic on an array header above the largest slice, before any authentication: one line
  ends the process of any server.\<close>

theorem huge_array_kills_server:
  assumes "\<not> sv_quit s" and "lim_args lim < n" and "0 \<le> n" and "int64 n"
  shows "serve_turn E lim uni (''*'' @ format_int n @ CRLF @ r) s c = None"
  using assms ReadCommand_panics [of n lim uni r] by (simp add: serve_turn_def)

theorem huge_array_kills_server_witness:
  "serve_turn ex_env ex_limits (\<lambda>_. []) (''*'' @ format_int (2 ^ 62) @ CRLF @ []) ex_server (server_newConn ''a'' ''b'') = None"
  using huge_array_kills_server [of ex_server ex_limits "2 ^ 62" ex_env "\<lambda>_. []" "[]" "server_newConn ''a'' ''b''"]
  by (simp add: server_New_def Let_def ex_limits_def int64_def)

text \<open>C15: Authentication. In every reachable state of a server with a password, a turn of a connection that has not
  authenticated leaves the cache, its events, the broker, the locks and the coordinator as they were, and the connection is authenticated
  after it only if it sent a command of two words, the second of which is the password.\<close>

theorem unauthenticated_inert:
  assumes "sys_reach E lim uni (sys_New c password nodeID now) y" and "password \<noteq> []"
    and "map_of (ss_conns y) i = Some (cn, inp)" and "\<not> cn_authed cn"
    and "serve_turn E lim uni inp (ss_server y) cn = Some (s', cn', r, k)"
  shows "w_cache (sv_world s') = w_cache (sv_world (ss_server y)) \<and> w_events (sv_world s') = w_events (sv_world (ss_server y)) \<and>
    sv_broker s' = sv_broker (ss_server y) \<and> sv_locks s' = sv_locks (ss_server y) \<and> sv_co s' = sv_co (ss_server y) \<and>
    (cn_authed cn' \<longrightarrow> (\<exists>args. fst (ReadCommand lim uni inp) = Inr args \<and> length args = 2 \<and> args ! 1 = password))"
proof -
  have "auth_inv password y" by (rule sys_reach_auth [OF assms(1) auth_inv_New assms(2)])
  then have "fresh_conn cn \<or> cn_authed cn" and pw: "sv_Password (ss_server y) = password"
    using assms(3) unfolding auth_inv_def by blast+
  with assms(4) have f: "fresh_conn cn" by simp
  from turn_auth(3) [OF assms(5) _ f] pw assms(2) show ?thesis by (auto simp: fresh_conn_def)
qed

lemma ex_locked_reach:
  "sys_reach ex_env ex_limits (\<lambda>_. []) (sys_New ex_lru ''pw'' [] 0)
     ((sys_New ex_lru ''pw'' [] 0 :: unit system)
       \<lparr>ss_server := ex_server\<lparr>sv_metrics := ConnOpened (sv_metrics ex_server)\<rparr>,
        ss_conns := [(0, server_newConn ''a'' ''b'', ex_set)]\<rparr>)"
  using sys_next [OF sys_start accept [of 0 "sys_New ex_lru ''pw'' [] 0" ex_env ex_limits "\<lambda>_. []" "''a''" "''b''" ex_set]]
  by (simp add: sys_New_def accept_conn_def trackConn_def)

theorem unauthenticated_inert_witness:
  "\<exists>s' cn' r k. serve_turn ex_env ex_limits (\<lambda>_. []) ex_set
       (ex_server\<lparr>sv_metrics := ConnOpened (sv_metrics ex_server)\<rparr>) (server_newConn ''a'' ''b'') = Some (s', cn', r, k) \<and>
     w_cache (sv_world s') = ex_lru"
proof -
  let ?s = "ex_server\<lparr>sv_metrics := ConnOpened (sv_metrics ex_server)\<rparr>" and ?c = "server_newConn ''a'' ''b''"
  have "server_ok ex_env ?s"
    using ex_lru_inv(1) [of ex_hash] broker_inv_New by (simp add: server_ok_def server_New_def ex_env_def Let_def)
  from serve_turn_ok [OF ex_env_ok this newConn_ok, of ex_limits "\<lambda>_. []" ex_set "''a''" "''b''"] ex_read
  obtain s' cn' r k where t: "serve_turn ex_env ex_limits (\<lambda>_. []) ex_set ?s ?c = Some (s', cn', r, k)" by auto
  from unauthenticated_inert [OF ex_locked_reach, of 0 ?c ex_set s' cn' r k] t show ?thesis
    by (simp add: server_newConn_def server_New_def Let_def)
qed

subsection \<open>Transactions\<close>

text \<open>Commands that a connection sends, each with the state in which the server meets it; the others may act in between.\<close>

fun dispatch_seq :: "env \<Rightarrow> (string list \<times> 'f server) list \<Rightarrow> conn \<Rightarrow> ('f server list \<times> conn) option" where
  "dispatch_seq E [] c = Some ([], c)"
| "dispatch_seq E ((args, s) # xs) c =
     (case dispatch E args s c of
        None \<Rightarrow> None
      | Some (s1, c1, k) \<Rightarrow>
          (case dispatch_seq E xs c1 of None \<Rightarrow> None | Some (ss, c2) \<Rightarrow> Some (s1 # ss, c2)))"

definition handler_of :: "env \<Rightarrow> string list \<Rightarrow> handler option" where
  "handler_of E args = map_of handlers (to_upper (en_upper E) (args ! 0))"

text \<open>The commands run one after the other with nothing in between.\<close>

fun run_commands :: "env \<Rightarrow> string list list \<Rightarrow> world \<Rightarrow> world \<times> reply list" where
  "run_commands E [] w = (w, [])"
| "run_commands E (args # cmds) w =
     (let (rep, w1) = run_state (the (handler_of E args) E args) w; (w2, reps) = run_commands E cmds w1 in (w2, rep # reps))"

abbreviation queued :: "env \<Rightarrow> string list \<Rightarrow> world \<Rightarrow> world \<times> reply" where
  "queued E args \<equiv> (\<lambda>w. prod.swap (run_state (the (handler_of E args) E args) w))"

lemma run_queued_commands: "run_queued (map (queued E) cmds) w = run_commands E cmds w"
  by (induction cmds arbitrary: w) (auto split: prod.split)

lemma handler_names:
  "map_of handlers cmd = Some h \<Longrightarrow> cmd \<notin> {''EXEC'', ''DISCARD'', ''MULTI'', ''WATCH'', ''RESET'', ''QUIT'', ''AUTH''}"
  by (auto simp: handlers_def)

lemma upper_simps [simp]:
  "to_upper uni ''MULTI'' = ''MULTI''" "to_upper uni ''EXEC'' = ''EXEC''" "to_upper uni ''WATCH'' = ''WATCH''"
  by (simp_all add: to_upper_def is_ascii_def ascii_upper_def)

lemma dispatch_queue:
  assumes "handler_of E args \<noteq> None" and "cn_inMulti c" and "cn_tx c = Some tx" and "tx_inMulti tx"
    and "sv_Password s = [] \<or> cn_authed c"
  shows "dispatch E args s c =
    Some (s, reply_to (RepSimple ''QUEUED'') (c\<lparr>cn_tx := Some (tx\<lparr>tx_queued := tx_queued tx @ [queued E args]\<rparr>)\<rparr>), True)"
proof -
  obtain h where h: "map_of handlers (to_upper (en_upper E) (args ! 0)) = Some h" using assms(1) by (auto simp: handler_of_def)
  then have "the (handler_of E args) = h" by (simp add: handler_of_def)
  with h handler_names [OF h] assms(2-5) show ?thesis
    by (auto simp: dispatch_def queue_command_def Queue_def)
qed

lemma dispatch_multi:
  assumes "\<not> cn_inMulti c" and "\<not> tx_inMulti (tx_of c)" and "sv_Password s = [] \<or> cn_authed c"
  shows "dispatch E [''MULTI''] s c =
    Some (s, reply_to rOK (c\<lparr>cn_tx := Some ((tx_of c)\<lparr>tx_inMulti := True\<rparr>), cn_inMulti := True\<rparr>), True)"
  using assms by (auto simp: dispatch_def beginMulti_def Multi_def)

lemma dispatch_exec:
  assumes "cn_inMulti c" and "cn_tx c = Some tx" and "tx_inMulti tx" and "\<not> tx_changed (sv_co s) tx"
    and "sv_Password s = [] \<or> cn_authed c" and "run_queued (tx_queued tx) (sv_world s) = (w, reps)"
  shows "dispatch E [''EXEC''] s c =
    Some (s\<lparr>sv_co := fst (release (sv_co s) (tx\<lparr>tx_inMulti := False, tx_queued := []\<rparr>)), sv_world := w\<rparr>,
      reply_to (RepArray reps) (c\<lparr>cn_inMulti := False, cn_tx := None\<rparr>), True)"
  using assms by (auto simp: dispatch_def execTx_def Exec_def split: prod.split)

lemma dispatch_queue_all:
  assumes "list_all (\<lambda>args. handler_of E args \<noteq> None) cmds" and "length ss = length cmds" and "cn_inMulti c"
    and "cn_tx c = Some tx" and "tx_inMulti tx" and "\<forall>s \<in> set ss. sv_Password s = [] \<or> cn_authed c"
  shows "dispatch_seq E (zip cmds ss) c =
    Some (ss, c\<lparr>cn_tx := Some (tx\<lparr>tx_queued := tx_queued tx @ map (queued E) cmds\<rparr>),
      cn_out := cn_out c @ concat (replicate (length cmds) (writeReply (RepSimple ''QUEUED'')))\<rparr>)"
  using assms
proof (induction cmds arbitrary: ss c tx)
  case (Cons args cmds)
  then obtain s ss' where ss: "ss = s # ss'" "length ss' = length cmds" by (cases ss) auto
  let ?tx = "tx\<lparr>tx_queued := tx_queued tx @ [queued E args]\<rparr>"
  let ?c = "reply_to (RepSimple ''QUEUED'') (c\<lparr>cn_tx := Some ?tx\<rparr>)"
  have "dispatch E args s c = Some (s, ?c, True)" using Cons.prems ss by (intro dispatch_queue) auto
  moreover have "dispatch_seq E (zip cmds ss') ?c = Some (ss', ?c\<lparr>cn_tx := Some (?tx\<lparr>tx_queued := tx_queued ?tx @ map (queued E) cmds\<rparr>),
      cn_out := cn_out ?c @ concat (replicate (length cmds) (writeReply (RepSimple ''QUEUED'')))\<rparr>)"
    using Cons.prems ss by (intro Cons.IH) auto
  ultimately show ?case using ss by (simp add: reply_to_def)
qed simp

lemma dispatch_seq_append:
  "dispatch_seq E (xs @ ys) c = (case dispatch_seq E xs c of
     None \<Rightarrow> None
   | Some (ss, c1) \<Rightarrow> (case dispatch_seq E ys c1 of None \<Rightarrow> None | Some (ts, c2) \<Rightarrow> Some (ss @ ts, c2)))"
  by (induction E xs c rule: dispatch_seq.induct) (auto split: option.split)

text \<open>C10: Transactions run in order. Between \<open>MULTI\<close> and \<open>EXEC\<close> a connection that watches nothing is answered
  \<open>QUEUED\<close> and leaves the server as it is, whatever others make of it in between; \<open>EXEC\<close> runs the commands in order, one after the
  other on the cache it meets, and answers with the array of their replies. Operations of
  other connections may come between them, as the environment says: the mutex of \<open>EXEC\<close> only excludes other transactions.\<close>

theorem transaction_runs:
  assumes "cn_tx c = None" and "\<not> cn_inMulti c" and "list_all (\<lambda>args. handler_of E args \<noteq> None) cmds"
    and "length ss = length cmds" and "\<forall>t \<in> {s0, s} \<union> set ss. sv_Password t = [] \<or> cn_authed c"
    and "run_commands E cmds (sv_world s) = (w, reps)"
  shows "dispatch_seq E (([''MULTI''], s0) # zip cmds ss @ [([''EXEC''], s)]) c =
    Some (s0 # ss @ [s\<lparr>sv_world := w\<rparr>],
      c\<lparr>cn_out := cn_out c @ writeReply rOK @ concat (replicate (length cmds) (writeReply (RepSimple ''QUEUED''))) @
        writeReply (RepArray reps)\<rparr>)"
proof -
  let ?tx = "Begin\<lparr>tx_inMulti := True\<rparr>" and ?q = "concat (replicate (length cmds) (writeReply (RepSimple ''QUEUED'')))"
  let ?c1 = "reply_to rOK (c\<lparr>cn_tx := Some ?tx, cn_inMulti := True\<rparr>)"
  let ?tx2 = "?tx\<lparr>tx_queued := map (queued E) cmds\<rparr>"
  let ?c2 = "?c1\<lparr>cn_tx := Some ?tx2, cn_out := cn_out ?c1 @ ?q\<rparr>"
  have multi: "dispatch E [''MULTI''] s0 c = Some (s0, ?c1, True)"
    using dispatch_multi [of c s0 E] assms by (simp add: tx_of_def Begin_def)
  have queue: "dispatch_seq E (zip cmds ss) ?c1 = Some (ss, ?c2)"
    using dispatch_queue_all [OF assms(3,4), of ?c1 ?tx] assms(5) by (simp add: reply_to_def Begin_def)
  have "dispatch E [''EXEC''] s ?c2 = Some (s\<lparr>sv_world := w\<rparr>, reply_to (RepArray reps) (?c2\<lparr>cn_inMulti := False, cn_tx := None\<rparr>), True)"
    using dispatch_exec [of ?c2 ?tx2 s w reps E] assms(5,6)
    by (simp add: reply_to_def Begin_def tx_changed_def run_queued_commands release_def)
  with multi queue show ?thesis using assms(1,2) by (simp add: dispatch_seq_append reply_to_def)
qed

theorem transaction_runs_witness:
  "\<exists>s c. dispatch_seq ex_env [([''MULTI''], server_New ex_lru [] [] 0 :: unit server), ([''PING''], server_New ex_lru [] [] 0),
       ([''EXEC''], server_New ex_lru [] [] 0)] (server_newConn ''a'' ''b'') = Some (s, c) \<and>
     cn_out c = writeReply rOK @ writeReply (RepSimple ''QUEUED'') @ writeReply (RepArray [RepSimple ''PONG''])"
proof -
  let ?s = "server_New ex_lru [] [] 0 :: unit server" and ?c = "server_newConn ''a'' ''b''"
  have h: "handler_of ex_env [''PING''] = Some cmdPing"
    by (simp add: handler_of_def handlers_def to_upper_def is_ascii_def ascii_upper_def)
  have r: "run_commands ex_env [[''PING'']] (sv_world ?s) = (sv_world ?s, [RepSimple ''PONG''])"
    by (simp add: h cmdPing_def)
  from transaction_runs [OF _ _ _ _ _ r, of ?c "[?s]" ?s] h show ?thesis
    by (simp add: server_newConn_def server_New_def Let_def)
qed

lemma handler_dispatch:
  assumes "handler_of E args = Some h" and "\<not> cn_inMulti c" and "sv_Password s = [] \<or> cn_authed c"
    and "run_state (h E args) (sv_world s) = (rep, w)"
  shows "dispatch E args s c = Some (s\<lparr>sv_world := w\<rparr>, reply_to rep c, True)"
proof -
  have h: "map_of handlers (to_upper (en_upper E) (args ! 0)) = Some h" using assms(1) by (simp add: handler_of_def)
  have "to_upper (en_upper E) (args ! 0) \<in> fst ` set handlers" using map_of_SomeD [OF h] by force
  then have "to_upper (en_upper E) (args ! 0) \<notin> {''QUIT'', ''AUTH'', ''MULTI'', ''EXEC'', ''DISCARD'', ''WATCH'', ''UNWATCH'',
      ''SUBSCRIBE'', ''UNSUBSCRIBE'', ''PUBLISH'', ''LOCK'', ''UNLOCK'', ''RENEWLOCK'', ''INFO'', ''CLUSTER'', ''COMMAND''}"
    by (auto simp: handlers_def)
  with h assms(2-4) show ?thesis by (auto simp: dispatch_def run_handler_def)
qed

text \<open>So a transaction is not isolated: two reads of a key in one transaction can give different values.\<close>

theorem exec_not_isolated:
  "snd (run_commands (ex_env\<lparr>en_others := (\<lambda>n c. if n = 3 then [CSet ''k'' (Some ''v'') 0 0] else [])\<rparr>) [[''GET'', ''k''], [''GET'', ''k'']]
     \<lparr>w_cache = ex_lru, w_events = [], w_tick = 0\<rparr>) = [RepNil, RepBulk (Some ''v'')]"
  by code_simp

text \<open>C36: A write can slip past \<open>WATCH\<close>. When a connection watches a key and another one then runs a command, of whatever
  effect on the key, the transaction is still executed as long as the command's events have not been handed to the coordinator:
  \<open>EXEC\<close> does not wait for them.\<close>

theorem exec_misses_write:
  assumes "sv_Password s = []" and "cn_tx a = None" and "\<not> cn_inMulti a" and "\<not> cn_inMulti b"
    and "handler_of E args = Some h" and "handler_of E q \<noteq> None"
    and "dispatch E [''WATCH'', k] s a = Some (s1, a1, t1)" and "dispatch E args s1 b = Some (s2, b2, t2)"
  shows "\<exists>s3 a3 rep. dispatch_seq E [([''MULTI''], s2), (q, s2), ([''EXEC''], s2)] a1 = Some ([s2, s2, s3], a3) \<and>
    cn_out a3 = cn_out a1 @ writeReply rOK @ writeReply (RepSimple ''QUEUED'') @ writeReply (RepArray [rep])"
proof -
  obtain co and tx :: "(world, reply) tx" where wk: "watch_keys [k] (sv_co (cache_Sync s), Begin) = (co, tx)" by fastforce
  have a1: "a1 = reply_to rOK (a\<lparr>cn_tx := Some tx\<rparr>)" and s1: "s1 = (cache_Sync s)\<lparr>sv_co := co\<rparr>"
    using assms(1-3,7) wk by (auto simp: dispatch_def conn_watch_def Watch_def tx_of_def Begin_def Let_def)
  have tx: "\<not> tx_inMulti tx" "tx_queued tx = []" "\<not> tx_changed co tx"
    using wk by (auto simp: Begin_def tx_changed_def lookup0_def Let_def)
  have pw1: "sv_Password s1 = []" using assms(1) s1 by (simp add: cache_Sync_def hand_over_def)
  obtain rep w where "run_state (h E args) (sv_world s1) = (rep, w)" by (cases "run_state (h E args) (sv_world s1)")
  from handler_dispatch [OF assms(5,4) _ this] pw1 assms(8) have "s2 = s1\<lparr>sv_world := w\<rparr>" by simp
  then have s2: "sv_co s2 = co" "sv_Password s2 = []" using s1 pw1 by simp_all
  let ?tx = "tx\<lparr>tx_inMulti := True\<rparr>" and ?tx2 = "tx\<lparr>tx_inMulti := True, tx_queued := [queued E q]\<rparr>"
  let ?a2 = "reply_to rOK (a1\<lparr>cn_tx := Some ?tx, cn_inMulti := True\<rparr>)"
  let ?a3 = "reply_to (RepSimple ''QUEUED'') (?a2\<lparr>cn_tx := Some ?tx2\<rparr>)"
  have multi: "dispatch E [''MULTI''] s2 a1 = Some (s2, ?a2, True)"
    using dispatch_multi [of a1 s2 E] tx(1) s2(2) a1 assms(3) by (simp add: reply_to_def tx_of_def)
  have queue: "dispatch E q s2 ?a2 = Some (s2, ?a3, True)"
    using dispatch_queue [OF assms(6), of ?a2 ?tx s2] tx(2) s2(2) by (simp add: reply_to_def)
  obtain w2 rep2 where "run_queued (tx_queued ?tx2) (sv_world s2) = (w2, [rep2])" by (simp add: split_beta)
  from dispatch_exec [OF _ _ _ _ _ this, of ?a3 E] tx(3) s2
  obtain s3 where "dispatch E [''EXEC''] s2 ?a3 = Some (s3, reply_to (RepArray [rep2]) (?a3\<lparr>cn_inMulti := False, cn_tx := None\<rparr>), True)"
    by (auto simp: reply_to_def tx_changed_def)
  with multi queue show ?thesis by (auto simp: reply_to_def)
qed

theorem exec_misses_write_witness:
  "\<exists>s1 a1 s2 b2 s3 a3 rep.
     dispatch ex_env [''WATCH'', ''k''] (server_New ex_lru [] [] 0 :: unit server) (server_newConn ''a'' ''x'') = Some (s1, a1, True) \<and>
     dispatch ex_env [''SET'', ''k'', ''v''] s1 (server_newConn ''b'' ''x'') = Some (s2, b2, True) \<and>
     dispatch_seq ex_env [([''MULTI''], s2), ([''GET'', ''k''], s2), ([''EXEC''], s2)] a1 = Some ([s2, s2, s3], a3) \<and>
     cn_out a3 = cn_out a1 @ writeReply rOK @ writeReply (RepSimple ''QUEUED'') @ writeReply (RepArray [rep])"
proof -
  let ?s = "server_New ex_lru [] [] 0 :: unit server" and ?a = "server_newConn ''a'' ''x''" and ?b = "server_newConn ''b'' ''x''"
  have h: "handler_of ex_env [''SET'', ''k'', ''v''] = Some cmdSet" "handler_of ex_env [''GET'', ''k''] \<noteq> None"
    by (simp_all add: handler_of_def handlers_def to_upper_def is_ascii_def ascii_upper_def)
  obtain s1 a1 where w: "dispatch ex_env [''WATCH'', ''k''] ?s ?a = Some (s1, a1, True)" "sv_Password s1 = []"
    by (simp add: dispatch_def conn_watch_def Watch_def tx_of_def server_newConn_def Begin_def server_New_def Let_def
        cache_Sync_def hand_over_def)
  obtain rep w2 where "run_state (cmdSet ex_env [''SET'', ''k'', ''v'']) (sv_world s1) = (rep, w2)"
    by (cases "run_state (cmdSet ex_env [''SET'', ''k'', ''v'']) (sv_world s1)")
  from handler_dispatch [OF h(1) _ _ this, of ?b] w(2)
  obtain s2 b2 where st: "dispatch ex_env [''SET'', ''k'', ''v''] s1 ?b = Some (s2, b2, True)" by (simp add: server_newConn_def)
  from exec_misses_write [OF _ _ _ _ h w(1) st] show ?thesis using w st
    by (auto simp: server_New_def server_newConn_def Let_def)
qed

end
