(* ===== verification/Server_Life.thy ===== *)
theory Server_Life
  imports Server_Thms
begin

section \<open>Starting and closing the server\<close>

text \<open>
  internal/server/server.go: the accept loop with what the listener answers, the pages of the metrics server, and \<open>Close\<close>. The gauge of active
  connections counts them in every reachable state, and once the server is closed every connection ends at its next turn.
\<close>

subsection \<open>The accept loop\<close>

datatype accept_result = Accepted nat string string string | AcceptFails bool

text \<open>A turn of \<open>Serve\<close>, given what \<open>Accept\<close> returns: a connection, or an error that may be a timeout. The second component is
  None when the loop goes on, and otherwise whether \<open>Serve\<close> returns nil.\<close>

fun Serve_turn :: "accept_result \<Rightarrow> 'f system \<Rightarrow> 'f system \<times> bool option" where
  "Serve_turn (Accepted i remote local inp) y = (accept_conn i remote local inp y, None)"
| "Serve_turn (AcceptFails timeout) y =
     (y, if sv_quit (ss_server y) then Some True else if timeout then None else Some False)"

text \<open>\<open>ListenAndServe\<close> before the accept loop: an error when the address cannot be listened on, and otherwise whether the HTTP server is
  started.\<close>

definition ListenAndServe :: "bool \<Rightarrow> string \<Rightarrow> bool option" where
  "ListenAndServe listens metricsAddr = (if \<not> listens then None else Some (metricsAddr \<noteq> []))"

text \<open>The pages of the HTTP server, with their status.\<close>

definition health_page :: "nat \<times> string" where
  "health_page = (200, ''OK'' @ [CHR 0x0A])"

text \<open>Turns of connections, in the order of the list; one that has ended has no more turns.\<close>

fun serve_turns :: "env \<Rightarrow> limits \<Rightarrow> (string \<Rightarrow> string list) \<Rightarrow> nat list \<Rightarrow> 'f system \<Rightarrow> 'f system option" where
  "serve_turns E lim uni [] y = Some y"
| "serve_turns E lim uni (i # is) y =
     (case map_of (ss_conns y) i of
        None \<Rightarrow> serve_turns E lim uni is y
      | Some (c, inp) \<Rightarrow>
          (case serve_turn E lim uni inp (ss_server y) c of
             None \<Rightarrow> None
           | Some (s, c', r, k) \<Rightarrow>
               serve_turns E lim uni is (trackConn i (if k then Some (c', r) else None) (y\<lparr>ss_server := s\<rparr>))))"

subsection \<open>The gauge\<close>

lemma wrap64_add [simp]: "wrap64 (wrap64 x + y) = wrap64 (x + y)"
proof -
  have "(wrap64 x + y + 2 ^ 63) mod 2 ^ 64 = (x + y + 2 ^ 63) mod 2 ^ 64"
    using wrap64_eq_mod [of x] by (metis add.assoc mod_add_left_eq)
  then show ?thesis by (simp only: wrap64_def [of "wrap64 x + y"] wrap64_def [of "x + y"])
qed

lemma wrap64_diff [simp]: "wrap64 (wrap64 x - y) = wrap64 (x - y)"
  using wrap64_add [of x "- y"] by simp

lemma wrap64_0 [simp]: "wrap64 0 = 0"
  by (simp add: wrap64_def)

definition gauge_ok :: "'f system \<Rightarrow> bool" where
  "gauge_ok y \<longleftrightarrow> wf_map (ss_conns y) \<and>
     mt_ConnectionsActive (sv_metrics (ss_server y)) = wrap64 (int (length (ss_conns y)))"

lemma trackConn_gauge:
  assumes "gauge_ok y" and "map_of (ss_conns y) i = Some (c, inp)" and "serve_turn E lim uni inp (ss_server y) c = Some (s, c', r, k)"
  shows "gauge_ok (trackConn i (if k then Some (c', r) else None) (y\<lparr>ss_server := s\<rparr>))"
proof -
  have i: "i \<in> mkeys (ss_conns y)" using mkeys_Some [OF assms(2)] .
  then have "int (length (AList.delete i (ss_conns y))) = int (length (ss_conns y)) - 1"
    using length_delete_in [of "ss_conns y" i] assms(1) by (simp add: gauge_ok_def)
  with i turn_fixed(4) [OF assms(3)] assms(1) show ?thesis by (cases k) (simp_all add: gauge_ok_def trackConn_def)
qed

lemma forward_gauge: "forward_turn sub s c = (s', c') \<Longrightarrow> sv_metrics s' = sv_metrics s"
  by (auto simp: forward_turn_def split: prod.splits option.splits)

lemma sys_step_gauge: "sys_step E lim uni y z \<Longrightarrow> gauge_ok y \<Longrightarrow> gauge_ok z"
proof (induction rule: sys_step.induct)
  case (turn y i c inp s c' r k)
  then show ?case using trackConn_gauge by blast
next
  case (forward y i c inp sub s c')
  then show ?case using forward_gauge [of sub "ss_server y" c s c'] mkeys_Some [of "ss_conns y" i] by (simp add: gauge_ok_def)
next
  case (stop y)
  then show ?case by (auto simp: gauge_ok_def Server_Close_def comp_def case_prod_unfold)
qed (auto simp: gauge_ok_def accept_conn_def trackConn_def ConnOpened_def hand_over_def Let_def add.commute [of 1])

lemma gauge_ok_reach: "sys_reach E lim uni y0 y \<Longrightarrow> gauge_ok y0 \<Longrightarrow> gauge_ok y"
  by (induction rule: sys_reach.induct) (auto dest: sys_step_gauge)

lemma gauge_ok_New: "gauge_ok (sys_New c password nodeID now)"
  by (simp add: gauge_ok_def sys_New_def server_New_def metrics_New_def Let_def)

subsection \<open>Closing\<close>

lemma Close_closes: "\<not> open_sub (sub_Close i b) i t"
  by (auto simp: sub_Close_def open_sub_def map_of_update split: option.splits if_splits)

lemma Close_opens_none: "open_sub (sub_Close j b) i t \<Longrightarrow> open_sub b i t"
  by (auto simp: sub_Close_def open_sub_def map_of_update split: option.splits if_splits)

lemma Close_all: "open_sub (fold sub_Close ids b) i t \<Longrightarrow> open_sub b i t \<and> i \<notin> set ids"
proof (induction ids arbitrary: b)
  case (Cons j ids)
  then have "open_sub (sub_Close j b) i t \<and> i \<notin> set ids" by simp
  then show ?case using Close_opens_none [of j b i t] Close_closes [of i b t] by auto
qed simp

lemma serve_turn_quit:
  assumes "sv_quit s"
  obtains s' c' where "serve_turn E lim uni inp s c = Some (s', c', inp, False)" "sv_quit s'" "sv_world s' = sv_world s"
    "sv_broker s' = fold sub_Close (map snd (cn_subs c)) (sv_broker s)"
  using assms that by (simp add: serve_turn_def conn_end_simps)

lemma serve_turns_quit:
  assumes "sv_quit (ss_server y)" and "gauge_ok y"
  shows "\<exists>z. serve_turns E lim uni is y = Some z \<and> mkeys (ss_conns z) = mkeys (ss_conns y) - set is \<and> gauge_ok z \<and>
    sv_quit (ss_server z) \<and> sv_world (ss_server z) = sv_world (ss_server y) \<and>
    (\<forall>sub t. open_sub (sv_broker (ss_server z)) sub t \<longrightarrow> open_sub (sv_broker (ss_server y)) sub t \<and>
       (\<forall>i c inp. i \<in> set is \<longrightarrow> map_of (ss_conns y) i = Some (c, inp) \<longrightarrow> sub \<notin> snd ` set (cn_subs c)))"
  using assms
proof (induction "is" arbitrary: y)
  case (Cons i "is")
  show ?case
  proof (cases "map_of (ss_conns y) i")
    case None
    then have "i \<notin> mkeys (ss_conns y)" by (simp add: map_of_None_iff)
    then show ?thesis using Cons.IH [OF Cons.prems] None by auto
  next
    case (Some x)
    obtain c inp where x: "x = (c, inp)" by (cases x)
    obtain s' c' where t: "serve_turn E lim uni inp (ss_server y) c = Some (s', c', inp, False)" "sv_quit s'"
        "sv_world s' = sv_world (ss_server y)" "sv_broker s' = fold sub_Close (map snd (cn_subs c)) (sv_broker (ss_server y))"
      using serve_turn_quit [OF Cons.prems(1)] by blast
    let ?y = "trackConn i None (y\<lparr>ss_server := s'\<rparr>)"
    have "gauge_ok ?y" using trackConn_gauge [OF Cons.prems(2) Some [unfolded x] t(1)] by simp
    from Cons.IH [of ?y, OF _ this] t(2) obtain z where z: "serve_turns E lim uni is ?y = Some z"
        "mkeys (ss_conns z) = mkeys (ss_conns ?y) - set is" "gauge_ok z" "sv_quit (ss_server z)" "sv_world (ss_server z) = sv_world s'"
        "\<And>sub t. open_sub (sv_broker (ss_server z)) sub t \<Longrightarrow> open_sub (sv_broker s') sub t \<and>
          (\<forall>j c inp. j \<in> set is \<longrightarrow> map_of (ss_conns ?y) j = Some (c, inp) \<longrightarrow> sub \<notin> snd ` set (cn_subs c))"
      by auto
    have "open_sub (sv_broker (ss_server y)) sub tp \<and>
        (\<forall>j d inp. j \<in> set (i # is) \<longrightarrow> map_of (ss_conns y) j = Some (d, inp) \<longrightarrow> sub \<notin> snd ` set (cn_subs d))"
      if o: "open_sub (sv_broker (ss_server z)) sub tp" for sub tp
    proof -
      have "open_sub (sv_broker (ss_server y)) sub tp" "sub \<notin> snd ` set (cn_subs c)"
        using z(6) [OF o] Close_all [of "map snd (cn_subs c)" "sv_broker (ss_server y)" sub tp] t(4) by auto
      moreover have "sub \<notin> snd ` set (cn_subs d)" if "j \<in> set (i # is)" "map_of (ss_conns y) j = Some (d, inp')" for j d inp'
      proof (cases "j = i")
        case True
        then show ?thesis using that Some x \<open>sub \<notin> snd ` set (cn_subs c)\<close> by simp
      next
        case False
        then have "j \<in> set is" "map_of (ss_conns ?y) j = Some (d, inp')" using that by (simp_all add: trackConn_def)
        then show ?thesis using z(6) [OF o] by blast
      qed
      ultimately show ?thesis by blast
    qed
    then show ?thesis using Some x t(1,3) z(1-5) by (auto simp: trackConn_def)
  qed
qed auto

text \<open>C14: Closing the server. In every reachable state the gauge of active connections is their number. When the server is closed and every
  connection has had one more turn, in any order, no connection is left, the gauge is zero, every subscription that a connection held is closed, the
  cache and the events not handed over are as they were, and the accept loop returns nil.\<close>

theorem close_drains:
  assumes "sys_reach E lim uni (sys_New c password nodeID now) y" and "mkeys (ss_conns y) \<subseteq> set is"
  shows "mt_ConnectionsActive (sv_metrics (ss_server y)) = wrap64 (int (length (ss_conns y))) \<and>
    (\<exists>z. serve_turns E lim uni is (Server_Close y) = Some z \<and> ss_conns z = [] \<and> mt_ConnectionsActive (sv_metrics (ss_server z)) = 0 \<and>
       (\<forall>i cn inp sub t. map_of (ss_conns y) i = Some (cn, inp) \<and> sub \<in> snd ` set (cn_subs cn) \<longrightarrow>
          \<not> open_sub (sv_broker (ss_server z)) sub t) \<and>
       sv_world (ss_server z) = sv_world (ss_server y) \<and> snd (Serve_turn (AcceptFails timeout) z) = Some True)"
proof -
  have g: "gauge_ok y" "gauge_ok (Server_Close y)"
    using gauge_ok_reach [OF assms(1) gauge_ok_New] sys_step_gauge [OF stop] by blast+
  have q: "sv_quit (ss_server (Server_Close y))" "sv_world (ss_server (Server_Close y)) = sv_world (ss_server y)"
    "mkeys (ss_conns (Server_Close y)) = mkeys (ss_conns y)"
    by (auto simp: Server_Close_def image_image case_prod_unfold)
  from serve_turns_quit [OF q(1) g(2), of E lim uni "is"] obtain z where z: "serve_turns E lim uni is (Server_Close y) = Some z"
      "mkeys (ss_conns z) = mkeys (ss_conns (Server_Close y)) - set is" "gauge_ok z"
      "sv_quit (ss_server z)" "sv_world (ss_server z) = sv_world (ss_server (Server_Close y))"
      "\<forall>sub t. open_sub (sv_broker (ss_server z)) sub t \<longrightarrow> open_sub (sv_broker (ss_server (Server_Close y))) sub t \<and>
       (\<forall>i c inp. i \<in> set is \<longrightarrow> map_of (ss_conns (Server_Close y)) i = Some (c, inp) \<longrightarrow> sub \<notin> snd ` set (cn_subs c))"
    by (elim exE conjE)
  have "mkeys (ss_conns z) = {}" unfolding z(2) q(3) using assms(2) by (simp only: Diff_eq_empty_iff)
  then have "ss_conns z = []" by simp
  have closed: "\<not> open_sub (sv_broker (ss_server z)) sub t"
    if "map_of (ss_conns y) i = Some (cn, inp)" "sub \<in> snd ` set (cn_subs cn)" for i cn inp sub t
  proof -
    have "i \<in> set is" using mkeys_Some [OF that(1)] assms(2) by blast
    moreover have "map_of (ss_conns (Server_Close y)) i = Some (cn, [])" using that(1) by (simp add: Server_Close_conns)
    ultimately show ?thesis using z(6) that(2) by blast
  qed
  have "mt_ConnectionsActive (sv_metrics (ss_server z)) = 0" using z(3) \<open>ss_conns z = []\<close> by (simp add: gauge_ok_def)
  moreover have "snd (Serve_turn (AcceptFails timeout) z) = Some True" using z(4) by simp
  moreover have "sv_world (ss_server z) = sv_world (ss_server y)" using z(5) q(2) by simp
  moreover have "mt_ConnectionsActive (sv_metrics (ss_server y)) = wrap64 (int (length (ss_conns y)))" using g(1) by (simp add: gauge_ok_def)
  ultimately show ?thesis using z(1) \<open>ss_conns z = []\<close> closed by (intro conjI exI [of _ z] allI impI; (elim conjE)?)
qed

theorem close_drains_witness:
  "\<exists>z. serve_turns ex_env ex_limits (\<lambda>_. []) [0] (Server_Close ex_system) = Some z \<and> ss_conns z = [] \<and>
     mt_ConnectionsActive (sv_metrics (ss_server z)) = 0 \<and> mt_ConnectionsActive (sv_metrics (ss_server ex_system)) = 1"
proof -
  have "mkeys (ss_conns ex_system) \<subseteq> set [0]" and l: "wrap64 (int (length (ss_conns ex_system))) = 1"
    by (simp_all add: ex_system_def int64_def)
  from close_drains [OF ex_system_reach this(1)] show ?thesis unfolding l by blast
qed

end
