(* ===== verification/Client.thy ===== *)
theory Client
  imports Resp Hashring Pubsub
begin

section \<open>The client library\<close>

text \<open>
  pkg/client/client.go, cluster.go and subscriber.go, and cmd/cache-cli/main.go. The other end
  of a connection is a parameter: a state, and a function that gives the bytes that come back when bytes are sent to it. A
  client keeps the bytes it has received and not yet read. A method returns, as in Go, a result and an error that may be
  nil; \<open>ReadError Panic\<close> is a panic of the reader. Dialling is a parameter as well.
\<close>

type_synonym 's peer = "'s \<Rightarrow> string \<Rightarrow> 's \<times> string"

record 's Client =
  cl_peer :: 's
  cl_buf :: string

datatype client_error =
    ServerError string
  | ReadError resp_error
  | WrongType char
  | DialError string
  | EmptyCluster

definition zero_value :: Value where
  "zero_value = Value (CHR 0x00) [] 0 None False []"

subsection \<open>Calls\<close>

definition send_bytes :: "'s peer \<Rightarrow> string \<Rightarrow> 's Client \<Rightarrow> 's Client" where
  "send_bytes peer out cl = (let (p, inp) = peer (cl_peer cl) out in cl\<lparr>cl_peer := p, cl_buf := cl_buf cl @ inp\<rparr>)"

definition recv_reply :: "limits \<Rightarrow> 's Client \<Rightarrow> 's Client \<times> (resp_error + Value)" where
  "recv_reply lim cl =
     (case ReadReply lim (cl_buf cl) of
        None \<Rightarrow> (cl, Inl Panic)
      | Some (x, r) \<Rightarrow> (cl\<lparr>cl_buf := r\<rparr>, x))"

definition doBytes :: "limits \<Rightarrow> 's peer \<Rightarrow> string list \<Rightarrow> 's Client \<Rightarrow> 's Client \<times> Value \<times> client_error option" where
  "doBytes lim peer args cl =
     (let (cl1, x) = recv_reply lim (send_bytes peer (WriteCommand args) cl) in
      case x of
        Inl e \<Rightarrow> (cl1, zero_value, Some (ReadError e))
      | Inr v \<Rightarrow> if v_Type v = CHR ''-'' then (cl1, v, Some (ServerError (v_Str v))) else (cl1, v, None))"

definition client_Do :: "limits \<Rightarrow> 's peer \<Rightarrow> string list \<Rightarrow> 's Client \<Rightarrow> 's Client \<times> Value \<times> client_error option" where
  "client_Do lim peer args cl = doBytes lim peer args cl"

definition intCmd :: "limits \<Rightarrow> 's peer \<Rightarrow> string list \<Rightarrow> 's Client \<Rightarrow> 's Client \<times> int \<times> client_error option" where
  "intCmd lim peer args cl =
     (case client_Do lim peer args cl of
        (cl1, v, Some e) \<Rightarrow> (cl1, 0, Some e)
      | (cl1, v, None) \<Rightarrow> if v_Type v \<noteq> CHR '':'' then (cl1, 0, Some (WrongType (v_Type v))) else (cl1, v_Int v, None))"

definition client_Ping :: "limits \<Rightarrow> 's peer \<Rightarrow> 's Client \<Rightarrow> 's Client \<times> client_error option" where
  "client_Ping lim peer cl = (let (cl1, v, e) = client_Do lim peer [''PING''] cl in (cl1, e))"

definition client_Set :: "limits \<Rightarrow> 's peer \<Rightarrow> string \<Rightarrow> bytes \<Rightarrow> 's Client \<Rightarrow> 's Client \<times> client_error option" where
  "client_Set lim peer key value cl = (let (cl1, v, e) = doBytes lim peer [''SET'', key, str_of value] cl in (cl1, e))"

definition client_SetEX ::
  "limits \<Rightarrow> 's peer \<Rightarrow> string \<Rightarrow> bytes \<Rightarrow> int \<Rightarrow> 's Client \<Rightarrow> 's Client \<times> client_error option" where
  "client_SetEX lim peer key value ttl cl =
     (let ms = format_int (go_div ttl 1000000);
          (cl1, v, e) = doBytes lim peer [''SET'', key, str_of value, ''PX'', ms] cl
      in (cl1, e))"

definition client_Get :: "limits \<Rightarrow> 's peer \<Rightarrow> string \<Rightarrow> 's Client \<Rightarrow> 's Client \<times> bytes \<times> bool \<times> client_error option" where
  "client_Get lim peer key cl =
     (case client_Do lim peer [''GET'', key] cl of
        (cl1, v, Some e) \<Rightarrow> (cl1, None, False, Some e)
      | (cl1, v, None) \<Rightarrow> if v_IsNil v then (cl1, None, False, None) else (cl1, v_Bulk v, True, None))"

definition client_Del :: "limits \<Rightarrow> 's peer \<Rightarrow> string list \<Rightarrow> 's Client \<Rightarrow> 's Client \<times> int \<times> client_error option" where
  "client_Del lim peer keys cl = intCmd lim peer (''DEL'' # keys) cl"

definition client_Exists :: "limits \<Rightarrow> 's peer \<Rightarrow> string list \<Rightarrow> 's Client \<Rightarrow> 's Client \<times> int \<times> client_error option" where
  "client_Exists lim peer keys cl = intCmd lim peer (''EXISTS'' # keys) cl"

definition client_Incr :: "limits \<Rightarrow> 's peer \<Rightarrow> string \<Rightarrow> 's Client \<Rightarrow> 's Client \<times> int \<times> client_error option" where
  "client_Incr lim peer key cl = intCmd lim peer [''INCR'', key] cl"

definition client_IncrBy :: "limits \<Rightarrow> 's peer \<Rightarrow> string \<Rightarrow> int \<Rightarrow> 's Client \<Rightarrow> 's Client \<times> int \<times> client_error option" where
  "client_IncrBy lim peer key delta cl = intCmd lim peer [''INCRBY'', key, format_int delta] cl"

definition client_Expire :: "limits \<Rightarrow> 's peer \<Rightarrow> string \<Rightarrow> int \<Rightarrow> 's Client \<Rightarrow> 's Client \<times> bool \<times> client_error option" where
  "client_Expire lim peer key ttl cl =
     (let (cl1, n, e) = intCmd lim peer [''EXPIRE'', key, format_int (go_div ttl 1000000000)] cl in (cl1, n = 1, e))"

definition client_TTL :: "limits \<Rightarrow> 's peer \<Rightarrow> string \<Rightarrow> 's Client \<Rightarrow> 's Client \<times> int \<times> client_error option" where
  "client_TTL lim peer key cl =
     (case intCmd lim peer [''TTL'', key] cl of
        (cl1, n, Some e) \<Rightarrow> (cl1, 0, Some e)
      | (cl1, n, None) \<Rightarrow> if n < 0 then (cl1, n, None) else (cl1, wrap64 (n * 1000000000), None))"

definition client_Publish :: "limits \<Rightarrow> 's peer \<Rightarrow> string \<Rightarrow> bytes \<Rightarrow> 's Client \<Rightarrow> 's Client \<times> int \<times> client_error option" where
  "client_Publish lim peer topic msg cl =
     (case doBytes lim peer [''PUBLISH'', topic, str_of msg] cl of
        (cl1, v, Some e) \<Rightarrow> (cl1, 0, Some e)
      | (cl1, v, None) \<Rightarrow> (cl1, v_Int v, None))"

definition client_Lock ::
  "limits \<Rightarrow> 's peer \<Rightarrow> string \<Rightarrow> int \<Rightarrow> string \<Rightarrow> 's Client \<Rightarrow> 's Client \<times> string \<times> bool \<times> client_error option" where
  "client_Lock lim peer key ttl owner cl =
     (case client_Do lim peer [''LOCK'', key, format_int (go_div ttl 1000000000), owner] cl of
        (cl1, v, Some e) \<Rightarrow> (cl1, [], False, Some e)
      | (cl1, v, None) \<Rightarrow> if v_IsNil v then (cl1, [], False, None) else (cl1, str_of (v_Bulk v), True, None))"

definition client_Unlock :: "limits \<Rightarrow> 's peer \<Rightarrow> string \<Rightarrow> string \<Rightarrow> 's Client \<Rightarrow> 's Client \<times> bool \<times> client_error option" where
  "client_Unlock lim peer key token cl =
     (let (cl1, n, e) = intCmd lim peer [''UNLOCK'', key, token] cl in (cl1, n = 1, e))"

definition DialPassword ::
  "limits \<Rightarrow> 's peer \<Rightarrow> (string \<Rightarrow> client_error + 's) \<Rightarrow> string \<Rightarrow> string \<Rightarrow> client_error + 's Client" where
  "DialPassword lim peer dial addr password =
     (case dial addr of
        Inl e \<Rightarrow> Inl e
      | Inr p \<Rightarrow>
          (let cl = \<lparr>cl_peer = p, cl_buf = []\<rparr> in
           if password = [] then Inr cl
           else
             (case client_Do lim peer [''AUTH'', password] cl of
                (cl1, v, Some e) \<Rightarrow> Inl e
              | (cl1, v, None) \<Rightarrow> Inr cl1)))"

subsection \<open>The cluster client\<close>

record 's ClusterClient =
  cc_password :: string
  cc_ring :: ring
  cc_addrs :: "(string \<times> string) list"
  cc_clients :: "(string \<times> 's Client) list"

text \<open>\<open>nodes\<close> is the map of nodes in the order of the range loop.\<close>

definition NewCluster :: "(string \<times> string) list \<Rightarrow> string \<Rightarrow> client_error + 's ClusterClient" where
  "NewCluster nodes password =
     (if nodes = [] then Inl EmptyCluster
      else Inr \<lparr>cc_password = password, cc_ring = fold (\<lambda>(id', addr). ring_Add [id']) nodes (ring_New 0),
        cc_addrs = fold (\<lambda>(id', addr). AList.update id' addr) nodes [], cc_clients = []\<rparr>)"

definition cluster_Nodes :: "'s ClusterClient \<Rightarrow> string list" where
  "cluster_Nodes cc = sort (map fst (cc_addrs cc))"

definition OwnerOf :: "string \<Rightarrow> 's ClusterClient \<Rightarrow> string \<times> bool" where
  "OwnerOf key cc = ring_Get key (cc_ring cc)"

definition addr_of :: "'s ClusterClient \<Rightarrow> string \<Rightarrow> string" where
  "addr_of cc id' = (case map_of (cc_addrs cc) id' of None \<Rightarrow> [] | Some addr \<Rightarrow> addr)"

text \<open>The client for a key, by the id of its node, and the cluster client that holds it.\<close>

definition clientFor ::
  "limits \<Rightarrow> 's peer \<Rightarrow> (string \<Rightarrow> client_error + 's) \<Rightarrow> string \<Rightarrow> 's ClusterClient \<Rightarrow>
     client_error + 's ClusterClient \<times> string \<times> 's Client" where
  "clientFor lim peer dial key cc =
     (let (id', ok) = ring_Get key (cc_ring cc) in
      if \<not> ok then Inl EmptyCluster
      else
        (case map_of (cc_clients cc) id' of
           Some cl \<Rightarrow> Inr (cc, id', cl)
         | None \<Rightarrow>
             (case DialPassword lim peer dial (addr_of cc id') (cc_password cc) of
                Inl e \<Rightarrow> Inl e
              | Inr cl \<Rightarrow> Inr (cc\<lparr>cc_clients := AList.update id' cl (cc_clients cc)\<rparr>, id', cl))))"

text \<open>Every method of the cluster client calls the method of the client for its key.\<close>

definition on_client ::
  "limits \<Rightarrow> 's peer \<Rightarrow> (string \<Rightarrow> client_error + 's) \<Rightarrow> string \<Rightarrow> ('s Client \<Rightarrow> 's Client \<times> 'a) \<Rightarrow> (client_error \<Rightarrow> 'a) \<Rightarrow>
     's ClusterClient \<Rightarrow> 's ClusterClient \<times> 'a" where
  "on_client lim peer dial key f failed cc =
     (case clientFor lim peer dial key cc of
        Inl e \<Rightarrow> (cc, failed e)
      | Inr (cc1, id', cl) \<Rightarrow>
          (let (cl1, r) = f cl in (cc1\<lparr>cc_clients := AList.update id' cl1 (cc_clients cc1)\<rparr>, r)))"

definition cluster_Set where
  "cluster_Set lim peer dial key value cc = on_client lim peer dial key (client_Set lim peer key value) Some cc"

definition cluster_SetEX where
  "cluster_SetEX lim peer dial key value ttl cc = on_client lim peer dial key (client_SetEX lim peer key value ttl) Some cc"

definition cluster_Get where
  "cluster_Get lim peer dial key cc =
     on_client lim peer dial key (client_Get lim peer key) (\<lambda>e. (None, False, Some e)) cc"

definition cluster_Del where
  "cluster_Del lim peer dial key cc = on_client lim peer dial key (client_Del lim peer [key]) (\<lambda>e. (0, Some e)) cc"

definition cluster_Incr where
  "cluster_Incr lim peer dial key cc = on_client lim peer dial key (client_Incr lim peer key) (\<lambda>e. (0, Some e)) cc"

definition cluster_Close :: "'s ClusterClient \<Rightarrow> 's ClusterClient" where
  "cluster_Close cc = cc\<lparr>cc_clients := []\<rparr>"

subsection \<open>Subscribers\<close>

fun read_replies :: "limits \<Rightarrow> nat \<Rightarrow> 's Client \<Rightarrow> client_error + 's Client" where
  "read_replies lim 0 cl = Inr cl"
| "read_replies lim (Suc n) cl =
     (case recv_reply lim cl of (cl1, Inl e) \<Rightarrow> Inl (ReadError e) | (cl1, Inr v) \<Rightarrow> read_replies lim n cl1)"

definition client_Subscribe ::
  "limits \<Rightarrow> 's peer \<Rightarrow> (string \<Rightarrow> client_error + 's) \<Rightarrow> string \<Rightarrow> string \<Rightarrow> string list \<Rightarrow> client_error + 's Client" where
  "client_Subscribe lim peer dial addr password topics =
     (case dial addr of
        Inl e \<Rightarrow> Inl e
      | Inr p \<Rightarrow>
          (case (if password = [] then Inr \<lparr>cl_peer = p, cl_buf = []\<rparr>
                 else read_replies lim 1 (send_bytes peer (WriteCommand [''AUTH'', password]) \<lparr>cl_peer = p, cl_buf = []\<rparr>)) of
             Inl e \<Rightarrow> Inl e
           | Inr cl \<Rightarrow> read_replies lim (length topics) (send_bytes peer (WriteCommand (''SUBSCRIBE'' # topics)) cl)))"

definition message_of :: "Value \<Rightarrow> Message option" where
  "message_of v =
     (if v_Type v \<noteq> CHR ''*'' \<or> length (v_Array v) \<noteq> 3 then None
      else if str_of (v_Bulk (v_Array v ! 0)) \<noteq> ''message'' then None
      else Some \<lparr>ms_Topic = str_of (v_Bulk (v_Array v ! 1)), ms_Payload = v_Bulk (v_Array v ! 2)\<rparr>)"

text \<open>The loop of a subscriber on the bytes it receives: the messages it hands to the channel until the end of the
  stream.\<close>

lemma ReadReply_shorter: "ReadReply lim inp = Some (Inr v, r) \<Longrightarrow> length r < length inp"
proof -
  assume r: "ReadReply lim inp = Some (Inr v, r)"
  obtain x r1 where rl: "readLine inp = (x, r1)" by (cases "readLine inp")
  show ?thesis
  proof (cases x)
    case (Inl e)
    with r rl show ?thesis by (simp add: ReadReply_def)
  next
    case (Inr l)
    have short: "length r1 < length inp" using readLine_shorter rl Inr by blast
    have arr: "length r \<le> length r1" if "read_array lim (length inp) n [] r1 = Some (Inr v, r)" for n
      using read_fuel(2) [of r1 "length inp" lim n "[]"] short that by auto
    show ?thesis using r rl Inr short
      by (auto simp: ReadReply_def split: list.splits if_splits option.splits prod.splits sum.splits
          dest!: readFull_shorter arr)
  qed
qed

function subscriber_loop :: "limits \<Rightarrow> string \<Rightarrow> Message list" where
  "subscriber_loop lim inp =
     (case ReadReply lim inp of
        None \<Rightarrow> []
      | Some (Inl e, r) \<Rightarrow> []
      | Some (Inr v, r) \<Rightarrow>
          (case message_of v of None \<Rightarrow> subscriber_loop lim r | Some m \<Rightarrow> m # subscriber_loop lim r))"
  by pat_completeness auto
termination
  by (relation "measure (\<lambda>(lim, inp). length inp)") (auto dest: ReadReply_shorter)

declare subscriber_loop.simps [simp del]

subsection \<open>The command line\<close>

text \<open>\<open>quote\<close> is \<open>strconv.Quote\<close>.\<close>

fun render :: "(string \<Rightarrow> string) \<Rightarrow> Value \<Rightarrow> string" where
  "render quote (Value typ' str n bulk isNil arr) =
     (if typ' = CHR ''+'' then str
      else if typ' = CHR ''-'' then ''(error) '' @ str
      else if typ' = CHR '':'' then ''(integer) '' @ format_int n
      else if typ' = CHR ''$'' then (if isNil then ''(nil)'' else quote (str_of bulk))
      else if typ' = CHR ''*'' then
        (if isNil then ''(nil)''
         else if arr = [] then ''(empty array)''
         else
           (let lines = map (render quote) arr in
            concat (map (\<lambda>(i, l). (if i > 0 then [LF] else []) @ format_nat (i + 1) @ '') '' @ l)
              (zip [0..<length lines] lines))))
      else ''(unknown)'')"

text \<open>A command of the user. An error that the server answers is rendered as its reply; any other error is reported as such. In a
  session a line is split into words; a blank line is skipped, and \<open>quit\<close> or \<open>exit\<close> ends it. \<open>trim\<close> and \<open>words\<close> are \<open>TrimSpace\<close> and \<open>Fields\<close> of
  the package strings.\<close>

definition cli_do :: "limits \<Rightarrow> 's peer \<Rightarrow> (string \<Rightarrow> string) \<Rightarrow> string list \<Rightarrow> 's Client \<Rightarrow> 's Client \<times> (client_error + string)" where
  "cli_do lim peer quote args cl =
     (case client_Do lim peer args cl of
        (cl1, v, Some (ServerError e)) \<Rightarrow> (cl1, Inr (render quote v))
      | (cl1, v, Some e) \<Rightarrow> (cl1, Inl e)
      | (cl1, v, None) \<Rightarrow> (cl1, Inr (render quote v)))"

fun cli_loop ::
  "limits \<Rightarrow> 's peer \<Rightarrow> (string \<Rightarrow> string) \<Rightarrow> (string \<Rightarrow> string) \<Rightarrow> (string \<Rightarrow> string list) \<Rightarrow> string list \<Rightarrow> 's Client \<Rightarrow>
     's Client \<times> (client_error + string) list" where
  "cli_loop lim peer quote trim words [] cl = (cl, [])"
| "cli_loop lim peer quote trim words (text # texts) cl =
     (let line = trim text in
      if line = [] then cli_loop lim peer quote trim words texts cl
      else if line = ''quit'' \<or> line = ''exit'' then (cl, [])
      else
        (let (cl1, x) = cli_do lim peer quote (words line) cl;
             (cl2, xs) = cli_loop lim peer quote trim words texts cl1
         in (cl2, x # xs)))"

definition cli_main ::
  "limits \<Rightarrow> 's peer \<Rightarrow> (string \<Rightarrow> client_error + 's) \<Rightarrow> (string \<Rightarrow> string) \<Rightarrow> (string \<Rightarrow> string) \<Rightarrow> (string \<Rightarrow> string list) \<Rightarrow>
     string \<Rightarrow> string \<Rightarrow> string list \<Rightarrow> string list \<Rightarrow> client_error + (client_error + string) list" where
  "cli_main lim peer dial quote trim words addr password args texts =
     (case DialPassword lim peer dial addr password of
        Inl e \<Rightarrow> Inl e
      | Inr cl \<Rightarrow>
          if args \<noteq> [] then Inr [snd (cli_do lim peer quote args cl)]
          else Inr (snd (cli_loop lim peer quote trim words texts cl)))"

end
