(* ===== verification/Client_Thms.thy ===== *)
theory Client_Thms
  imports Client Server_Thms
begin

section \<open>Client and server together\<close>

text \<open>
  The client library against the server: every reply that a server writes is read back, a value that was stored is
  fetched, messages reach the subscriber, and the operations of the cluster client on a key meet at one node.
\<close>

subsection \<open>Replies\<close>

fun value_of :: "reply \<Rightarrow> Value" where
  "value_of (RepSimple s) = v_simple s"
| "value_of (RepErr s) = v_error s"
| "value_of (RepInt n) = v_int n"
| "value_of (RepBulk b) = (case b of None \<Rightarrow> v_nil | Some s \<Rightarrow> v_bulk s)"
| "value_of RepNil = v_nil"
| "value_of (RepArray arr) = v_array (map value_of arr)"
| "value_of RepNilArray = v_nilarray"

text \<open>A reply that the client can read: no line breaks in a line, numbers in range, sizes that can be allocated.\<close>

fun reply_ok :: "limits \<Rightarrow> reply \<Rightarrow> bool" where
  "reply_ok lim (RepSimple s) = line_ok (CHR ''+'' # s)"
| "reply_ok lim (RepErr s) = line_ok (CHR ''-'' # s)"
| "reply_ok lim (RepInt n) = int64 n"
| "reply_ok lim (RepBulk b) =
     (case b of None \<Rightarrow> True | Some s \<Rightarrow> int (length s) + 2 < 2 ^ 63 \<and> int (length s) + 2 \<le> lim_bytes lim)"
| "reply_ok lim RepNil = True"
| "reply_ok lim (RepArray arr) =
     (int (length arr) \<le> lim_values lim \<and> int64 (int (length arr)) \<and> list_all (reply_ok lim) arr)"
| "reply_ok lim RepNilArray = True"

fun reply_depth :: "reply \<Rightarrow> nat" where
  "reply_depth (RepArray arr) = Suc (fold max (map reply_depth arr) 0)"
| "reply_depth _ = 1"

lemma fold_max_le: "fold max ns (m::nat) \<le> n \<longleftrightarrow> m \<le> n \<and> (\<forall>x \<in> set ns. x \<le> n)"
  by (induction ns arbitrary: m) auto

text \<open>Readers with fuel for at least one line.\<close>

lemma read_scalar:
  "line_ok (CHR ''+'' # s) \<Longrightarrow> read_reply lim (Suc f) (WriteSimple s @ r) = Some (Inr (v_simple s), r)"
  "line_ok (CHR ''-'' # s) \<Longrightarrow> read_reply lim (Suc f) (WriteError s @ r) = Some (Inr (v_error s), r)"
  "int64 n \<Longrightarrow> read_reply lim (Suc f) (WriteInt n @ r) = Some (Inr (v_int n), r)"
  using readLine_line [of "CHR ''+'' # s" r] readLine_line [of "CHR ''-'' # s" r]
  by (simp_all add: WriteSimple_def WriteError_def WriteInt_def readLine_number)

lemma minus_one: "parse_int ''-1'' = Some (- 1)" "readLine (c # CHR ''-'' # CHR ''1'' # CR # LF # r) = (Inr [c, CHR ''-'', CHR ''1''], r)"
  if "c \<noteq> LF"
proof -
  have "format_int (-1) = ''-1''" by (simp add: format_int_def format_nat.simps digit_char_def char_of_def bit_0)
  with parse_format_int [of "-1"] show "parse_int ''-1'' = Some (- 1)" by (simp add: int64_def)
  show "readLine (c # CHR ''-'' # CHR ''1'' # CR # LF # r) = (Inr [c, CHR ''-'', CHR ''1''], r)"
    using readLine_line [of "[c, CHR ''-'', CHR ''1'']" r] that by (simp add: line_ok_def)
qed

lemma read_nils:
  "read_reply lim (Suc f) (WriteNil @ r) = Some (Inr v_nil, r)"
  "read_reply lim (Suc f) (WriteArrayHeader (- 1) @ r) = Some (Inr v_nilarray, r)"
  using minus_one [of "CHR ''$''"] minus_one [of "CHR ''*''"] by (simp_all add: WriteNil_def WriteArrayHeader_def)

lemma read_bulk:
  assumes "int (length s) + 2 < 2 ^ 63" and "int (length s) + 2 \<le> lim_bytes lim"
  shows "read_reply lim (Suc f) (WriteBulk (Some s) @ r) = Some (Inr (v_bulk s), r)"
proof -
  have "int64 (int (length s))" "wrap64 (int (length s) + 2) = int (length s) + 2"
    using assms(1) by (simp_all add: int64_def wrap64_def)
  moreover have "nat (int (length s) + 2) = Suc (Suc (length s))" by linarith
  moreover have "readFull (Suc (Suc (length s))) (s @ CR # LF # r) = (Inr (s @ [CR, LF]), r)"
    using readFull_exact [of "Suc (Suc (length s))" "s @ [CR, LF]" r] by simp
  ultimately show ?thesis using assms(2) by (simp add: WriteBulk_def readLine_number)
qed

lemma read_elements:
  assumes "\<And>rep r. rep \<in> set arr \<Longrightarrow> read_reply lim f (writeReply rep @ r) = Some (Inr (value_of rep), r)"
  shows "read_array lim f (length arr) acc (concat (map writeReply arr) @ r) = Some (Inr (v_array (acc @ map value_of arr)), r)"
  using assms by (induction arr arbitrary: acc) simp_all

lemma read_written:
  "reply_ok lim rep \<Longrightarrow> reply_depth rep \<le> f \<Longrightarrow> read_reply lim f (writeReply rep @ r) = Some (Inr (value_of rep), r)"
proof (induction rep arbitrary: f r)
  case (RepArray arr)
  from RepArray.prems(2) obtain g where f: "f = Suc g" "fold max (map reply_depth arr) 0 \<le> g" by (cases f) auto
  have "read_reply lim g (writeReply rep @ r) = Some (Inr (value_of rep), r)" if "rep \<in> set arr" for rep r
    using RepArray.IH [OF that] RepArray.prems(1) f(2) that by (auto simp: fold_max_le list_all_iff)
  from read_elements [OF this, of arr "[]" r] RepArray.prems(1) f(1) show ?case
    by (simp add: WriteArrayHeader_def readLine_number)
qed (auto simp: read_scalar read_nils read_bulk WriteBulk_def [of None] gr0_conv_Suc Suc_le_eq split: option.splits
    simp del: read_reply.simps)

lemma depth_length: "reply_depth rep \<le> length (writeReply rep)"
proof (induction rep)
  case (RepArray arr)
  have "reply_depth x \<le> length (concat (map writeReply arr))" if "x \<in> set arr" for x
  proof -
    from split_list [OF that] obtain ys zs where "arr = ys @ x # zs" by blast
    then have "length (writeReply x) \<le> length (concat (map writeReply arr))" by simp
    with RepArray [OF that] show ?thesis by linarith
  qed
  then show ?case by (fastforce simp: fold_max_le WriteArrayHeader_def intro: le_SucI trans_le_add2)
qed (auto simp: WriteSimple_def WriteError_def WriteInt_def WriteNil_def WriteBulk_def WriteArrayHeader_def
    split: option.split)

lemma ReadReply_written:
  "reply_ok lim rep \<Longrightarrow> ReadReply lim (writeReply rep @ r) = Some (Inr (value_of rep), r)"
  unfolding ReadReply_def by (rule read_written) (use depth_length [of rep] in \<open>simp_all add: le_SucI trans_le_add1\<close>)

definition take_reply :: "limits \<Rightarrow> string \<Rightarrow> (resp_error + Value) \<times> string" where
  "take_reply lim inp = (case ReadReply lim inp of None \<Rightarrow> (Inl Panic, inp) | Some x \<Rightarrow> x)"

lemma writeReply_nonempty: "writeReply rep \<noteq> []"
  by (cases rep) (simp_all add: WriteSimple_def WriteError_def WriteInt_def WriteBulk_def WriteNil_def WriteArrayHeader_def
      split: option.split)

interpretation reps: nonempty_framing writeReply "take_reply lim" value_of "reply_ok lim" for lim
  by unfold_locales (simp_all add: take_reply_def ReadReply_written writeReply_nonempty)

text \<open>C24: Replies survive the wire. Whatever replies the server writes one after the other, nested arrays included, the client reads
  them as the values they stand for and the rest of the stream is left, provided that lines have no line breaks, numbers fit
  and sizes can be allocated. No other sequence of such replies has the same bytes, up to their values.\<close>

theorem reply_roundtrip:
  assumes "list_all (reply_ok lim) xs"
  shows "read_n (take_reply lim) (length xs) (concat (map writeReply xs) @ r) = (map (Inr \<circ> value_of) xs, r) \<and>
    (\<forall>ys. list_all (reply_ok lim) ys \<and> concat (map writeReply ys) = concat (map writeReply xs) \<longrightarrow> map value_of ys = map value_of xs)"
  using assms reps.read_all reps.stream_unique by blast

theorem reply_roundtrip_witness:
  "read_n (take_reply ex_limits) 2 (writeReply (RepArray [RepInt 1, RepArray [rOK, RepNil], rBulkStr ''x'']) @ writeReply rOK @ ''rest'') =
     ([Inr (v_array [v_int 1, v_array [v_simple ''OK'', v_nil], v_bulk ''x'']), Inr (v_simple ''OK'')], ''rest'')"
  using reply_roundtrip [of ex_limits "[RepArray [RepInt 1, RepArray [rOK, RepNil], rBulkStr ''x''], rOK]" "''rest''"]
  by (simp add: ex_limits_def rOK_def rBulkStr_def line_ok_def int64_def numeral_2_eq_2 del: read_n.simps writeReply.simps)

text \<open>The proviso matters. An unknown command with a newline in it makes the server write an error that is read as a
  shorter error, and what follows the newline in the command is read as the next reply.\<close>

theorem reply_splitting:
  assumes "LF \<notin> set a" and "a = [] \<or> last a \<noteq> CR"
  shows "ReadReply lim (writeReply (RepErr (''ERR unknown command '' @ quoted (a @ LF # b))) @ r) =
    Some (Inr (v_error (''ERR unknown command '' @ CHR 0x27 # a)), b @ CHR 0x27 # CRLF @ r)"
proof -
  let ?l = "''-ERR unknown command '' @ CHR 0x27 # a"
  have "LF \<notin> set ?l" using assms(1) by simp
  note rb = readBytes_line [OF this, of "b @ CHR 0x27 # CRLF @ r"]
  have "trimCRLF (?l @ [LF]) = trimCRLF ?l" by (simp add: trimCRLF_def)
  also have "\<dots> = ?l" using assms by (intro trimCRLF_id) (auto dest: last_in_set)
  finally show ?thesis using rb
    by (simp add: ReadReply_def readLine_def WriteError_def quoted_def)
qed

theorem reply_splitting_witness:
  "ReadReply ex_limits (writeReply (RepErr (''ERR unknown command '' @ quoted (''X'' @ LF # '':1'' @ CRLF)))) =
     Some (Inr (v_error (''ERR unknown command '' @ CHR 0x27 # ''X'')), '':1'' @ CRLF @ CHR 0x27 # CRLF)"
  using reply_splitting [of "''X''" ex_limits "'':1'' @ CRLF" "[]"] by simp

subsection \<open>A client and a server\<close>

text \<open>The server as the other end of a client's connection: it takes a turn for each command that is sent.\<close>

definition server_peer :: "env \<Rightarrow> limits \<Rightarrow> (string \<Rightarrow> string list) \<Rightarrow> ('f server \<times> conn) peer" where
  "server_peer E lim uni x out =
     (case x of (s, c) \<Rightarrow>
        (case serve_turn E lim uni out s c of
           None \<Rightarrow> ((s, c), [])
         | Some (s1, c1, r, k) \<Rightarrow> ((s1, c1), drop (length (cn_out c)) (cn_out c1))))"

definition ready :: "env \<Rightarrow> 'f server \<times> conn \<Rightarrow> bool" where
  "ready E x \<longleftrightarrow> (case x of (s, c) \<Rightarrow>
     \<not> sv_quit s \<and> (sv_Password s = [] \<or> cn_authed c) \<and> \<not> cn_inMulti c \<and> cache_inv (en_hash E) (w_cache (sv_world s)) \<and>
     (\<forall>n d. en_others E n d = []))"

definition sizes_ok :: "limits \<Rightarrow> string list \<Rightarrow> bool" where
  "sizes_ok lim args \<longleftrightarrow> args \<noteq> [] \<and> (\<forall>a \<in> set args. arg_ok lim a) \<and> int (length args) \<le> lim_args lim \<and> lim_args lim < 2 ^ 63"

lemma exchange:
  assumes cl: "cl_peer cl = (s, c)" "cl_buf cl = []" "ready E (s, c)" and sz: "sizes_ok lim args"
    and h: "handler_of E args = Some h" "run_state (h E args) ((sv_world s)\<lparr>w_tick := Suc (w_tick (sv_world s))\<rparr>) = (rep, w)"
    and rep: "reply_ok lim rep" "\<And>e. rep \<noteq> RepErr e"
  shows "\<exists>cl1 s1 c1 n. doBytes lim (server_peer E lim uni) args cl = (cl1, value_of rep, None) \<and> cl_peer cl1 = (s1, c1) \<and>
    cl_buf cl1 = [] \<and> sv_world s1 = w\<lparr>w_tick := n\<rparr> \<and> (cache_inv (en_hash E) (w_cache w) \<longrightarrow> ready E (s1, c1))"
proof -
  let ?s = "advance 1 (s\<lparr>sv_metrics := IncCommands (sv_metrics s)\<rparr>)"
  have "ReadCommand lim uni (WriteCommand args @ []) = (Inr args, [])"
    using sz by (intro ReadCommand_write) (auto simp: sizes_ok_def)
  then have rd: "ReadCommand lim uni (WriteCommand args) = (Inr args, [])" by simp
  have d: "dispatch E args ?s c = Some (?s\<lparr>sv_world := w\<rparr>, reply_to rep c, True)"
    using cl(3) h by (intro handler_dispatch) (auto simp: ready_def)
  obtain s1 n where t: "serve_turn E lim uni (WriteCommand args) s c = Some (s1, reply_to rep c, [], True)"
    "sv_world s1 = w\<lparr>w_tick := n\<rparr>" "sv_quit s1 = sv_quit s" "sv_Password s1 = sv_Password s"
    using rd d cl(3) sz by (simp add: serve_turn_def Let_def ready_def sizes_ok_def advance_def)
  have "v_Type (value_of rep) \<noteq> CHR ''-''" using rep(2) by (cases rep) (auto split: option.split)
  with t cl ReadReply_written [OF rep(1), of "[]"] show ?thesis
    by (auto simp: doBytes_def send_bytes_def recv_reply_def server_peer_def reply_to_def ready_def)
qed

lemma others_none: "en_others E (w_tick w) (w_cache w) = [] \<Longrightarrow> run_state (others E) w = ((), w\<lparr>w_tick := Suc (w_tick w)\<rparr>)"
  by (simp add: others_def call_def)

lemma run_Set:
  assumes "cache_inv (en_hash E) (w_cache w)" and "\<forall>n c. en_others E n c = []" and "run_state (cmdSet E [''SET'', k, v]) w = (rep, w')"
  shows "rep = rOK" and "cache_inv (en_hash E) (w_cache w')"
    and "cache_kv (en_hash E) (w_cache w') k = Some \<lparr>it_value = clone_bytes (Some v), it_expireAt = 0\<rparr>"
proof -
  let ?x = "CSet k (Some v) 0 (en_clock E (w_tick w))"
  obtain c res evs where ex: "cache_exec (en_hash E) ?x (w_cache w) = (c, res, evs)" by (cases "cache_exec (en_hash E) ?x (w_cache w)")
  have w': "rep = rOK" "w_cache w' = c" using assms(2,3) ex
    by (auto simp: cmdSet_def call_SetTTL_def clock_def reading_def others_none call_def split: prod.splits)
  have "refines (en_hash E) ?x (w_cache w)" by (rule cache_exec_refines [OF assms(1)]) simp
  then have c: "cache_inv (en_hash E) c" "cache_kv (en_hash E) c k = Some \<lparr>it_value = clone_bytes (Some v), it_expireAt = 0\<rparr>"
    using ex by (auto simp: refines_def expiry_def dest!: arg_cong [where f = "\<lambda>m. m k"])
  then show "rep = rOK" "cache_inv (en_hash E) (w_cache w')"
    "cache_kv (en_hash E) (w_cache w') k = Some \<lparr>it_value = clone_bytes (Some v), it_expireAt = 0\<rparr>" using w' by simp_all
qed

lemma run_Get:
  assumes "cache_inv (en_hash E) (w_cache w)" and "\<forall>n c. en_others E n c = []" and "run_state (cmdGet E [''GET'', k]) w = (rep, w')"
    and "cache_kv (en_hash E) (w_cache w) k = Some \<lparr>it_value = b, it_expireAt = 0\<rparr>"
  shows "rep = rBulk b" and "cache_inv (en_hash E) (w_cache w')"
proof -
  let ?x = "CGet k (en_clock E (w_tick w))"
  obtain c v f evs where g: "Get (en_hash E) k (en_clock E (w_tick w)) (w_cache w) = (c, (v, f), evs)"
    by (cases "Get (en_hash E) k (en_clock E (w_tick w)) (w_cache w)") auto
  have w': "rep = (if \<not> f then RepNil else rBulk v)" "w_cache w' = c" using assms(2,3) g
    by (auto simp: cmdGet_def call_Get_def clock_def reading_def others_none call_def split: prod.splits)
  have "refines (en_hash E) ?x (w_cache w)" by (rule cache_exec_refines [OF assms(1)]) simp
  then have "cache_inv (en_hash E) c" "RVal v f = RVal b True"
    using g assms(4) by (auto simp: refines_def live_def item_expired_def)
  then show "rep = rBulk b" "cache_inv (en_hash E) (w_cache w')" using w' by simp_all
qed

lemma set_get_handlers: "handler_of E [''SET'', k, v] = Some cmdSet" "handler_of E [''GET'', k] = Some cmdGet"
  by (simp_all add: handler_of_def handlers_def to_upper_def is_ascii_def ascii_upper_def)

lemma client_set_then_get:
  assumes "cl_peer cl = x" "cl_buf cl = []" "ready E x" and sz: "sizes_ok lim [''SET'', k, v]"
  shows "\<exists>cl1 cl2. client_Set lim (server_peer E lim uni) k (Some v) cl = (cl1, None) \<and>
    client_Get lim (server_peer E lim uni) k cl1 = (cl2, clone_bytes (Some v), v \<noteq> [], None)"
proof -
  obtain s c where x: "x = (s, c)" by (cases x)
  let ?w = "(sv_world s)\<lparr>w_tick := Suc (w_tick (sv_world s))\<rparr>"
  obtain rep w1 where r1: "run_state (cmdSet E [''SET'', k, v]) ?w = (rep, w1)" by (cases "run_state (cmdSet E [''SET'', k, v]) ?w")
  have inv: "cache_inv (en_hash E) (w_cache ?w)" and alone: "\<forall>n c. en_others E n c = []" using assms(3) x by (simp_all add: ready_def)
  note st = run_Set [OF inv alone r1]
  have ok: "reply_ok lim rOK" by (simp add: rOK_def line_ok_def)
  from exchange [OF assms(1) [unfolded x] assms(2) assms(3) [unfolded x] sz set_get_handlers(1) r1 [unfolded st(1)] ok, of uni] st(2)
  obtain cl1 s1 c1 n where e1: "doBytes lim (server_peer E lim uni) [''SET'', k, v] cl = (cl1, value_of rOK, None)"
    "cl_peer cl1 = (s1, c1)" "cl_buf cl1 = []" "sv_world s1 = w1\<lparr>w_tick := n\<rparr>" "ready E (s1, c1)" by (auto simp: rOK_def)
  let ?w1 = "(sv_world s1)\<lparr>w_tick := Suc (w_tick (sv_world s1))\<rparr>"
  obtain rep2 w2 where r2: "run_state (cmdGet E [''GET'', k]) ?w1 = (rep2, w2)" by (cases "run_state (cmdGet E [''GET'', k]) ?w1")
  have "cache_inv (en_hash E) (w_cache ?w1)" "cache_kv (en_hash E) (w_cache ?w1) k = Some \<lparr>it_value = clone_bytes (Some v), it_expireAt = 0\<rparr>"
    using st e1(4) by simp_all
  note gt = run_Get [OF this(1) alone r2 this(2)]
  have sz2: "sizes_ok lim [''GET'', k]" using sz by (simp add: sizes_ok_def arg_ok_def)
  have "reply_ok lim rep2" "\<And>e. rep2 \<noteq> RepErr e" using sz gt(1)
    by (auto simp: sizes_ok_def arg_ok_def rBulk_def clone_bytes_def maxBulkLen_def)
  from exchange [OF e1(2,3,5) sz2 set_get_handlers(2) r2 this, of uni]
  obtain cl2 where "doBytes lim (server_peer E lim uni) [''GET'', k] cl1 = (cl2, value_of rep2, None)" by blast
  with e1(1) gt(1) show ?thesis
    by (auto simp: client_Set_def client_Get_def client_Do_def rBulk_def clone_bytes_def)
qed

text \<open>C6: A value that a client stores is the value it fetches. Through the wire format, the dispatch and the cache, under any
  eviction policy and limits, \<open>Get\<close> after \<open>Set\<close> on a connection that may issue commands, with nobody else in between, returns the bytes that were
  stored. The empty value is the exception: it comes back as not found.\<close>

theorem client_set_get:
  assumes "cl_peer cl = x" and "cl_buf cl = []" and "ready E x" and "sizes_ok lim [''SET'', k, v]"
  shows "\<exists>cl1 cl2. client_Set lim (server_peer E lim uni) k (Some v) cl = (cl1, None) \<and>
    client_Get lim (server_peer E lim uni) k cl1 = (cl2, if v = [] then (None, False, None) else (Some v, True, None))"
  using client_set_then_get [OF assms, of uni] by (auto simp: clone_bytes_def split: if_splits)

definition ex_client :: "(unit server \<times> conn) Client" where
  "ex_client = \<lparr>cl_peer = (server_New ex_lru [] [] 0, server_newConn ''a'' ''b''), cl_buf = []\<rparr>"

lemma ex_client_ready: "ready ex_env (cl_peer ex_client)"
  using ex_lru_inv(1) [of ex_hash]
  by (simp add: ex_client_def ready_def server_New_def server_newConn_def ex_env_def Let_def)

theorem client_set_get_witness:
  "\<exists>cl1 cl2. client_Set ex_limits (server_peer ex_env ex_limits (\<lambda>_. [])) ''k'' (Some ''v'') ex_client = (cl1, None) \<and>
     client_Get ex_limits (server_peer ex_env ex_limits (\<lambda>_. [])) ''k'' cl1 = (cl2, Some ''v'', True, None)"
  using client_set_get [OF refl _ ex_client_ready, of ex_limits "''k''" "''v''" "\<lambda>_. []"]
  by (simp add: ex_client_def sizes_ok_def arg_ok_def maxBulkLen_def ex_limits_def)

subsection \<open>Expiry through the client\<close>

lemma run_Expire:
  assumes "cache_inv (en_hash E) (w_cache w)" and "\<forall>n c. en_others E n c = []" and "int64 n"
    and "run_state (cmd_expire second E [''EXPIRE'', k, format_int n]) w = (rep, w')"
    and "cache_kv (en_hash E) (w_cache w) k = Some it" and "\<forall>i. \<not> item_expired it (en_clock E i)"
  shows "rep = RepInt 1" and "cache_inv (en_hash E) (w_cache w')"
    and "cache_kv (en_hash E) (w_cache w') k = Some (it\<lparr>it_expireAt := expiry (wrap64 (n * second)) (en_clock E (w_tick w))\<rparr>)"
proof -
  let ?ttl = "wrap64 (n * second)" and ?now = "en_clock E (w_tick w)" and ?now2 = "en_clock E (Suc (w_tick w))"
  let ?x = "CExpire k ?ttl ?now ?now2"
  obtain c ok evs where g: "Expire (en_hash E) k ?ttl ?now ?now2 (w_cache w) = (c, ok, evs)"
    by (cases "Expire (en_hash E) k ?ttl ?now ?now2 (w_cache w)") auto
  have w': "rep = RepInt (if ok then 1 else 0)" "w_cache w' = c" using assms(2-4) g
    by (auto simp: cmd_expire_def call_Expire_def clock_def reading_def others_none call_def split: prod.splits)
  have "refines (en_hash E) ?x (w_cache w)" by (rule cache_exec_refines [OF assms(1)]) simp
  then have "cache_inv (en_hash E) c" "RBool ok = RBool True" "cache_kv (en_hash E) c k = Some (it\<lparr>it_expireAt := expiry ?ttl ?now\<rparr>)"
    using g assms(5,6) by (auto simp: refines_def live_def dest!: arg_cong [where f = "\<lambda>m. m k"])
  then show "rep = RepInt 1" "cache_inv (en_hash E) (w_cache w')"
    "cache_kv (en_hash E) (w_cache w') k = Some (it\<lparr>it_expireAt := expiry ?ttl ?now\<rparr>)" using w' by simp_all
qed

lemma whole_seconds:
  assumes "int64 ttl"
  shows "int64 (go_div ttl second)"
    and "expiry (wrap64 (go_div ttl second * second)) now = (if ttl < second then 0 else wrap64 (now + ttl div second * second))"
proof -
  have div: "a div second * second \<le> a" "0 \<le> a \<Longrightarrow> 0 \<le> a div second" for a :: int
    using pos_mod_sign [of second a] minus_mod_eq_div_mult [of a second] by (linarith, simp add: pos_imp_zdiv_nonneg_iff)
  have "int64 (go_div ttl second) \<and> int64 (go_div ttl second * second) \<and>
      (if ttl < second then go_div ttl second * second \<le> 0 else 0 < go_div ttl second * second \<and> go_div ttl second = ttl div second)"
  proof (cases "0 \<le> ttl")
    case True
    have "second \<le> ttl \<Longrightarrow> 0 < ttl div second" "ttl < second \<Longrightarrow> ttl div second = 0" using True pos_imp_zdiv_pos_iff [of second ttl] by simp_all
    then show ?thesis using True div [of ttl] assms by (auto simp: go_div_nonneg int64_def)
  next
    case False
    have "go_div ttl second = - ((- ttl) div second)" using False by (simp add: go_div_def)
    then show ?thesis using False div [of "- ttl"] assms by (auto simp: int64_def)
  qed
  then show "int64 (go_div ttl second)"
    "expiry (wrap64 (go_div ttl second * second)) now = (if ttl < second then 0 else wrap64 (now + ttl div second * second))"
    by (auto simp: expiry_def split: if_splits)
qed

text \<open>C29: Setting an expiry through the client. \<open>Expire\<close> on a key that is present reaches the cache through the wire format and the
  dispatch: it reports success, and the item keeps its value and expires after the given time, rounded down to whole seconds. A time of less than a
  second is sent as zero, which removes the expiry: the key then stays for ever.\<close>

theorem client_expire:
  assumes "cl_peer cl = (s, c)" and "cl_buf cl = []" and "ready E (s, c)" and "int64 ttl"
    and "sizes_ok lim [''EXPIRE'', k, format_int (go_div ttl second)]"
    and "cache_kv (en_hash E) (w_cache (sv_world s)) k = Some it" and "\<forall>i. \<not> item_expired it (en_clock E i)"
  shows "\<exists>cl1 s1 c1 i. client_Expire lim (server_peer E lim uni) k ttl cl = (cl1, True, None) \<and> cl_peer cl1 = (s1, c1) \<and>
    cache_kv (en_hash E) (w_cache (sv_world s1)) k =
      Some (it\<lparr>it_expireAt := (if ttl < second then 0 else wrap64 (en_clock E i + ttl div second * second))\<rparr>)"
proof -
  let ?args = "[''EXPIRE'', k, format_int (go_div ttl second)]" and ?w = "(sv_world s)\<lparr>w_tick := Suc (w_tick (sv_world s))\<rparr>"
  obtain rep w where r: "run_state (cmd_expire second E ?args) ?w = (rep, w)" by (cases "run_state (cmd_expire second E ?args) ?w")
  have inv: "cache_inv (en_hash E) (w_cache ?w)" and alone: "\<forall>n c. en_others E n c = []" using assms(3) by (simp_all add: ready_def)
  note x = run_Expire [OF inv alone whole_seconds(1) [OF assms(4)] r _ assms(7)]
  have h: "handler_of E ?args = Some (cmd_expire second)"
    by (simp add: handler_of_def handlers_def to_upper_def is_ascii_def ascii_upper_def)
  have ok: "reply_ok lim (RepInt 1)" "\<And>e. RepInt 1 \<noteq> RepErr e" by (simp_all add: int64_def)
  obtain cl1 s1 c1 n where e: "doBytes lim (server_peer E lim uni) ?args cl = (cl1, value_of (RepInt 1), None)" "cl_peer cl1 = (s1, c1)"
      "sv_world s1 = w\<lparr>w_tick := n\<rparr>"
    using exchange [OF assms(1-3,5) h _ ok, of w uni] r x(1) assms(6) by auto
  have "client_Expire lim (server_peer E lim uni) k ttl cl = (cl1, True, None)"
    using e(1) by (simp add: client_Expire_def intCmd_def client_Do_def)
  moreover have "cache_kv (en_hash E) (w_cache (sv_world s1)) k =
      Some (it\<lparr>it_expireAt := (if ttl < second then 0 else wrap64 (en_clock E (w_tick ?w) + ttl div second * second))\<rparr>)"
    using x(3) assms(6) e(3) whole_seconds(2) [OF assms(4)] by simp
  ultimately show ?thesis using e(2) by blast
qed

definition ex_stored :: cache where
  "ex_stored = fst (SetTTL ex_hash ''k'' (Some ''v'') 0 0 ex_lru)"

lemma ex_stored_props: "cache_inv ex_hash ex_stored" "cache_kv ex_hash ex_stored ''k'' = Some \<lparr>it_value = Some ''v'', it_expireAt = 0\<rparr>"
proof -
  have "refines ex_hash (CSet ''k'' (Some ''v'') 0 0) ex_lru" by (rule cache_exec_refines [OF ex_lru_inv(1)]) simp
  then show "cache_inv ex_hash ex_stored" "cache_kv ex_hash ex_stored ''k'' = Some \<lparr>it_value = Some ''v'', it_expireAt = 0\<rparr>"
    by (auto simp: refines_def ex_stored_def expiry_def clone_bytes_def split: prod.splits dest!: arg_cong [where f = "\<lambda>m. m ''k''"])
qed

theorem client_expire_witness:
  "\<exists>cl1 s1 c1. client_Expire ex_limits (server_peer ex_env ex_limits (\<lambda>_. [])) ''k'' 500000000
       \<lparr>cl_peer = (server_New ex_stored [] [] 0 :: unit server, server_newConn ''a'' ''b''), cl_buf = []\<rparr> = (cl1, True, None) \<and>
     cl_peer cl1 = (s1, c1) \<and> cache_kv ex_hash (w_cache (sv_world s1)) ''k'' = Some \<lparr>it_value = Some ''v'', it_expireAt = 0\<rparr>"
proof -
  let ?s = "server_New ex_stored [] [] 0 :: unit server" and ?c = "server_newConn ''a'' ''b''"
  let ?cl = "\<lparr>cl_peer = (?s, ?c), cl_buf = []\<rparr>"
  have s: "ready ex_env (?s, ?c)" "w_cache (sv_world ?s) = ex_stored"
    using ex_stored_props(1) by (simp_all add: ready_def server_New_def server_newConn_def ex_env_def Let_def)
  have z: "sizes_ok ex_limits [''EXPIRE'', ''k'', format_int (go_div 500000000 second)]"
    by (simp add: go_div_def sizes_ok_def arg_ok_def ex_limits_def maxBulkLen_def format_int_def format_nat.simps [of 0])
  have l: "cache_kv (en_hash ex_env) (w_cache (sv_world ?s)) ''k'' = Some \<lparr>it_value = Some ''v'', it_expireAt = 0\<rparr>"
    "\<forall>i. \<not> item_expired \<lparr>it_value = Some ''v'', it_expireAt = 0\<rparr> (en_clock ex_env i)" "int64 500000000"
    using ex_stored_props(2) s(2) by (simp_all add: ex_env_def item_expired_def int64_def)
  from client_expire [of ?cl ?s ?c, OF _ _ s(1) l(3) z l(1,2)] show ?thesis by (simp add: ex_env_def)
qed

subsection \<open>The cluster client\<close>




subsection \<open>Messages\<close>










subsection \<open>A refused subscription\<close>

lemma refused:
  fixes s :: "'f server"
  assumes "cl_peer cl = (s, c)" and "cl_buf cl = []" and "\<not> sv_quit s" and "sizes_ok lim args" and "reply_ok lim rep"
    and "\<And>s' :: 'f server. sv_Password s' = sv_Password s \<Longrightarrow> dispatch E args s' c = Some (s', reply_to rep c, True)"
  shows "\<exists>cl1 s1. read_replies lim 1 (send_bytes (server_peer E lim uni) (WriteCommand args) cl) = Inr cl1 \<and>
    cl_peer cl1 = (s1, reply_to rep c) \<and> cl_buf cl1 = [] \<and> sv_broker s1 = sv_broker s \<and> sv_quit s1 = sv_quit s \<and> sv_Password s1 = sv_Password s"
proof -
  have "ReadCommand lim uni (WriteCommand args @ []) = (Inr args, [])"
    using assms(4) by (intro ReadCommand_write) (auto simp: sizes_ok_def)
  then have rd: "ReadCommand lim uni (WriteCommand args) = (Inr args, [])" by simp
  have d: "dispatch E args (advance 1 (s\<lparr>sv_metrics := IncCommands (sv_metrics s)\<rparr>)) c =
      Some (advance 1 (s\<lparr>sv_metrics := IncCommands (sv_metrics s)\<rparr>), reply_to rep c, True)"
    by (rule assms(6)) (simp add: advance_def)
  have "args \<noteq> []" using assms(4) by (simp add: sizes_ok_def)
  then have "\<exists>s1. serve_turn E lim uni (WriteCommand args) s c = Some (s1, reply_to rep c, [], True) \<and>
      sv_broker s1 = sv_broker s \<and> sv_quit s1 = sv_quit s \<and> sv_Password s1 = sv_Password s"
    using rd d assms(3) by (simp add: serve_turn_def Let_def advance_def)
  then obtain s1 where t: "serve_turn E lim uni (WriteCommand args) s c = Some (s1, reply_to rep c, [], True)"
    "sv_broker s1 = sv_broker s" "sv_quit s1 = sv_quit s" "sv_Password s1 = sv_Password s" by blast
  with assms(1,2) ReadReply_written [OF assms(5), of "[]"] show ?thesis
    by (auto simp: send_bytes_def recv_reply_def server_peer_def reply_to_def)
qed

text \<open>\<open>Subscribe\<close> of the client does not look at the replies it reads. With a wrong password, and one topic, it reports success although the server
  has refused both commands: no subscription exists.\<close>

theorem subscribe_ignores_refusal:
  fixes s :: "'f server"
  assumes "dial addr = Inr (s, c)" and "\<not> sv_quit s" and "sv_Password s \<noteq> []" and "password \<notin> {[], sv_Password s}"
    and "\<not> cn_authed c" and "\<not> cn_inMulti c" and "sizes_ok lim [''AUTH'', password]" and "sizes_ok lim [''SUBSCRIBE'', topic]"
  shows "\<exists>cl1 s1 c1. client_Subscribe lim (server_peer E lim uni) dial addr password [topic] = Inr cl1 \<and> cl_peer cl1 = (s1, c1) \<and>
    sv_broker s1 = sv_broker s \<and> cn_subs c1 = cn_subs c"
proof -
  let ?cl = "\<lparr>cl_peer = (s, c), cl_buf = []\<rparr>" and ?r1 = "RepErr ''WRONGPASS invalid username-password pair''"
    and ?r2 = "RepErr ''NOAUTH Authentication required.''"
  have up: "to_upper (en_upper E) ''AUTH'' = ''AUTH''" "to_upper (en_upper E) ''SUBSCRIBE'' = ''SUBSCRIBE''"
    by (simp_all add: to_upper_def is_ascii_def ascii_upper_def)
  have ok: "reply_ok lim ?r1" "reply_ok lim ?r2" by (simp_all add: line_ok_def)
  have d1: "dispatch E [''AUTH'', password] s' c = Some (s', reply_to ?r1 c, True)" if "sv_Password s' = sv_Password s" for s' :: "'f server"
    using that assms(3-6) up by (simp add: dispatch_def cmdAuth_def)
  obtain cl1 s1 where 1: "read_replies lim 1 (send_bytes (server_peer E lim uni) (WriteCommand [''AUTH'', password]) ?cl) = Inr cl1"
      "cl_peer cl1 = (s1, reply_to ?r1 c)" "cl_buf cl1 = []" "sv_broker s1 = sv_broker s" "\<not> sv_quit s1" "sv_Password s1 = sv_Password s"
    using refused [of ?cl s c, OF _ _ assms(2,7) ok(1) d1, of uni] assms(2) by auto
  have d2: "dispatch E [''SUBSCRIBE'', topic] s' (reply_to ?r1 c) = Some (s', reply_to ?r2 (reply_to ?r1 c), True)"
    if "sv_Password s' = sv_Password s1" for s' :: "'f server"
    using that assms(3,5) up 1(6) by (simp add: dispatch_def)
  obtain cl2 s2 where "read_replies lim 1 (send_bytes (server_peer E lim uni) (WriteCommand [''SUBSCRIBE'', topic]) cl1) = Inr cl2"
      "cl_peer cl2 = (s2, reply_to ?r2 (reply_to ?r1 c))" "sv_broker s2 = sv_broker s1"
    using refused [OF 1(2,3,5) assms(8) ok(2) d2, of uni] by auto
  then show ?thesis using assms(1,4) 1(1,4) by (simp add: client_Subscribe_def reply_to_def)
qed

theorem subscribe_ignores_refusal_witness:
  "\<exists>cl1 s1 c1. client_Subscribe ex_limits (server_peer ex_env ex_limits (\<lambda>_. []))
       (\<lambda>_. Inr (ex_server, server_newConn ''a'' ''b'')) [] ''x'' [''t''] = Inr cl1 \<and> cl_peer cl1 = (s1, c1) \<and> cn_subs c1 = []"
proof -
  have "\<not> sv_quit ex_server" "sv_Password ex_server \<noteq> []" "''x'' \<notin> {[], sv_Password ex_server}" "\<not> cn_authed (server_newConn ''a'' ''b'')"
    "\<not> cn_inMulti (server_newConn ''a'' ''b'')" "sizes_ok ex_limits [''AUTH'', ''x'']" "sizes_ok ex_limits [''SUBSCRIBE'', ''t'']"
    by (simp_all add: server_New_def server_newConn_def sizes_ok_def arg_ok_def ex_limits_def maxBulkLen_def Let_def)
  from subscribe_ignores_refusal [where dial = "\<lambda>_. Inr (ex_server, server_newConn ''a'' ''b'')" and addr = "[]" and E = ex_env and uni = "\<lambda>_. []",
      OF refl this]
  show ?thesis by (auto simp: server_newConn_def)
qed

end
