(* ===== verification/Node.thy ===== *)
theory Node
  imports Server Persist
begin

section \<open>A node: start and shutdown\<close>

text \<open>
  The function \<open>main\<close> of cmd/cache-server/main.go: how the flags configure the parts, the order in which they are
  started and attached, and the order in which they are shut down. Parsing the flags, listening, signals and logging are
  input and output and are left out. A message of \<open>Fatalf\<close> is an error; \<^const>\<open>None\<close> is a start that does not
  return.
\<close>

record flags =
  fl_addr :: string
  fl_metricsAddr :: string
  fl_password :: string
  fl_nodeID :: string
  fl_shards :: int
  fl_maxMemMB :: int
  fl_maxEntries :: int
  fl_policy :: string
  fl_dataDir :: string
  fl_aofSync :: string
  fl_snapEvery :: int
  fl_activeExp :: int
  fl_replListen :: string
  fl_replicaOf :: string
  fl_clusterSpec :: string
  fl_replFactor :: int

record 'f node =
  no_server :: "'f server"
  no_disk :: disk
  no_aof :: "AOF option"

text \<open>The environment of a start: the Unicode tables, the random sequences of the shards, the hash, the orders of range loops in
  recovery, and the clock.\<close>

record start_env =
  se_lower :: "string \<Rightarrow> string"
  se_trim :: "string \<Rightarrow> string"
  se_rand :: "nat \<Rightarrow> nat \<Rightarrow> nat"
  se_hash :: "string \<Rightarrow> u64"
  se_orders :: "nat \<Rightarrow> string list list"
  se_clock :: "nat \<Rightarrow> int"

datatype start_error = InitCache string | RecoverError persist_error | ClusterError string

definition cache_config :: "flags \<Rightarrow> config" where
  "cache_config fl = \<lparr>cfg_Shards = fl_shards fl, cfg_MaxEntries = fl_maxEntries fl,
     cfg_MaxMemory = wrap64 (wrap64 (fl_maxMemMB fl * 1024) * 1024), cfg_Policy = fl_policy fl,
     cfg_ActiveExpiry = fl_activeExp fl, cfg_EventBuffer = 0\<rparr>"

definition start_persistence ::
  "start_env \<Rightarrow> flags \<Rightarrow> disk \<Rightarrow> cache \<Rightarrow> start_error + cache \<times> disk \<times> AOF option" where
  "start_persistence SE fl d c =
     (if fl_dataDir fl = [] then Inr (c, d, None)
      else
        (case Recover (se_hash SE) (se_orders SE) (fl_aofSync fl) d c of
           Inl e \<Rightarrow> Inl (RecoverError e)
         | Inr (c1, d1, a) \<Rightarrow> Inr (c1, d1, Some a)))"

definition start_cluster :: "start_env \<Rightarrow> flags \<Rightarrow> 'f server \<Rightarrow> start_error + 'f server" where
  "start_cluster SE fl s =
     (if fl_clusterSpec fl = [] then Inr s
      else
        (case buildRegistry (se_trim SE) (\<lambda>i. se_clock SE (i + 2)) (se_clock SE 1) (fl_nodeID fl) (fl_addr fl) (fl_replFactor fl)
                (fl_clusterSpec fl) of
           Inl e \<Rightarrow> Inl (ClusterError e)
         | Inr reg \<Rightarrow> Inr (AttachCluster reg s)))"

definition start_replication :: "flags \<Rightarrow> cache \<Rightarrow> 'f server \<Rightarrow> 'f server" where
  "start_replication fl c s =
     (let s1 = (if fl_replListen fl = [] then s else AttachPrimary NewPrimary s)
      in if fl_replicaOf fl = [] then s1 else AttachReplica (fl_replicaOf fl) (NewReplica c) s1)"

definition start_node :: "start_env \<Rightarrow> flags \<Rightarrow> disk \<Rightarrow> (start_error + 'f node) option" where
  "start_node SE fl d =
     (case cache_New (se_lower SE) (se_rand SE) (cache_config fl) of
        None \<Rightarrow> None
      | Some (Inl e) \<Rightarrow> Some (Inl (InitCache e))
      | Some (Inr c) \<Rightarrow>
          Some (case start_persistence SE fl d c of
                  Inl e \<Rightarrow> Inl e
                | Inr (c1, d1, a) \<Rightarrow>
                    (case start_cluster SE fl (server_New c1 (fl_password fl) (fl_nodeID fl) (se_clock SE 0)) of
                       Inl e \<Rightarrow> Inl e
                     | Inr s \<Rightarrow> Inr \<lparr>no_server = start_replication fl c1 s, no_disk = d1, no_aof = a\<rparr>)))"

text \<open>The shutdown after a signal: the server, the replica and the primary are closed, then a last snapshot is taken and the log
  closed. Closing the replica ends its loop and leaves its state as it is. The outcomes of the file system, the number that \<open>Seq\<close> returns and what \<open>Export\<close> hands over are arguments.\<close>

definition stop_node ::
  "outcome \<Rightarrow> compact_outcome \<Rightarrow> u64 \<Rightarrow> (string \<times> bytes \<times> int) list \<Rightarrow> 'f node \<Rightarrow> 'f node" where
  "stop_node out cout startSeq recs n =
     (let s = (no_server n)\<lparr>sv_quit := True, sv_primary := map_option Primary_Close (sv_primary (no_server n))\<rparr> in
      case no_aof n of
        None \<Rightarrow> n\<lparr>no_server := s\<rparr>
      | Some a \<Rightarrow>
          (let ((d1, a1), ok) = Snapshot out cout startSeq recs (no_disk n, a);
               ((d2, a2), ok2) = Manager_Close (d1, Some a1)
           in n\<lparr>no_server := s, no_disk := d2, no_aof := a2\<rparr>))"

text \<open>What \<open>main\<close> waits for: \<open>ListenAndServe\<close> returns, with nil or an error, or a signal comes. An error ends the process at once, with nothing
  closed and no snapshot.\<close>

datatype wake = ServeReturned bool | SignalReceived

definition main_end ::
  "wake \<Rightarrow> outcome \<Rightarrow> compact_outcome \<Rightarrow> u64 \<Rightarrow> (string \<times> bytes \<times> int) list \<Rightarrow> 'f node \<Rightarrow> 'f node" where
  "main_end wake out cout startSeq recs n =
     (case wake of ServeReturned False \<Rightarrow> n | _ \<Rightarrow> stop_node out cout startSeq recs n)"

end
