(* ===== verification/Node_Thms.thy ===== *)
theory Node_Thms
  imports Node Recovery_Thms
begin

section \<open>Restarts\<close>

text \<open>
  A node over its lives: what a clean shutdown keeps, and what restarts do to a log that an earlier process has written.
\<close>

subsection \<open>What recovery reads after a snapshot\<close>

lemma snapshot_done_reads:
  assumes "log_open x" and "log_bytes x = log_of evs" and "fit evs" and "fit (map rec_ev recs)"
    and "Snapshot Done cout s recs x = (y, ok)"
  shows "recovered_events (fst y) = Inr (map ev_decoded (map rec_ev recs @ filter (\<lambda>ev. s < ev_Seq ev) evs))"
proof -
  let ?d = "(fst x)\<lparr>dk_snap := Some (snapshot_bytes s recs), dk_snap_tmp := None\<rparr>"
  have c: "Compact cout s (?d, snd x) = (y, ok)" using assms(5) by (simp add: Snapshot_def WriteSnapshot_def)
  have o: "log_open (?d, snd x)" "log_bytes (?d, snd x) = log_of evs"
    using assms(1,2) by (simp_all add: log_open_def log_bytes_def aof_bytes_def)
  note r = Compact_reads [OF o assms(3) c]
  have "ReadSnapshot (dk_snap (fst y)) = Inr (s, map ev_decoded (map rec_ev recs))" using r(1) assms(4) by simp
  with r(2) show ?thesis by (auto simp: recovered_events_def filter_decoded)
qed

lemma recovered_flush:
  "dk_snap d' = dk_snap d \<Longrightarrow> aof_bytes d' = aof_bytes d \<Longrightarrow> recovered_events d' = recovered_events d"
  by (auto simp: recovered_events_def aof_bytes_def ReadAOF_def split: option.splits sum.splits)

text \<open>Closing a log whose buffer is empty leaves the files alone.\<close>

lemma Close_files:
  assumes "AOF_Close (d, a) = ((d', a'), ok)" and "ah_buf a = []"
  shows "dk_snap d' = dk_snap d \<and> aof_bytes d' = aof_bytes d"
  using assms by (auto simp: AOF_Close_def AOF_Sync_def bufio_Flush_def file_Sync_def aof_bytes_def split: if_splits)

lemma numbered_none: "numbered evs \<Longrightarrow> length evs < 2 ^ 64 \<Longrightarrow> filter (\<lambda>ev. of_nat (length evs) < ev_Seq ev) evs = []"
  using numbered_filter [of evs "length evs" 0] by simp

lemma Compact_buf:
  assumes "log_open x" and "Compact out s x = (y, ok)"
  shows "ah_buf (snd y) = []"
proof -
  obtain x1 where x1: "AOF_Sync x = (x1, True)" "ah_buf (snd x1) = []" using Sync_open [OF assms(1)] by blast
  then show ?thesis using assms(2) by (cases x1) (auto simp: Compact_def Let_def split: sum.splits compact_outcome.splits)
qed

lemma export_quiet_ok:
  assumes "orders_ok ords c"
  shows "export_ok hash now 0 (map (Pair []) ords) c"
proof -
  have "export_ok hash now (length ps) (map (Pair []) os) c" if "c_shards c = ps @ ss" "list_all2 visits os ss" for ps ss os
    using that
  proof (induction os arbitrary: ps ss)
    case (Cons x os)
    then obtain s ss' where ss: "ss = s # ss'" "visits x s" "list_all2 visits os ss'" by (cases ss) auto
    with Cons.IH [of "ps @ [s]" ss'] Cons.prems show ?case by (simp add: nth_append)
  qed simp
  from this [of "[]" "c_shards c" ords] assms show ?thesis by (simp add: orders_ok_def)
qed

lemma start_replication_world: "sv_world (start_replication fl c s) = sv_world s"
  by (simp add: start_replication_def AttachPrimary_def AttachReplica_def Let_def)

lemma stop_reads:
  assumes "no_aof n = Some a" and "log_open (no_disk n, a)" and "log_bytes (no_disk n, a) = log_of evs" and "fit evs"
    and "fit (map rec_ev recs)"
  shows "recovered_events (no_disk (stop_node Done cout s recs n)) =
    Inr (map ev_decoded (map rec_ev recs @ filter (\<lambda>ev. s < ev_Seq ev) evs))"
proof -
  obtain d1 a1 ok where sn: "Snapshot Done cout s recs (no_disk n, a) = ((d1, a1), ok)"
    by (metis surj_pair)
  obtain d2 a2 ok2 where cl: "AOF_Close (d1, a1) = ((d2, a2), ok2)" by (metis surj_pair)
  have "log_open ((no_disk n)\<lparr>dk_snap := Some (snapshot_bytes s recs), dk_snap_tmp := None\<rparr>, a)"
    using assms(2) by (simp add: log_open_def)
  from Compact_buf [OF this, of cout s "(d1, a1)" ok] sn have "ah_buf a1 = []" by (simp add: Snapshot_def WriteSnapshot_def)
  from recovered_flush Close_files [OF cl this] have "recovered_events d2 = recovered_events d1" by blast
  with snapshot_done_reads [OF assms(2-5) sn] assms(1) sn cl show ?thesis
    by (simp add: stop_node_def Manager_Close_def)
qed

text \<open>A clean restart keeps the contents. A node whose log holds the numbered events of everything its cache has done since it was
  created is shut down, with a last snapshot that completes, whatever then happens to the compaction. The node that is
  started on its files, without limits on its cache, starts and holds at every later time exactly the items that are not
  expired.\<close>

theorem clean_restart:
  assumes "cache_New uni rs cfg = Some (Inr c)" and "cache_run_ok hash xs c" and "cache_run hash xs c = (c1, evs)"
    and "map unnumbered log = map unnumbered evs" and "numbered log" and "length log < 2 ^ 64" and "fit log"
    and "no_aof (n :: 'f node) = Some a" and "log_open (no_disk n, a)" and "log_bytes (no_disk n, a) = log_of log"
    and "orders_ok ords c1" and "recs = Export ords now c1" and "fit (map rec_ev recs)"
    and "d = no_disk (stop_node Done cout (of_nat (length log)) recs n)"
    and "cache_New (se_lower SE) (se_rand SE) (cache_config fl) = Some (Inr r)"
    and "fl_maxEntries fl \<le> 0" and "fl_maxMemMB fl = 0" and "fl_dataDir fl \<noteq> []" and "fl_clusterSpec fl = []"
    and "\<forall>evs. recovered_events d = Inr evs \<longrightarrow> apply_all_ok (se_hash SE) (with_orders (se_orders SE) evs) r"
    and "now \<le> t"
  shows "\<exists>m :: 'f node. start_node SE fl d = Some (Inr m) \<and>
    live t (cache_kv (se_hash SE) (w_cache (sv_world (no_server m)))) = live t (cache_kv hash c1)"
proof -
  let ?evs = "map ev_decoded (map rec_ev recs)"
  have rec: "recovered_events d = Inr ?evs"
    using stop_reads [OF assms(8-10,7,13), of cout "of_nat (length log)"] numbered_none [OF assms(5,6)] assms(14) by simp
  then have ok: "apply_all_ok (se_hash SE) (with_orders (se_orders SE) ?evs) r" using assms(20) by blast
  have len: "length ords = length (c_shards c1)" using assms(11) by (simp add: orders_ok_def list_all2_lengthD)
  note ex = export_run_Export [OF len, of hash now, folded assms(12)] and exok = export_quiet_ok [OF assms(11), of hash now]
  have run3: "cache_run hash [] c1 = (c1, [])" by simp
  have log: "map unnumbered log = map unnumbered (evs @ [] @ [])" using assms(4) by simp
  have "length log = length evs" using arg_cong [OF assms(4), of length] by simp
  then have n: "length log \<le> length evs" by simp
  have "\<forall>ev \<in> set ?evs. known_op ev" using follow_known [OF assms(3) ex run3 log] by auto
  moreover have "cfg_MaxEntries (cache_config fl) \<le> 0" "cfg_MaxMemory (cache_config fl) \<le> 0"
    using assms(16,17) by (simp_all add: cache_config_def wrap64_def)
  ultimately have kv: "cache_kv (se_hash SE) (apply_all (se_hash SE) (with_orders (se_orders SE) ?evs) r) k = fold (ev_on k) ?evs None" for k
    using fresh_replay [OF assms(15) _ _ ok] by blast
  have "live t (cache_kv (se_hash SE) (apply_all (se_hash SE) (with_orders (se_orders SE) ?evs) r)) = live t (cache_kv hash c1)"
    by (rule follow_live [OF cache_New_props(1) [OF assms(1)] assms(2,3) n ex exok _ _ run3 log _ assms(21)])
      (simp_all add: kv del: map_map)
  moreover obtain d1 a1 where "Recover (se_hash SE) (se_orders SE) (fl_aofSync fl) d r =
      Inr (apply_all (se_hash SE) (with_orders (se_orders SE) ?evs) r, d1, a1)"
    using rec by (cases "OpenAOF (if fl_aofSync fl = [] then SyncEverySec else fl_aofSync fl) d") (simp add: Recover_def)
  ultimately show ?thesis using assms(15,18,19)
    by (simp add: start_node_def start_persistence_def start_cluster_def start_replication_world server_New_def Let_def)
qed

definition ex_start :: start_env where
  "ex_start = \<lparr>se_lower = id, se_trim = id, se_rand = (\<lambda>_ _. 0), se_hash = ex_hash, se_orders = (\<lambda>_. [[], []]), se_clock = int\<rparr>"

definition ex_flags :: flags where
  "ex_flags = \<lparr>fl_addr = [], fl_metricsAddr = [], fl_password = [], fl_nodeID = [], fl_shards = 2, fl_maxMemMB = 0, fl_maxEntries = 0,
     fl_policy = ''noeviction'', fl_dataDir = ''data'', fl_aofSync = SyncNo, fl_snapEvery = 0, fl_activeExp = 0, fl_replListen = [],
     fl_replicaOf = [], fl_clusterSpec = [], fl_replFactor = 1\<rparr>"

definition ex_node :: "unit node" where
  "ex_node = \<lparr>no_server = server_New ex_used [] [] 0,
     no_disk = \<lparr>dk_snap = None, dk_snap_tmp = None, dk_aof = Some (log_of (take 1 ex_log)), dk_aof_tmp = None, dk_durable = 0\<rparr>,
     no_aof = Some \<lparr>ah_open = True, ah_buf = [], ah_err = False, ah_policy = SyncNo\<rparr>\<rparr>"

lemma ex_recs: "Export [[], [''k'']] 5 ex_used = [(''k'', Some ''v'', 0)]" "orders_ok [[], [''k'']] ex_used"
  by (code_simp, code_simp)

theorem clean_restart_witness:
  "\<exists>m. start_node ex_start ex_flags (no_disk (stop_node Done CDone 1 [(''k'', Some ''v'', 0)] ex_node)) = Some (Inr (m :: unit node)) \<and>
     live 9 (cache_kv ex_hash (w_cache (sv_world (no_server m)))) = live 9 (cache_kv ex_hash ex_used)"
proof -
  let ?log = "take 1 ex_log" and ?recs = "[(''k'', Some ''v'', 0)] :: (string \<times> bytes \<times> int) list"
  let ?d = "no_disk (stop_node Done CDone (of_nat (length ?log)) ?recs ex_node)"
  have f: "fit ?log" "fit (map rec_ev ?recs)" "numbered ?log" "length ?log < 2 ^ 64"
    by (simp_all add: ex_log_def rec_ev_def ev_fits_def ev_set_def headerBytes_def int64_def numbered_def)
  have u: "map unnumbered ?log = map unnumbered [ev_set ''k'' (Some ''v'') 0]" by (simp add: ex_log_def unnumbered_def ev_defs)
  have n: "no_aof ex_node = Some \<lparr>ah_open = True, ah_buf = [], ah_err = False, ah_policy = SyncNo\<rparr>"
    "log_open (no_disk ex_node, \<lparr>ah_open = True, ah_buf = [], ah_err = False, ah_policy = SyncNo\<rparr>)"
    "log_bytes (no_disk ex_node, \<lparr>ah_open = True, ah_buf = [], ah_err = False, ah_policy = SyncNo\<rparr>) = log_of ?log"
    by (simp_all add: ex_node_def log_open_def log_bytes_def aof_bytes_def)
  have c: "cache_New (se_lower ex_start) (se_rand ex_start) (cache_config ex_flags) = Some (Inr ex_none)"
    using ex_none_New by (simp add: ex_start_def ex_flags_def cache_config_def ex_cfg_def wrap64_def)
  have "apply_all_ok ex_hash (with_orders (\<lambda>_. [[], []]) [ev_set ''k'' (Some ''v'') 0]) ex_none" by code_simp
  moreover have "recovered_events ?d = Inr [ev_set ''k'' (Some ''v'') 0]"
    using stop_reads [OF n f(1,2), of CDone "of_nat (length ?log)"] numbered_none [OF f(3,4)]
    by (simp add: rec_ev_def ev_decoded_def ev_defs)
  ultimately have a: "\<forall>evs. recovered_events ?d = Inr evs \<longrightarrow> apply_all_ok (se_hash ex_start) (with_orders (se_orders ex_start) evs) ex_none"
    by (simp add: ex_start_def)
  from clean_restart [OF ex_lru_New _ ex_runs(1) u f(3,4,1) n ex_recs(2) ex_recs(1) [symmetric] f(2) refl c _ _ _ _ a, where t = 9]
  show ?thesis by (simp add: ex_flags_def ex_start_def ex_log_def)
qed

text \<open>C37: A restart can revert writes. When a process starts on a log that an earlier one has left, with numbers that start again at 1, its next
  snapshot, taken after it has numbered \<open>length new\<close> events, keeps the old records with higher numbers in the log,
  and recovery replays them on top of the snapshot.\<close>

theorem restart_reverts:
  assumes "log_open x" and "log_bytes x = log_of (old @ new)" and "fit (old @ new)" and "fit (map rec_ev recs)"
    and "numbered old" and "numbered new" and "length new \<le> length old" and "length old < 2 ^ 64"
    and "Snapshot Done cout (of_nat (length new)) recs x = (y, ok)"
  shows "recovered_events (fst y) = Inr (map ev_decoded (map rec_ev recs @ drop (length new) old))"
proof -
  have "filter (\<lambda>ev. of_nat (length new) < ev_Seq ev) (old @ new) = drop (length new) old"
    using numbered_filter [OF assms(5,8,7), of 0] numbered_none [OF assms(6)] assms(7,8) by simp
  with snapshot_done_reads [OF assms(1-4,9)] show ?thesis by (simp del: filter_append map_append)
qed

theorem restart_reverts_witness:
  "\<exists>y ok. Snapshot Done CDone 1 [(''k'', Some ''new'', 0)]
       (\<lparr>dk_snap = None, dk_snap_tmp = None,
          dk_aof = Some (log_of [(ev_set ''k'' (Some ''a'') 0)\<lparr>ev_Seq := 1\<rparr>, (ev_set ''k'' (Some ''b'') 0)\<lparr>ev_Seq := 2\<rparr>,
            (ev_set ''k'' (Some ''new'') 0)\<lparr>ev_Seq := 1\<rparr>]), dk_aof_tmp = None, dk_durable = 0\<rparr>,
        \<lparr>ah_open = True, ah_buf = [], ah_err = False, ah_policy = SyncNo\<rparr>) = (y, ok) \<and>
     recovered_events (fst y) = Inr [ev_set ''k'' (Some ''new'') 0, (ev_set ''k'' (Some ''b'') 0)\<lparr>ev_Seq := 2\<rparr>]"
proof -
  let ?a = "(ev_set ''k'' (Some ''a'') 0)\<lparr>ev_Seq := 1\<rparr>" and ?b = "(ev_set ''k'' (Some ''b'') 0)\<lparr>ev_Seq := 2\<rparr>"
  let ?n = "(ev_set ''k'' (Some ''new'') 0)\<lparr>ev_Seq := 1\<rparr>" and ?recs = "[(''k'', Some ''new'', 0)] :: (string \<times> bytes \<times> int) list"
  let ?x = "(\<lparr>dk_snap = None, dk_snap_tmp = None, dk_aof = Some (log_of [?a, ?b, ?n]), dk_aof_tmp = None, dk_durable = 0\<rparr>,
    \<lparr>ah_open = True, ah_buf = [], ah_err = False, ah_policy = SyncNo\<rparr>)"
  obtain y ok where sn: "Snapshot Done CDone (of_nat (length [?n])) ?recs ?x = (y, ok)" by (metis surj_pair)
  have "log_open ?x" "log_bytes ?x = log_of ([?a, ?b] @ [?n])" by (simp_all add: log_open_def log_bytes_def aof_bytes_def)
  from restart_reverts [OF this _ _ _ _ _ _ sn]
  have "recovered_events (fst y) = Inr (map ev_decoded (map rec_ev ?recs @ drop (length [?n]) [?a, ?b]))"
    by (simp add: rec_ev_def ev_fits_def ev_set_def headerBytes_def int64_def numbered_def less_Suc_eq)
  then show ?thesis using sn by (simp add: rec_ev_def ev_decoded_def ev_defs)
qed

text \<open>C38: A torn tail hides later writes. When a crash leaves a record cut behind its length field, the next process opens the log
  at its end and appends behind the fragment. As long as what it appends is shorter than the missing part, recovery reads nothing
  of it, even if every append was synced.\<close>

theorem torn_tail_hides:
  assumes "dk_aof d = Some (log_of old @ take n (encodeRecord ev))" and "fit old" and "ev_fits ev" and "4 \<le> n"
    and "n + length (log_of (appended ys)) < length (encodeRecord ev)"
    and "dk_durable d = length (aof_bytes d)" and "log_run ys (OpenAOF SyncAlways d) = (d', a')"
  shows "dk_durable d' = length (aof_bytes d') \<and>
    aof_bytes d' = log_of old @ take n (encodeRecord ev) @ log_of (appended ys) \<and>
    ReadAOF (Some (aof_bytes d')) = Inr (map ev_decoded old)"
proof -
  let ?x = "OpenAOF SyncAlways d" and ?t = "take n (encodeRecord ev)" and ?new = "log_of (appended ys)"
  have o: "log_open ?x" "log_bytes ?x = log_of old @ ?t" "ah_policy (snd ?x) = SyncAlways" "all_durable ?x"
    using assms(1,6) by (simp_all add: OpenAOF_def log_open_def log_bytes_def aof_bytes_def all_durable_def)
  have r: "all_durable (d', a')" "log_bytes (d', a') = (log_of old @ ?t) @ ?new"
    using log_run_open [OF o(1), of ys, unfolded assms(7)] o(2-4) by auto
  then have bytes: "aof_bytes d' = log_of old @ ?t @ ?new" and dur: "dk_durable d' = length (aof_bytes d')"
    by (simp_all add: all_durable_def log_bytes_def)
  let ?n = "headerBytes + length (ev_Key ev) + length (str_of (ev_Value ev))"
  have u: "Uint32 (PutUint32 ?n) = ?n" using assms(3) Uint32_Put [of ?n "[]"] by (simp add: ev_fits_def)
  have t: "?t @ ?new = PutUint32 ?n @ take (n - 4) (encodeEvent ev) @ ?new" using assms(4) by (simp add: encodeRecord_def)
  have short: "n - 4 + length ?new < ?n" using assms(4,5) by (simp add: encodeRecord_def)
  have h: "headerBytes \<le> ?n" by simp
  have "ReadFull 4 (?t @ ?new) = (Inr (PutUint32 ?n), take (n - 4) (encodeEvent ev) @ ?new)"
    unfolding t by (simp add: ReadFull_def)
  then have "fst (decodeRecord (?t @ ?new)) = Inl ErrTornRecord"
    using u short h by (simp add: decodeRecord_def ReadFull_def [of ?n] Let_def)
  then have "read_loop (?t @ ?new) = ([], ErrTornRecord)" by (subst read_loop.simps) (auto split: prod.split sum.split)
  then show ?thesis using dur bytes read_loop_log [OF assms(2), of "?t @ ?new"] by (simp add: ReadAOF_def)
qed


theorem torn_tail_hides_witness:
  "aof_bytes (fst (log_run [LogAppend (ev_set ''k'' (Some ''v'') 0)] (OpenAOF SyncAlways
       \<lparr>dk_snap = None, dk_snap_tmp = None, dk_aof = Some (take 4 (encodeRecord (ev_set ''k'' (Some (replicate 60 CHR ''x'')) 0))),
         dk_aof_tmp = None, dk_durable = 4\<rparr>))) =
     take 4 (encodeRecord (ev_set ''k'' (Some (replicate 60 CHR ''x'')) 0)) @ encodeRecord (ev_set ''k'' (Some ''v'') 0) \<and>
   ReadAOF (Some (take 4 (encodeRecord (ev_set ''k'' (Some (replicate 60 CHR ''x'')) 0)) @ encodeRecord (ev_set ''k'' (Some ''v'') 0))) =
     Inr []"
proof -
  let ?ev = "ev_set ''k'' (Some (replicate 60 CHR ''x'')) 0" and ?ys = "[LogAppend (ev_set ''k'' (Some ''v'') 0)]"
  let ?d = "\<lparr>dk_snap = None, dk_snap_tmp = None, dk_aof = Some (take 4 (encodeRecord ?ev)), dk_aof_tmp = None, dk_durable = 4\<rparr>"
  have "dk_aof ?d = Some (log_of [] @ take 4 (encodeRecord ?ev))" "fit []" "ev_fits ?ev"
    "4 + length (log_of (appended ?ys)) < length (encodeRecord ?ev)" "dk_durable ?d = length (aof_bytes ?d)"
    by (simp_all add: ev_fits_def ev_set_def headerBytes_def int64_def aof_bytes_def encodeRecord_def)
  from torn_tail_hides [OF this(1-3) _ this(4,5) surjective_pairing] show ?thesis by (auto simp del: log_run.simps)
qed

end
