(* ===== verification/Prometheus.thy ===== *)
theory Prometheus
  imports Server
begin

section \<open>The page for Prometheus\<close>

text \<open>
  \<open>WritePrometheus\<close> of internal/metrics/metrics.go, and the handler of /metrics of internal/server/server.go. Floating-point
  arithmetic and its format are parameters: a conversion from integers and from durations, a quotient, and the text of a
  number under \<open>%g\<close>; \<open>fo_quote\<close> is the format \<open>%q\<close>. What a scraper reads of the page is proved: one sample per metric, with the
  value of the counter.
\<close>

record 'f floats =
  fo_text :: "'f \<Rightarrow> string"
  fo_of_int :: "int \<Rightarrow> 'f"
  fo_seconds :: "int \<Rightarrow> 'f"
  fo_div :: "'f \<Rightarrow> 'f \<Rightarrow> 'f"
  fo_quote :: "string \<Rightarrow> string"

definition HitRatio :: "'f floats \<Rightarrow> Stats \<Rightarrow> 'f" where
  "HitRatio F st =
     (let total = st_Hits st + st_Misses st in
      if total = 0 then fo_of_int F 0
      else fo_div F (fo_of_int F (uint (st_Hits st))) (fo_of_int F (uint total)))"

definition metric_head :: "string \<Rightarrow> string \<Rightarrow> string \<Rightarrow> string" where
  "metric_head kind name help =
     ''# HELP '' @ name @ '' '' @ help @ [LF] @ ''# TYPE '' @ name @ '' '' @ kind @ [LF]"

definition sample :: "string \<Rightarrow> string \<Rightarrow> string" where
  "sample name v = name @ '' '' @ v @ [LF]"

definition writeCounter :: "string \<Rightarrow> string \<Rightarrow> u64 \<Rightarrow> string" where
  "writeCounter name help v = (if help \<noteq> [] then metric_head ''counter'' name help else []) @ sample name (u64_text v)"

definition writeGauge :: "'f floats \<Rightarrow> string \<Rightarrow> string \<Rightarrow> 'f \<Rightarrow> string" where
  "writeGauge F name help v = (if help \<noteq> [] then metric_head ''gauge'' name help else []) @ sample name (fo_text F v)"

definition bucket_name :: "string \<Rightarrow> string \<Rightarrow> string" where
  "bucket_name name le = name @ ''_bucket{le='' @ [CHR 0x22] @ le @ [CHR 0x22] @ ''}''"

definition writeHistogram :: "'f floats \<Rightarrow> string \<Rightarrow> string \<Rightarrow> Histogram \<Rightarrow> string" where
  "writeHistogram F name help h =
     metric_head ''histogram'' name help @
     concat (map (\<lambda>(b, n). sample (bucket_name name (fo_text F (fo_seconds F b))) (u64_text n)) (zip (hi_bounds h) (hi_buckets h))) @
     sample (bucket_name name ''+Inf'') (u64_text (hi_count h)) @
     sample (name @ ''_sum'') (fo_text F (fo_div F (fo_of_int F (uint (hi_sum h))) (fo_of_int F 1000000))) @
     sample (name @ ''_count'') (u64_text (hi_count h))"

definition write_gauges :: "'f floats \<Rightarrow> (string \<times> 'f) list \<Rightarrow> string" where
  "write_gauges F gs =
     concat (map (\<lambda>n. writeGauge F (''distcache_'' @ n) [] (the (map_of gs n))) (sort (map fst gs)))"

definition node_name :: "'f floats \<Rightarrow> string \<Rightarrow> string \<Rightarrow> string" where
  "node_name F id' state =
     ''distcache_cluster_node{node='' @ fo_quote F id' @ '',state='' @ fo_quote F state @ ''}''"

definition write_nodes :: "'f floats \<Rightarrow> (string \<times> string) list \<Rightarrow> string" where
  "write_nodes F ns =
     (if ns = [] then []
      else metric_head ''gauge'' ''distcache_cluster_node'' ''Cluster node state (1=present).'' @
        concat (map (\<lambda>id'. sample (node_name F id' (the (map_of ns id'))) ''1'') (sort (map fst ns))))"

definition WritePrometheus :: "'f floats \<Rightarrow> int \<Rightarrow> Stats \<Rightarrow> 'f metrics \<Rightarrow> string" where
  "WritePrometheus F now cs r =
     writeCounter ''distcache_commands_total'' ''Total commands processed.'' (mt_CommandsTotal r) @
     writeCounter ''distcache_connections_opened_total'' ''Total client connections opened.'' (mt_ConnectionsOpened r) @
     writeGauge F ''distcache_connections_active'' ''Currently open client connections.'' (fo_of_int F (mt_ConnectionsActive r)) @
     writeCounter ''distcache_pubsub_messages_total'' ''Total pub/sub messages published.'' (mt_PubSubMessages r) @
     writeCounter ''distcache_net_input_bytes_total'' ''Total bytes read from clients.'' (mt_NetInBytes r) @
     writeCounter ''distcache_net_output_bytes_total'' ''Total bytes written to clients.'' (mt_NetOutBytes r) @
     writeGauge F ''distcache_uptime_seconds'' ''Process uptime in seconds.'' (fo_seconds F (wrap64 (now - mt_start r))) @
     writeCounter ''distcache_keyspace_hits_total'' ''Cache read hits.'' (st_Hits cs) @
     writeCounter ''distcache_keyspace_misses_total'' ''Cache read misses.'' (st_Misses cs) @
     writeCounter ''distcache_sets_total'' ''Total SET-like writes.'' (st_Sets cs) @
     writeCounter ''distcache_deletes_total'' ''Total explicit deletes.'' (st_Deletes cs) @
     writeCounter ''distcache_evictions_total'' ''Keys removed by eviction.'' (st_Evictions cs) @
     writeCounter ''distcache_expirations_total'' ''Keys removed by TTL expiry.'' (st_Expirations cs) @
     writeGauge F ''distcache_keys'' ''Live keys stored.'' (fo_of_int F (st_Keys cs)) @
     writeGauge F ''distcache_memory_bytes'' ''Approximate bytes held.'' (fo_of_int F (st_MemoryBytes cs)) @
     writeGauge F ''distcache_hit_ratio'' ''Cache hit ratio [0,1].'' (HitRatio F cs) @
     write_gauges F (mt_gauges r) @ write_nodes F (mt_labeledNodes r) @
     writeHistogram F ''distcache_command_latency_seconds'' ''Command handling latency.'' (mt_Latency r)"

definition metrics_page :: "'f floats \<Rightarrow> int \<Rightarrow> 'f server \<Rightarrow> string" where
  "metrics_page F now s = WritePrometheus F now (cache_Stats (w_cache (sv_world s))) (sv_metrics s)"

subsection \<open>What a scraper reads\<close>

text \<open>A scraper splits the page into lines, skips comments, and takes the name before the last space and the value behind
  it.\<close>

definition read_sample :: "string \<Rightarrow> string \<times> string" where
  "read_sample l = (let v = rev (takeWhile (\<lambda>ch. ch \<noteq> CHR '' '') (rev l)) in (take (length l - length v - 1) l, v))"

definition is_comment :: "string \<Rightarrow> bool" where
  "is_comment l \<longleftrightarrow> take 1 l = ''#''"

fun scrape :: "string \<Rightarrow> string \<Rightarrow> (string \<times> string) list" where
  "scrape l [] = []"
| "scrape l (ch # r) =
     (if ch = LF then (if is_comment l then [] else [read_sample l]) @ scrape [] r else scrape (l @ [ch]) r)"

definition token :: "string \<Rightarrow> bool" where
  "token v \<longleftrightarrow> LF \<notin> set v \<and> CHR '' '' \<notin> set v"

lemma scrape_line: "LF \<notin> set x \<Longrightarrow> scrape l (x @ LF # r) = (if is_comment (l @ x) then [] else [read_sample (l @ x)]) @ scrape [] r"
  by (induction x arbitrary: l) auto

lemma read_sample_line: "token v \<Longrightarrow> read_sample (n @ CHR '' '' # v) = (n, v)"
proof -
  assume "token v"
  then have "takeWhile (\<lambda>ch. ch \<noteq> CHR '' '') (rev v @ CHR '' '' # rev n) = rev v"
    by (subst takeWhile_append2) (auto simp: token_def)
  then show ?thesis by (simp add: read_sample_def Let_def)
qed

named_theorems scrapes \<open>how a scraper reads the parts of a page\<close>

lemma scrape_sample [scrapes]:
  assumes "LF \<notin> set n" and "n \<noteq> []" and "\<not> is_comment n" and "token v"
  shows "scrape [] (sample n v @ r) = (n, v) # scrape [] r"
proof -
  have "LF \<notin> set (n @ CHR '' '' # v)" using assms by (auto simp: token_def)
  from scrape_line [OF this, of "[]" r] assms(2,3) read_sample_line [OF assms(4), of n] show ?thesis
    by (cases n) (simp_all add: sample_def is_comment_def)
qed

lemma scrape_head [scrapes]:
  assumes "LF \<notin> set n" and "LF \<notin> set help" and "LF \<notin> set kind"
  shows "scrape [] (metric_head kind n help @ r) = scrape [] r"
proof -
  have "LF \<notin> set (''# HELP '' @ n @ '' '' @ help)" "LF \<notin> set (''# TYPE '' @ n @ '' '' @ kind)" using assms by auto
  note l = scrape_line [OF this(1), of "[]" "''# TYPE '' @ n @ '' '' @ kind @ LF # r"] scrape_line [OF this(2), of "[]" r]
  show ?thesis using l by (simp add: metric_head_def is_comment_def)
qed

lemma token_u64 [simp]: "token (u64_text n)"
proof -
  have "digit_val LF = None" and "digit_val (CHR '' '') = None" by (simp_all add: digit_val_def)
  then have "digit_char d \<noteq> LF \<and> digit_char d \<noteq> CHR '' ''" if "d < 10" for d
    using that digit_val_digit_char [of d] by (metis option.distinct(1))
  then show ?thesis using set_format_nat by (fastforce simp: token_def u64_text_def)
qed

lemma scrape_counter [scrapes]:
  "LF \<notin> set n \<Longrightarrow> n \<noteq> [] \<Longrightarrow> \<not> is_comment n \<Longrightarrow> LF \<notin> set help \<Longrightarrow>
     scrape [] (writeCounter n help v @ r) = (n, u64_text v) # scrape [] r"
  by (simp add: writeCounter_def scrapes)

lemma scrape_gauge [scrapes]:
  "LF \<notin> set n \<Longrightarrow> n \<noteq> [] \<Longrightarrow> \<not> is_comment n \<Longrightarrow> LF \<notin> set help \<Longrightarrow> token (fo_text F v) \<Longrightarrow>
     scrape [] (writeGauge F n help v @ r) = (n, fo_text F v) # scrape [] r"
  by (simp add: writeGauge_def scrapes)

lemma scrape_samples [scrapes]:
  "\<forall>x \<in> set xs. LF \<notin> set (n x) \<and> n x \<noteq> [] \<and> \<not> is_comment (n x) \<and> token (v x) \<Longrightarrow>
     scrape [] (concat (map (\<lambda>x. sample (n x) (v x)) xs) @ r) = map (\<lambda>x. (n x, v x)) xs @ scrape [] r"
  by (induction xs) (simp_all add: scrapes)

definition floats_ok :: "'f floats \<Rightarrow> bool" where
  "floats_ok F \<longleftrightarrow> (\<forall>x. token (fo_text F x)) \<and> (\<forall>s. LF \<notin> set (fo_quote F s))"

lemma scrape_gauges [scrapes]:
  assumes "floats_ok F" and "\<forall>n \<in> mkeys gs. LF \<notin> set n"
  shows "scrape [] (write_gauges F gs @ r) =
    map (\<lambda>n. (''distcache_'' @ n, fo_text F (the (map_of gs n)))) (sort (map fst gs)) @ scrape [] r"
  unfolding write_gauges_def writeGauge_def using assms
  by (simp add: scrape_samples floats_ok_def is_comment_def)

lemma scrape_nodes [scrapes]:
  assumes "floats_ok F"
  shows "scrape [] (write_nodes F ns @ r) =
    map (\<lambda>id'. (node_name F id' (the (map_of ns id')), ''1'')) (sort (map fst ns)) @ scrape [] r"
  using assms by (simp add: write_nodes_def scrapes floats_ok_def is_comment_def node_name_def token_def)

definition histogram_samples :: "'f floats \<Rightarrow> string \<Rightarrow> Histogram \<Rightarrow> (string \<times> string) list" where
  "histogram_samples F name h =
     map (\<lambda>(b, n). (bucket_name name (fo_text F (fo_seconds F b)), u64_text n)) (zip (hi_bounds h) (hi_buckets h)) @
     [(bucket_name name ''+Inf'', u64_text (hi_count h)),
      (name @ ''_sum'', fo_text F (fo_div F (fo_of_int F (uint (hi_sum h))) (fo_of_int F 1000000))),
      (name @ ''_count'', u64_text (hi_count h))]"

lemma scrape_histogram [scrapes]:
  assumes "floats_ok F" and "LF \<notin> set n" and "n \<noteq> []" and "\<not> is_comment n" and "LF \<notin> set help"
  shows "scrape [] (writeHistogram F n help h) = histogram_samples F n h"
proof -
  have b: "LF \<notin> set (bucket_name n x)" "bucket_name n x \<noteq> []" "\<not> is_comment (bucket_name n x)" if "LF \<notin> set x" for x
    using that assms(2-4) by (cases n; simp add: bucket_name_def is_comment_def)+
  have t: "\<not> is_comment (n @ x)" for x using assms(3,4) by (cases n) (simp_all add: is_comment_def)
  have f: "LF \<notin> set (fo_text F x)" "token (fo_text F x)" for x using assms(1) by (simp_all add: floats_ok_def token_def)
  show ?thesis using assms(2,3,5) scrape_sample [of "n @ ''_count''" _ "[]"]
    by (simp add: writeHistogram_def histogram_samples_def scrape_head scrape_sample split_def scrape_samples b t f)
qed

text \<open>The page that a scraper reads has a sample for every counter of the server and the cache, with its value in decimal; then the
  gauges, the nodes, and the buckets, sum and count of the latency histogram.\<close>

theorem prometheus_scrape:
  assumes "floats_ok F" and "\<forall>n \<in> mkeys (mt_gauges r). LF \<notin> set n"
  shows "scrape [] (WritePrometheus F now cs r) =
    [(''distcache_commands_total'', u64_text (mt_CommandsTotal r)),
     (''distcache_connections_opened_total'', u64_text (mt_ConnectionsOpened r)),
     (''distcache_connections_active'', fo_text F (fo_of_int F (mt_ConnectionsActive r))),
     (''distcache_pubsub_messages_total'', u64_text (mt_PubSubMessages r)),
     (''distcache_net_input_bytes_total'', u64_text (mt_NetInBytes r)),
     (''distcache_net_output_bytes_total'', u64_text (mt_NetOutBytes r)),
     (''distcache_uptime_seconds'', fo_text F (fo_seconds F (wrap64 (now - mt_start r)))),
     (''distcache_keyspace_hits_total'', u64_text (st_Hits cs)), (''distcache_keyspace_misses_total'', u64_text (st_Misses cs)),
     (''distcache_sets_total'', u64_text (st_Sets cs)), (''distcache_deletes_total'', u64_text (st_Deletes cs)),
     (''distcache_evictions_total'', u64_text (st_Evictions cs)), (''distcache_expirations_total'', u64_text (st_Expirations cs)),
     (''distcache_keys'', fo_text F (fo_of_int F (st_Keys cs))),
     (''distcache_memory_bytes'', fo_text F (fo_of_int F (st_MemoryBytes cs))),
     (''distcache_hit_ratio'', fo_text F (HitRatio F cs))] @
    map (\<lambda>n. (''distcache_'' @ n, fo_text F (the (map_of (mt_gauges r) n)))) (sort (map fst (mt_gauges r))) @
    map (\<lambda>id'. (node_name F id' (the (map_of (mt_labeledNodes r) id')), ''1'')) (sort (map fst (mt_labeledNodes r))) @
    histogram_samples F ''distcache_command_latency_seconds'' (mt_Latency r)"
proof -
  have f: "token (fo_text F x)" for x using assms(1) by (simp add: floats_ok_def)
  show ?thesis unfolding WritePrometheus_def
    by (simp add: scrape_counter scrape_gauge scrape_gauges [OF assms] scrape_nodes [OF assms(1)] scrape_histogram [OF assms(1)] f
        is_comment_def)
qed

theorem prometheus_scrape_witness:
  "hd (scrape [] (WritePrometheus \<lparr>fo_text = (\<lambda>x :: unit. ''0.5''), fo_of_int = (\<lambda>_. ()), fo_seconds = (\<lambda>_. ()),
       fo_div = (\<lambda>_ _. ()), fo_quote = (\<lambda>_. ''q'')\<rparr> 5
       \<lparr>st_Hits = 0, st_Misses = 0, st_Sets = 0, st_Deletes = 0, st_Evictions = 0, st_Expirations = 0, st_Keys = 0, st_MemoryBytes = 0\<rparr>
       (IncCommands (metrics_New ''n'' 0)))) = (''distcache_commands_total'', ''1'')"
proof -
  let ?F = "\<lparr>fo_text = (\<lambda>x :: unit. ''0.5''), fo_of_int = (\<lambda>_. ()), fo_seconds = (\<lambda>_. ()), fo_div = (\<lambda>_ _. ()), fo_quote = (\<lambda>_. ''q'')\<rparr>"
  have "floats_ok ?F" by (simp add: floats_ok_def token_def)
  moreover have "u64_text 1 = ''1''" by code_simp
  ultimately show ?thesis using prometheus_scrape [of ?F "IncCommands (metrics_New ''n'' 0)" 5]
    by (simp add: IncCommands_def metrics_New_def)
qed

end
